(* ===== verification/Prelude.thy ===== *)
theory Prelude
  imports Main "HOL-Library.Word" "HOL-Library.Multiset"
begin

text \<open>
  The prelude of the development: byte strings and the functions of Go's standard library that
  several components call (\<open>strings.Trim\<close>, \<open>strings.TrimRight\<close>, \<open>strings.HasPrefix\<close>,
  \<open>strings.ToLower\<close>, \<open>strconv.Itoa\<close>, \<open>strconv.Atoi\<close>), each with the lemmas the component
  proofs rest on, and the generic list lemmas they share.

  A Go \<open>string\<close> or \<open>[]byte\<close> is a list of bytes, and a byte is a \<^typ>\<open>char\<close> (HOL's
  \<^typ>\<open>char\<close> has exactly 256 values).
\<close>

named_theorems go_defs \<open>definitions of the modelled standard-library functions\<close>
named_theorems byte_class \<open>definitions of the byte classes\<close>

section \<open>Bytes and byte classes\<close>

type_synonym byte = char
type_synonym bytes = string

abbreviation LF :: byte where "LF \<equiv> CHR 0x0A"
abbreviation CR :: byte where "CR \<equiv> CHR 0x0D"

definition is_digit :: "byte \<Rightarrow> bool" where [byte_class]:
  "is_digit b \<longleftrightarrow> (48::nat) \<le> of_char b \<and> of_char b \<le> (57::nat)"

definition digit_val :: "byte \<Rightarrow> nat" where
  "digit_val b = of_char b - 48"

definition digit_byte :: "nat \<Rightarrow> byte" where
  "digit_byte n = char_of (48 + n)"

lemma digit_val_byte [simp]: "n < 10 \<Longrightarrow> digit_val (digit_byte n) = n"
  by (simp add: digit_val_def digit_byte_def)

lemma is_digit_byte [simp]: "n < 10 \<Longrightarrow> is_digit (digit_byte n)"
  by (simp add: is_digit_def digit_byte_def)

lemma digit_val_less: "is_digit b \<Longrightarrow> digit_val b < 10"
  by (auto simp: is_digit_def digit_val_def)

lemma digits_notin:
  "list_all is_digit ds \<Longrightarrow> \<not> is_digit c \<Longrightarrow> c \<notin> set ds"
  by (auto simp: list_all_iff)

lemma not_digit_simps [simp]:
  "\<not> is_digit (CHR ''>'')" "\<not> is_digit (CHR ''<'')" "\<not> is_digit (CHR '':'')"
  "\<not> is_digit (CHR '';'')" "\<not> is_digit LF" "\<not> is_digit CR" "\<not> is_digit (CHR '' '')"
  "\<not> is_digit (CHR ''-'')" "\<not> is_digit (CHR ''+'')"
  by (simp_all add: is_digit_def)

section \<open>Generic list lemmas\<close>

lemma takeWhile_eq_prefix:
  assumes "\<forall>c\<in>set u. p c" and "rest = [] \<or> \<not> p (hd rest)"
  shows "takeWhile p (u @ rest) = u"
  using assms by (induction u) (cases rest; simp)+

lemma append_split_notin:
  assumes "xs @ c # ys = u @ rest" and "c \<notin> set u"
  obtains t where "xs = u @ t" and "rest = t @ c # ys"
proof -
  from assms(1) consider t where "xs = u @ t" "t @ c # ys = rest" | t where "xs @ t = u" "c # ys = t @ rest"
    by (auto simp: append_eq_append_conv2)
  then show ?thesis
  proof cases
    case 1
    then show ?thesis using that by simp
  next
    case 2
    with assms(2) have "t = []" by (cases t) auto
    with 2 show ?thesis using that [of "[]"] by simp
  qed
qed

lemma concat_map_Cons_head:
  "f x = y # ys \<Longrightarrow> concat (map f (x # xs)) = y # (ys @ concat (map f xs))"
  by simp

lemma hd_filter_Some: "filter p xs = y # ys \<Longrightarrow> p y \<and> y \<in> set xs"
  by (induction xs) (auto split: if_splits)

lemma rev_upt_Cons: "m \<le> n \<Longrightarrow> rev [m..<Suc n] = n # rev [m..<n]"
  by simp

section \<open>strings.TrimRight, strings.TrimLeft, strings.Trim, strings.HasPrefix\<close>

definition trim_right :: "bytes \<Rightarrow> bytes \<Rightarrow> bytes" where [go_defs]:
  "trim_right cutset s = rev (dropWhile (\<lambda>c. c \<in> set cutset) (rev s))"

definition trim_left :: "bytes \<Rightarrow> bytes \<Rightarrow> bytes" where [go_defs]:
  "trim_left cutset s = dropWhile (\<lambda>c. c \<in> set cutset) s"

definition trim :: "bytes \<Rightarrow> bytes \<Rightarrow> bytes" where [go_defs]:
  "trim cutset s = trim_right cutset (trim_left cutset s)"

fun has_prefix :: "bytes \<Rightarrow> bytes \<Rightarrow> bool" where
  "has_prefix s [] = True"
| "has_prefix [] (p # ps) = False"
| "has_prefix (c # s) (p # ps) = (c = p \<and> has_prefix s ps)"

lemma trim_right_Nil [simp]: "trim_right cs [] = []"
  by (simp add: trim_right_def)

lemma trim_right_snoc:
  "trim_right cs (s @ [c]) = (if c \<in> set cs then trim_right cs s else s @ [c])"
  by (simp add: trim_right_def)

lemma trim_right_id: "s = [] \<or> last s \<notin> set cs \<Longrightarrow> trim_right cs s = s"
  by (cases s rule: rev_cases) (auto simp: trim_right_snoc)

lemma trim_right_idem [simp]: "trim_right cs (trim_right cs s) = trim_right cs s"
  by (simp add: trim_right_def)

lemma trim_right_split:
  obtains t where "s = trim_right cs s @ t" and "set t \<subseteq> set cs"
proof -
  have "rev s = takeWhile (\<lambda>c. c \<in> set cs) (rev s) @ dropWhile (\<lambda>c. c \<in> set cs) (rev s)"
    by simp
  then have "s = rev (dropWhile (\<lambda>c. c \<in> set cs) (rev s)) @ rev (takeWhile (\<lambda>c. c \<in> set cs) (rev s))"
    by (metis rev_append rev_rev_ident)
  then show ?thesis
    using that [of "rev (takeWhile (\<lambda>c. c \<in> set cs) (rev s))"]
    by (auto simp: trim_right_def dest: set_takeWhileD)
qed

lemma has_prefix_iff: "has_prefix s p \<longleftrightarrow> (\<exists>t. s = p @ t)"
  by (induction s p rule: has_prefix.induct) auto

section \<open>strconv: decimal numbers\<close>

text \<open>
  The decimal value of a digit string, \<open>strconv.Itoa\<close> on naturals, and \<open>strconv.Atoi\<close>: an
  optional sign, then at least one digit; a value that does not fit the 64-bit \<open>int\<close> is an
  error. In every case where \<open>Atoi\<close> fails the model returns \<^const>\<open>None\<close>.
\<close>

definition dec_val :: "bytes \<Rightarrow> nat" where
  "dec_val s = foldl (\<lambda>n c. 10 * n + digit_val c) 0 s"

fun itoa :: "nat \<Rightarrow> bytes" where
  "itoa n = (if n < 10 then [digit_byte n] else itoa (n div 10) @ [digit_byte (n mod 10)])"

declare itoa.simps [simp del]

definition max_int :: int where "max_int = 2 ^ 63 - 1"

definition atoi_digits :: "bytes \<Rightarrow> nat option" where
  "atoi_digits s = (if s \<noteq> [] \<and> list_all is_digit s then Some (dec_val s) else None)"

definition atoi :: "bytes \<Rightarrow> int option" where
  "atoi s =
     (case s of
        [] \<Rightarrow> None
      | c # cs \<Rightarrow>
          let neg = (c = CHR ''-'');
              ds = (if c = CHR ''-'' \<or> c = CHR ''+'' then cs else s)
          in case atoi_digits ds of
               None \<Rightarrow> None
             | Some n \<Rightarrow>
                 let v = (if neg then - int n else int n)
                 in if - max_int - 1 \<le> v \<and> v \<le> max_int then Some v else None)"

text \<open>
  The number \<open>Atoi\<close> returns beside its error: 0 for a syntax error, the nearest 64-bit number for
  a value out of range.
\<close>

definition atoi_err_val :: "bytes \<Rightarrow> int" where
  "atoi_err_val s =
     (case s of
        [] \<Rightarrow> 0
      | c # cs \<Rightarrow>
          (case atoi_digits (if c = CHR ''-'' \<or> c = CHR ''+'' then cs else s) of
             None \<Rightarrow> 0
           | Some n \<Rightarrow> if c = CHR ''-'' then - max_int - 1 else max_int))"

lemma dec_val_snoc [simp]: "dec_val (s @ [c]) = 10 * dec_val s + digit_val c"
  by (simp add: dec_val_def)

lemma dec_val_Nil [simp]: "dec_val [] = 0"
  by (simp add: dec_val_def)

lemma dec_val_Cons: "dec_val (c # s) = digit_val c * 10 ^ length s + dec_val s"
proof (induction s rule: rev_induct)
  case Nil
  then show ?case by (simp add: dec_val_def)
next
  case (snoc x s)
  then show ?case using dec_val_snoc [of "c # s" x] by (simp add: algebra_simps)
qed

lemma itoa_not_Nil [simp]: "itoa n \<noteq> []"
  by (subst itoa.simps) simp

lemma itoa_digits: "list_all is_digit (itoa n)"
proof (induction n rule: itoa.induct)
  case (1 n)
  then show ?case
    by (subst itoa.simps) auto
qed

lemma dec_val_itoa [simp]: "dec_val (itoa n) = n"
proof (induction n rule: itoa.induct)
  case (1 n)
  show ?case
  proof (cases "n < 10")
    case True
    then show ?thesis
      using dec_val_snoc [of "[]" "digit_byte n"] by (simp add: itoa.simps [of n])
  next
    case False
    with 1 show ?thesis
      by (simp add: itoa.simps [of n])
  qed
qed

lemma atoi_of_digits:
  assumes "s \<noteq> []" and "list_all is_digit s" and "int (dec_val s) \<le> max_int"
  shows "atoi s = Some (int (dec_val s))"
proof -
  obtain c cs where s: "s = c # cs" using assms(1) by (cases s) auto
  with assms(2) have "is_digit c" by simp
  then have "c \<noteq> CHR ''-''" and "c \<noteq> CHR ''+''" by auto
  with assms s show ?thesis
    by (simp add: atoi_def atoi_digits_def max_int_def)
qed

lemma atoi_itoa: "int n \<le> max_int \<Longrightarrow> atoi (itoa n) = Some (int n)"
  using atoi_of_digits [of "itoa n"] by (simp add: itoa_digits)

lemma dec_val_bound: "list_all is_digit s \<Longrightarrow> dec_val s < 10 ^ length s"
proof (induction s rule: rev_induct)
  case (snoc c s)
  then have "dec_val s + 1 \<le> 10 ^ length s" and "digit_val c < 10"
    by (auto simp: digit_val_less)
  then show ?case by simp
qed simp

lemma pos_le_div_mult: "(0::int) < k \<Longrightarrow> a \<le> n div k \<longleftrightarrow> a * k \<le> n"
proof
  assume k: "0 < k" and a: "a \<le> n div k"
  then have "a * k \<le> n div k * k" by (simp add: mult_right_mono)
  also have "\<dots> \<le> n" using k by (simp add: minus_mod_eq_div_mult [symmetric])
  finally show "a * k \<le> n" .
next
  assume k: "0 < k" and a: "a * k \<le> n"
  then have "a * k div k \<le> n div k" by (intro zdiv_mono1)
  with k show "a \<le> n div k" by simp
qed

lemma pos_div_less_mult: "(0::int) < k \<Longrightarrow> n div k < a \<longleftrightarrow> n < a * k"
  using pos_le_div_mult [of k a n] by linarith

section \<open>strings.ToLower\<close>

text \<open>
  \<open>strings.ToLower\<close> is used to compare with ASCII words. It is modelled on ASCII letters; no
  code point outside ASCII maps to one of the letters of the words compared
  (\<open>and\<close>, \<open>or\<close>, \<open>not\<close>, \<open>tcp\<close>, \<open>udp\<close>) in Unicode's lower-case mapping.
\<close>

definition lower_code :: "nat \<Rightarrow> nat" where
  "lower_code r = (if 65 \<le> r \<and> r \<le> 90 then r + 32 else r)"

definition to_lower :: "bytes \<Rightarrow> bytes" where
  "to_lower s = map (\<lambda>c. char_of (lower_code (of_char c))) s"

end
