(* ===== verification/Netstr_Delimiter.thy ===== *)
theory Netstr_Delimiter
  imports Prelude
begin

text \<open>
  \<open>input/delimiter_netstrings.go\<close>: the netstring delimiter (\<open>length:value;\<close>). The struct as a
  record, one definition per method, the representation invariant, the round trip with the
  encoder, and the behaviour on malformed input.
\<close>

section \<open>Model\<close>

datatype netstr_error = errBroken | errLenInc | errLenInv | errLenConv | errValInc

record NetstrDelimiter =
  Result :: bytes
  lenBuff :: bytes
  valBuff :: bytes
  valBuffLen :: int
  valBuffMode :: bool
  ignoreMode :: bool
  brokenMode :: bool

abbreviation lenBuffEnd :: byte where "lenBuffEnd \<equiv> CHR '':''"

text \<open>
  \<open>bytes.Buffer.WriteByte\<close>: appends the byte; the package documents that its error is always
  nil. The flag keeps the branches of the callers that handle an error.
\<close>

definition write_byte :: "bytes \<Rightarrow> byte \<Rightarrow> bytes \<times> bool" where
  "write_byte buf b = (buf @ [b], False)"

definition NewNetstrDelimiter :: NetstrDelimiter where
  "NewNetstrDelimiter = \<lparr>Result = [], lenBuff = [], valBuff = [], valBuffLen = 0,
     valBuffMode = False, ignoreMode = False, brokenMode = False\<rparr>"

definition useLenBuff :: "NetstrDelimiter \<Rightarrow> NetstrDelimiter" where
  "useLenBuff d =
     (let d1 = (if ignoreMode d then d\<lparr>Result := [], ignoreMode := False\<rparr>
                else d\<lparr>Result := valBuff d\<rparr>)
      in d1\<lparr>valBuff := [], valBuffMode := False\<rparr>)"

definition useValBuff :: "NetstrDelimiter \<Rightarrow> NetstrDelimiter \<times> netstr_error option" where
  "useValBuff d =
     (case atoi (lenBuff d) of
        None \<Rightarrow> (d\<lparr>valBuffLen := atoi_err_val (lenBuff d), brokenMode := True\<rparr>, Some errLenConv)
      | Some n \<Rightarrow> (d\<lparr>valBuffLen := n, lenBuff := [], valBuffMode := True\<rparr>, None))"

definition checkLenByte :: "byte \<Rightarrow> bool" where
  "checkLenByte b = list_ex (\<lambda>i. hd (itoa i) = b) [0..<10]"

definition processLenByte ::
  "NetstrDelimiter \<Rightarrow> byte \<Rightarrow> NetstrDelimiter \<times> (bool \<times> netstr_error option)" where
  "processLenByte d b =
     (if b = lenBuffEnd
      then (case useValBuff d of (d', e) \<Rightarrow> (d', (False, e)))
      else if checkLenByte b
      then (case write_byte (lenBuff d) b of
              (buf, failed) \<Rightarrow>
                if failed then (d\<lparr>lenBuff := buf, brokenMode := True\<rparr>, (False, Some errLenInc))
                else (d\<lparr>lenBuff := buf\<rparr>, (False, None)))
      else (d\<lparr>brokenMode := True\<rparr>, (False, Some errLenInv)))"

definition processValByte ::
  "NetstrDelimiter \<Rightarrow> byte \<Rightarrow> NetstrDelimiter \<times> (bool \<times> netstr_error option)" where
  "processValByte d b =
     (if valBuffLen d = 0 then (useLenBuff d, (True, None))
      else
        let d1 = d\<lparr>valBuffLen := valBuffLen d - 1\<rparr>
        in if ignoreMode d1 then (d1, (False, None))
           else (case write_byte (valBuff d1) b of
                   (buf, failed) \<Rightarrow>
                     if failed then (d1\<lparr>valBuff := buf, ignoreMode := True\<rparr>, (False, Some errValInc))
                     else (d1\<lparr>valBuff := buf\<rparr>, (False, None))))"

definition processByte ::
  "NetstrDelimiter \<Rightarrow> byte \<Rightarrow> NetstrDelimiter \<times> (bool \<times> netstr_error option)" where
  "processByte d b = (if valBuffMode d then processValByte d b else processLenByte d b)"

definition Push_netstr ::
  "NetstrDelimiter \<Rightarrow> byte \<Rightarrow> NetstrDelimiter \<times> (bool \<times> netstr_error option)" where
  "Push_netstr d b = (if brokenMode d then (d, (False, Some errBroken)) else processByte d b)"

definition Reset :: "NetstrDelimiter \<Rightarrow> NetstrDelimiter" where
  "Reset d = useLenBuff d"

text \<open>
  The client's loop: the value of \<open>Result\<close> each time a result is flagged, and the errors.
\<close>

fun net_feed :: "NetstrDelimiter \<Rightarrow> bytes \<Rightarrow> NetstrDelimiter \<times> bytes list \<times> netstr_error list" where
  "net_feed d [] = (d, [], [])"
| "net_feed d (b # bs) =
     (case Push_netstr d b of
        (d1, ok, e) \<Rightarrow>
          (case net_feed d1 bs of
             (d2, rs, es) \<Rightarrow>
               (d2, if ok then Result d1 # rs else rs,
                    case e of None \<Rightarrow> es | Some x \<Rightarrow> x # es)))"

lemma net_feed_append:
  "net_feed d (xs @ ys) =
     (case net_feed d xs of (d1, rs, es) \<Rightarrow>
        (case net_feed d1 ys of (d2, rs', es') \<Rightarrow> (d2, rs @ rs', es @ es')))"
  by (induction xs arbitrary: d) (auto split: prod.splits option.splits)

section \<open>Invariant\<close>

lemma checkLenByte_iff: "checkLenByte b \<longleftrightarrow> is_digit b"
proof -
  have "checkLenByte b \<longleftrightarrow> (\<exists>i<10. b = digit_byte i)"
    by (auto simp: checkLenByte_def list_ex_iff itoa.simps)
  also have "\<dots> \<longleftrightarrow> is_digit b"
  proof
    assume d: "is_digit b"
    then have "b = digit_byte (digit_val b)"
      by (auto simp: is_digit_def digit_byte_def digit_val_def)
    with d show "\<exists>i<10. b = digit_byte i" using digit_val_less by blast
  qed auto
  finally show ?thesis .
qed

definition net_inv :: "NetstrDelimiter \<Rightarrow> bool" where
  "net_inv d \<longleftrightarrow> list_all is_digit (lenBuff d) \<and> \<not> ignoreMode d \<and>
     (if valBuffMode d then lenBuff d = [] \<and> 0 \<le> valBuffLen d \<and> valBuffLen d \<le> max_int
      else valBuff d = [])"

named_theorems net_defs

lemmas [net_defs] = Push_netstr_def processByte_def processLenByte_def processValByte_def
  useLenBuff_def useValBuff_def write_byte_def checkLenByte_iff

lemma net_inv_New: "net_inv NewNetstrDelimiter"
  by (simp add: net_inv_def NewNetstrDelimiter_def)

lemma atoi_range: "list_all is_digit s \<Longrightarrow> atoi s = Some n \<Longrightarrow> 0 \<le> n \<and> n \<le> max_int"
  by (auto simp: atoi_def Let_def split: list.splits if_splits option.splits)

lemma net_inv_Push: "net_inv d \<Longrightarrow> net_inv (fst (Push_netstr d b))"
  by (auto simp: net_inv_def net_defs Let_def atoi_range split: option.splits)

lemma net_inv_feed: "net_inv d \<Longrightarrow> net_inv (fst (net_feed d bs))"
proof (induction bs arbitrary: d)
  case (Cons b bs)
  obtain d1 ok e where p: "Push_netstr d b = (d1, ok, e)" by (metis surj_pair)
  with Cons.prems net_inv_Push [of d b] have "net_inv d1" by simp
  with Cons.IH [of d1] p show ?case by (auto split: prod.splits)
qed simp

section \<open>Well-formed input\<close>

definition netstring :: "bytes \<Rightarrow> byte \<Rightarrow> bytes" where
  "netstring m t = itoa (length m) @ [lenBuffEnd] @ m @ [t]"

lemma net_feed_len:
  assumes "list_all is_digit ds" and "\<not> brokenMode d" and "\<not> valBuffMode d"
  shows "net_feed d ds = (d\<lparr>lenBuff := lenBuff d @ ds\<rparr>, [], [])"
  using assms
proof (induction ds arbitrary: d)
  case (Cons c ds)
  then have "Push_netstr d c = (d\<lparr>lenBuff := lenBuff d @ [c]\<rparr>, (False, None))"
    by (auto simp: net_defs)
  with Cons show ?case by simp
qed simp

lemma net_feed_val:
  assumes "\<not> brokenMode d" and "valBuffMode d" and "\<not> ignoreMode d"
    and "valBuffLen d = n + int (length v)" and "0 \<le> n"
  shows "net_feed d v = (d\<lparr>valBuffLen := n, valBuff := valBuff d @ v\<rparr>, [], [])"
  using assms
proof (induction v arbitrary: d)
  case (Cons c v)
  then have "Push_netstr d c =
      (d\<lparr>valBuffLen := valBuffLen d - 1, valBuff := valBuff d @ [c]\<rparr>, (False, None))"
    by (simp add: net_defs Let_def)
  with Cons show ?case by simp
qed simp

definition net_ready :: "NetstrDelimiter \<Rightarrow> bool" where
  "net_ready d \<longleftrightarrow> \<not> brokenMode d \<and> \<not> valBuffMode d \<and> \<not> ignoreMode d \<and>
     lenBuff d = [] \<and> valBuff d = []"

lemma net_feed_one:
  assumes "net_ready d" and "int (length m) \<le> max_int"
  shows "net_feed d (netstring m t) =
    (d\<lparr>Result := m, valBuffLen := 0\<rparr>, [m], [])"
proof -
  let ?d1 = "d\<lparr>lenBuff := itoa (length m)\<rparr>"
  let ?d2 = "d\<lparr>valBuffLen := int (length m), valBuffMode := True\<rparr>"
  let ?d3 = "d\<lparr>valBuffLen := 0, valBuffMode := True, valBuff := m\<rparr>"
  note r = assms(1) [unfolded net_ready_def]
  have 1: "net_feed d (itoa (length m)) = (?d1, [], [])"
    using net_feed_len [OF itoa_digits, of d "length m"] r by simp
  have 2: "net_feed ?d1 [lenBuffEnd] = (?d2, [], [])"
    using r atoi_itoa [OF assms(2)] by (simp add: net_defs)
  have 3: "net_feed ?d2 m = (?d3, [], [])"
    using net_feed_val [of ?d2 0 m] r by simp
  have 4: "net_feed ?d3 [t] = (d\<lparr>Result := m, valBuffLen := 0\<rparr>, [m], [])"
    using r by (simp add: net_defs Let_def)
  from 1 2 3 4 show ?thesis
    by (simp only: netstring_def net_feed_append prod.case append_Nil)
qed

lemma net_feed_many:
  assumes "net_ready d" and "\<forall>(m, t)\<in>set ms. int (length m) \<le> max_int"
  shows "\<exists>d'. net_feed d (concat (map (\<lambda>(m, t). netstring m t) ms)) = (d', map fst ms, []) \<and>
    net_ready d'"
  using assms
proof (induction ms arbitrary: d)
  case (Cons x ms)
  obtain m t where x: "x = (m, t)" by (cases x)
  let ?d1 = "d\<lparr>Result := m, valBuffLen := 0\<rparr>"
  have "net_ready ?d1" using Cons.prems(1) by (simp add: net_ready_def)
  with Cons obtain d' where
    "net_feed ?d1 (concat (map (\<lambda>(m, t). netstring m t) ms)) = (d', map fst ms, [])" "net_ready d'"
    by fastforce
  moreover have "net_feed d (netstring m t) = (?d1, [m], [])"
    using Cons.prems x by (intro net_feed_one) auto
  ultimately show ?case using x by (simp add: net_feed_append)
qed simp

section \<open>Malformed input\<close>

lemma net_feed_broken:
  "brokenMode d \<Longrightarrow> net_feed d bs = (d, [], replicate (length bs) errBroken)"
  by (induction bs) (simp_all add: Push_netstr_def)

section \<open>Properties\<close>

text \<open>
  C29. Round trip of netstrings. Any values whose lengths fit Go's \<open>int\<close>, each encoded as its
  decimal length, a colon, its bytes and one terminating byte (whatever bytes the value holds,
  colons, semicolons and digits included), are handed out by a new delimiter unchanged, one result
  per value and in order, with no error, and the delimiter is ready for the next one.
\<close>

theorem netstr_roundtrip:
  assumes "\<forall>(m, t)\<in>set ms. int (length m) \<le> max_int"
  shows "\<exists>d'. net_feed NewNetstrDelimiter (concat (map (\<lambda>(m, t). netstring m t) ms)) =
    (d', map fst ms, []) \<and> net_ready d'"
  using net_feed_many [OF _ assms] by (simp add: NewNetstrDelimiter_def net_ready_def)

theorem netstr_roundtrip_witness:
  "\<exists>d'. net_feed NewNetstrDelimiter
     (concat (map (\<lambda>(m, t). netstring m t) [(''a;1:b'', CHR '';''), ([], CHR '','')])) =
    (d', map fst [(''a;1:b'', CHR '';''), ([], CHR '','')], []) \<and> net_ready d'"
  by (rule netstr_roundtrip) (simp add: max_int_def)

text \<open>
  Malformed lengths. On a delimiter that reads a length, a byte that is neither a digit nor a
  colon is reported as an invalid length byte, and a colon after no digit at all, or after digits
  whose value exceeds Go's \<open>int\<close>, as a conversion error; in each case every later byte, whatever it
  is, yields no result and the error \<open>broken\<close>, and nothing of the delimiter changes any more.
\<close>

theorem netstr_malformed_length:
  assumes "net_inv d" and "\<not> brokenMode d" and "\<not> valBuffMode d"
    and "b \<noteq> lenBuffEnd \<and> \<not> is_digit b \<and> e = errLenInv \<or>
         b = lenBuffEnd \<and> (lenBuff d = [] \<or> int (dec_val (lenBuff d)) > max_int) \<and> e = errLenConv"
  shows "\<exists>d'. Push_netstr d b = (d', False, Some e) \<and>
    net_feed d' bs = (d', [], replicate (length bs) errBroken)"
proof -
  have digits: "list_all is_digit (lenBuff d)" using assms(1) by (simp add: net_inv_def)
  have "atoi (lenBuff d) = None" if "lenBuff d = [] \<or> int (dec_val (lenBuff d)) > max_int"
    using that digits
    by (auto simp: atoi_def atoi_digits_def Let_def split: list.splits)
  with assms show ?thesis
    by (auto simp: net_defs net_feed_broken)
qed

theorem netstr_malformed_length_witness:
  "\<exists>d'. Push_netstr NewNetstrDelimiter (CHR ''x'') = (d', False, Some errLenInv) \<and>
    net_feed d' ''1:a;'' = (d', [], replicate (length ''1:a;'') errBroken)"
  by (rule netstr_malformed_length [OF net_inv_New])
    (simp_all add: NewNetstrDelimiter_def is_digit_def)

text \<open>
  \<open>Reset\<close> does not return the delimiter to its initial state: a broken delimiter stays broken,
  and digits of an unfinished length stay in the length buffer, so that the next netstring sent
  after the reset is read with the wrong length.
\<close>

theorem netstr_reset_incomplete:
  "(\<forall>d. brokenMode (Reset d) = brokenMode d \<and> lenBuff (Reset d) = lenBuff d) \<and>
   (case net_feed NewNetstrDelimiter ''1'' of
      (d, rs, es) \<Rightarrow> fst (snd (net_feed (Reset d) ''2:ab;'')) = [] \<and>
        fst (snd (net_feed NewNetstrDelimiter ''2:ab;'')) = [''ab''])"
proof
  show "\<forall>d. brokenMode (Reset d) = brokenMode d \<and> lenBuff (Reset d) = lenBuff d"
    by (simp add: Reset_def useLenBuff_def Let_def)
  show "case net_feed NewNetstrDelimiter ''1'' of
      (d, rs, es) \<Rightarrow> fst (snd (net_feed (Reset d) ''2:ab;'')) = [] \<and>
        fst (snd (net_feed NewNetstrDelimiter ''2:ab;'')) = [''ab'']"
    by code_simp
qed

end
