(* ===== verification/Framing.thy ===== *)
theory Framing
  imports Prelude
begin

text \<open>
  The contract of a delimiter that takes a stream one byte at a time and hands out frames
  (\<open>input.SyslogDelimiter\<close> and \<open>rfc5424.Delimiter\<close>): the bytes it still holds and the frames
  it handed out together are the bytes it was given, in order. \<open>feed\<close> is the client's loop;
  the locale \<open>framing\<close> states the law for one byte and proves it for a whole stream.
\<close>

fun feed :: "('d \<Rightarrow> byte \<Rightarrow> 'd \<times> bytes option) \<Rightarrow> 'd \<Rightarrow> bytes \<Rightarrow> 'd \<times> bytes list" where
  "feed push d [] = (d, [])"
| "feed push d (b # bs) =
     (case push d b of
        (d', None) \<Rightarrow> feed push d' bs
      | (d', Some m) \<Rightarrow> (case feed push d' bs of (d'', ms) \<Rightarrow> (d'', m # ms)))"

lemma feed_append:
  "feed push d (xs @ ys) =
     (case feed push d xs of (d', ms) \<Rightarrow> (case feed push d' ys of (d'', ns) \<Rightarrow> (d'', ms @ ns)))"
  by (induction xs arbitrary: d) (auto split: prod.splits option.splits)

locale framing =
  fixes push :: "'d \<Rightarrow> byte \<Rightarrow> 'd \<times> bytes option"
    and pending :: "'d \<Rightarrow> bytes"
    and inv :: "'d \<Rightarrow> bool"
    and frame :: "bytes \<Rightarrow> bytes \<Rightarrow> bool"
  assumes push_keep: "inv d \<Longrightarrow> push d b = (d', None) \<Longrightarrow> inv d' \<and> pending d' = pending d @ [b]"
    and push_emit: "inv d \<Longrightarrow> push d b = (d', Some m) \<Longrightarrow>
      inv d' \<and> (\<exists>raw. pending d @ [b] = raw @ pending d' \<and> frame raw m)"
begin

lemma feed_lossless:
  assumes "inv d" and "feed push d bs = (d', ms)"
  shows "inv d' \<and> (\<exists>raws. pending d @ bs = concat raws @ pending d' \<and> list_all2 frame raws ms)"
  using assms
proof (induction bs arbitrary: d ms)
  case Nil
  then show ?case by auto
next
  case (Cons b bs)
  obtain e o' where p: "push d b = (e, o')" by (cases "push d b")
  show ?case
  proof (cases o')
    case None
    with Cons p have "feed push e bs = (d', ms)" by simp
    moreover from push_keep Cons.prems(1) p None
    have e: "inv e" "pending e = pending d @ [b]" by blast+
    ultimately show ?thesis using Cons.IH [of e ms] by simp
  next
    case (Some m)
    with Cons p obtain ns where ns: "feed push e bs = (d', ns)" "ms = m # ns"
      by (auto split: prod.splits)
    from push_emit Cons.prems(1) p Some obtain raw where
      e: "inv e" "pending d @ [b] = raw @ pending e" "frame raw m" by blast
    from Cons.IH [OF e(1) ns(1)] obtain raws where
      ih: "inv d'" "pending e @ bs = concat raws @ pending d'" "list_all2 frame raws ns" by blast
    from e(2) ih(2) have "pending d @ b # bs = concat (raw # raws) @ pending d'"
      by (metis append.assoc append_Cons append_Nil concat.simps(2))
    with e(3) ih ns(2) show ?thesis by (intro conjI exI [of _ "raw # raws"]) auto
  qed
qed

end

end
