(* ===== verification/RFC5424_Delimiter.thy ===== *)
theory RFC5424_Delimiter
  imports Framing
begin

text \<open>
  \<open>rfc5424/delimiter.go\<close>: the pull-style delimiter with an explicit state machine. The reader is
  the list of bytes still to be read and the error \<open>ReadByte\<close> returns when they are used up. The
  slice expressions of \<open>line\<close> panic when a bound is negative; the model returns \<^const>\<open>None\<close> there
  and the invariant shows that this never happens.
\<close>

section \<open>Model\<close>

datatype fsmState = newline | priStart | priEnd | priVal0 | priVal1 | priVal2 | priVal3
  | version | postVersion

datatype read_error = EOF_error | Read_error string

record Delimiter =
  rd :: bytes
  rd_err :: read_error
  dbuf :: bytes
  priLen :: nat
  dstate :: fsmState

definition NewDelimiter :: "bytes \<Rightarrow> read_error \<Rightarrow> Delimiter" where
  "NewDelimiter input e = \<lparr>rd = input, rd_err = e, dbuf = [], priLen = 0, dstate = newline\<rparr>"

definition line :: "Delimiter \<Rightarrow> bool \<Rightarrow> (Delimiter \<times> bytes) option" where
  "line d stripDelim =
     (let d1 = d\<lparr>dstate := priStart\<rparr>;
          n = int (length (dbuf d1)) - (if stripDelim then int (priLen d1) + 4 else 0)
      in if n < 0 then None
         else let l = take (nat n) (dbuf d1)
              in Some (d1\<lparr>dbuf := drop (length l) (dbuf d1), priLen := 0\<rparr>,
                       trim_right [CR, LF] l))"

text \<open>
  The \<open>switch\<close> of the loop of \<open>ReadLine\<close>: the next state and priority length, or \<^const>\<open>None\<close>
  where the loop returns \<open>d.line(true)\<close>.
\<close>

fun fsm :: "fsmState \<Rightarrow> nat \<Rightarrow> byte \<Rightarrow> (fsmState \<times> nat) option" where
  "fsm newline n b = Some (if b = LF then priStart else newline, n)"
| "fsm priStart n b = Some (if b = CHR ''<'' then priVal0 else priStart, n)"
| "fsm priVal0 n b = Some (if is_digit b then (priVal1, 1) else (priStart, n))"
| "fsm priVal1 n b =
     Some (if is_digit b then (priVal2, 2) else if b = CHR ''>'' then (version, n) else (priVal1, n))"
| "fsm priVal2 n b =
     Some (if is_digit b then (priVal3, 3) else if b = CHR ''>'' then (version, n) else (priVal2, n))"
| "fsm priVal3 n b =
     Some (if is_digit b then (priEnd, 4) else if b = CHR ''>'' then (version, n) else (priVal3, n))"
| "fsm priEnd n b = Some (if b = CHR ''>'' then version else priStart, n)"
| "fsm version n b = Some (if is_digit b then postVersion else priStart, n)"
| "fsm postVersion n b = (if b = CHR '' '' then None else Some (priStart, n))"

text \<open>One turn of the loop on the byte \<open>b\<close>, already appended to the buffer.\<close>

definition delim_byte :: "Delimiter \<Rightarrow> byte \<Rightarrow> (Delimiter \<times> bytes option) option" where
  "delim_byte d b =
     (let d1 = d\<lparr>dbuf := dbuf d @ [b]\<rparr>
      in case fsm (dstate d1) (priLen d1) b of
           Some (st, n) \<Rightarrow> Some (d1\<lparr>dstate := st, priLen := n\<rparr>, None)
         | None \<Rightarrow> map_option (\<lambda>(d2, l). (d2, Some l)) (line d1 True))"

lemma delim_byte_rd: "delim_byte d b = Some (d', o') \<Longrightarrow> rd d' = rd d"
  by (auto simp: delim_byte_def line_def Let_def split: option.splits if_splits)

text \<open>
  \<open>ReadLine\<close>: \<^const>\<open>None\<close> for a panic, otherwise the line and the reader's error, if any.
\<close>

function ReadLine :: "Delimiter \<Rightarrow> (Delimiter \<times> bytes \<times> read_error option) option" where
  "ReadLine d =
     (case rd d of
        [] \<Rightarrow> map_option (\<lambda>(d1, l). (d1, l, Some (rd_err d))) (line d False)
      | b # bs \<Rightarrow>
          (case delim_byte (d\<lparr>rd := bs\<rparr>) b of
             None \<Rightarrow> None
           | Some (d1, Some l) \<Rightarrow> Some (d1, l, None)
           | Some (d1, None) \<Rightarrow> ReadLine d1))"
  by pat_completeness auto
termination
  by (relation "measure (\<lambda>d. length (rd d))") (auto dest: delim_byte_rd)

declare ReadLine.simps [simp del]

text \<open>
  The client's loop: lines up to and including the one that comes with the reader's error.
  The first argument bounds the number of calls.
\<close>

fun read_all :: "nat \<Rightarrow> Delimiter \<Rightarrow> (bytes list \<times> Delimiter) option" where
  "read_all 0 d = None"
| "read_all (Suc n) d =
     (case ReadLine d of
        None \<Rightarrow> None
      | Some (d1, l, Some e) \<Rightarrow> Some ([l], d1)
      | Some (d1, l, None) \<Rightarrow> map_option (\<lambda>(ls, d2). (l # ls, d2)) (read_all n d1))"

section \<open>Invariant: the slices of \<open>line\<close> never panic\<close>

fun state_ok :: "fsmState \<Rightarrow> nat \<Rightarrow> nat \<Rightarrow> bool" where
  "state_ok newline n len = True"
| "state_ok priStart n len = True"
| "state_ok priVal0 n len = (1 \<le> len)"
| "state_ok priVal1 n len = (n = 1 \<and> 2 \<le> len)"
| "state_ok priVal2 n len = (n = 2 \<and> 3 \<le> len)"
| "state_ok priVal3 n len = (n = 3 \<and> 4 \<le> len)"
| "state_ok priEnd n len = (n = 4 \<and> 5 \<le> len)"
| "state_ok version n len = (1 \<le> n \<and> n \<le> 4 \<and> n + 2 \<le> len)"
| "state_ok postVersion n len = (1 \<le> n \<and> n \<le> 4 \<and> n + 3 \<le> len)"

definition delim_inv :: "Delimiter \<Rightarrow> bool" where
  "delim_inv d \<longleftrightarrow> state_ok (dstate d) (priLen d) (length (dbuf d))"

lemma state_ok_step:
  "state_ok st n len \<Longrightarrow> fsm st n b = Some (st', n') \<Longrightarrow> state_ok st' n' (Suc len)"
  by (cases "(st, n, b)" rule: fsm.cases) (auto split: if_splits)

lemma fsm_done: "fsm st n b = None \<longleftrightarrow> st = postVersion \<and> b = CHR '' ''"
  by (cases "(st, n, b)" rule: fsm.cases) auto

lemma delim_inv_New: "delim_inv (NewDelimiter input e)"
  by (simp add: delim_inv_def NewDelimiter_def)

lemma line_False: "line d False = Some (d\<lparr>dstate := priStart, dbuf := [], priLen := 0\<rparr>,
    trim_right [CR, LF] (dbuf d))"
  by (simp add: line_def)

lemma delim_byte_cases:
  assumes "delim_inv d"
  shows "\<exists>d' o'. delim_byte d b = Some (d', o') \<and> delim_inv d' \<and> rd d' = rd d \<and> rd_err d' = rd_err d \<and>
    (case o' of
       None \<Rightarrow> dbuf d' = dbuf d @ [b]
     | Some l \<Rightarrow> \<exists>raw. dbuf d @ [b] = raw @ dbuf d' \<and> l = trim_right [CR, LF] raw \<and>
         dstate d' = priStart \<and> priLen d' = 0 \<and> length (dbuf d') = priLen d + 4 \<and>
         dstate d = postVersion \<and> b = CHR '' '')"
proof (cases "fsm (dstate d) (priLen d) b")
  case (Some p)
  with assms show ?thesis
    by (cases p) (auto simp: delim_byte_def delim_inv_def intro: state_ok_step)
next
  case None
  then have st: "dstate d = postVersion" "b = CHR '' ''" by (auto simp: fsm_done)
  with assms have len: "priLen d + 3 \<le> length (dbuf d)" by (simp add: delim_inv_def)
  define k where "k = length (dbuf d) + 1 - (priLen d + 4)"
  with len have n: "nat (int (length (dbuf d @ [b])) - (int (priLen d) + 4)) = k" "k \<le> length (dbuf d)"
    by simp_all
  define d' where "d' = d\<lparr>dbuf := drop k (dbuf d @ [b]), dstate := priStart, priLen := 0\<rparr>"
  have "delim_byte d b = Some (d', Some (trim_right [CR, LF] (take k (dbuf d @ [b]))))"
    using None n len by (auto simp: delim_byte_def line_def Let_def d'_def)
  moreover have "dbuf d @ [b] = take k (dbuf d @ [b]) @ dbuf d'" by (simp add: d'_def del: take_append drop_append)
  moreover have "length (dbuf d') = priLen d + 4" using len by (simp add: d'_def k_def del: drop_append)
  moreover have "delim_inv d'" "rd d' = rd d" "rd_err d' = rd_err d" "dstate d' = priStart" "priLen d' = 0"
    by (simp_all add: d'_def delim_inv_def)
  ultimately show ?thesis using st
    by (intro exI [of _ d'] exI [of _ "Some (trim_right [CR, LF] (take k (dbuf d @ [b])))"])
      (auto simp del: take_append drop_append)
qed

text \<open>The loop body as a push function, and its framing contract.\<close>

definition delim_push :: "Delimiter \<Rightarrow> byte \<Rightarrow> Delimiter \<times> bytes option" where
  "delim_push d b = (case delim_byte d b of None \<Rightarrow> (d, None) | Some p \<Rightarrow> p)"

definition trim_frame :: "bytes \<Rightarrow> bytes \<Rightarrow> bool" where
  "trim_frame raw m \<longleftrightarrow> m = trim_right [CR, LF] raw"

interpretation rd: framing delim_push dbuf delim_inv trim_frame
proof
  fix d b d'
  assume "delim_inv d" and "delim_push d b = (d', None)"
  with delim_byte_cases [of d b] show "delim_inv d' \<and> dbuf d' = dbuf d @ [b]"
    by (auto simp: delim_push_def)
next
  fix d b d' m
  assume "delim_inv d" and "delim_push d b = (d', Some m)"
  with delim_byte_cases [of d b]
  show "delim_inv d' \<and> (\<exists>raw. dbuf d @ [b] = raw @ dbuf d' \<and> trim_frame raw m)"
    by (auto simp: delim_push_def trim_frame_def)
qed

section \<open>\<open>ReadLine\<close> against the loop body\<close>

lemma delim_byte_rd_update:
  "delim_byte (d\<lparr>rd := x\<rparr>) b = map_option (\<lambda>(d', o'). (d'\<lparr>rd := x\<rparr>, o')) (delim_byte d b)"
  by (auto simp: delim_byte_def line_def Let_def split: option.splits)

lemma delim_push_rd_update:
  "delim_push (d\<lparr>rd := x\<rparr>) b = (case delim_push d b of (d', o') \<Rightarrow> (d'\<lparr>rd := x\<rparr>, o'))"
  by (auto simp: delim_push_def delim_byte_rd_update split: option.splits prod.splits)

lemma feed_rd_update:
  "feed delim_push (d\<lparr>rd := x\<rparr>) bs = (case feed delim_push d bs of (d', ms) \<Rightarrow> (d'\<lparr>rd := x\<rparr>, ms))"
  by (induction bs arbitrary: d) (auto simp: delim_push_rd_update split: prod.splits option.splits)

lemma delim_inv_rd_update [simp]: "delim_inv (d\<lparr>rd := x\<rparr>) = delim_inv d"
  by (simp add: delim_inv_def)

lemma ReadLine_feed:
  assumes "delim_inv d"
  shows "\<exists>d' l e. ReadLine d = Some (d', l, e) \<and> delim_inv d' \<and> rd_err d' = rd_err d \<and>
    (case e of
       None \<Rightarrow> \<exists>pre. rd d = pre @ rd d' \<and> pre \<noteq> [] \<and> feed delim_push d pre = (d'\<lparr>rd := rd d\<rparr>, [l])
     | Some x \<Rightarrow> x = rd_err d \<and> rd d' = [] \<and> dbuf d' = [] \<and>
         (\<exists>d1. feed delim_push d (rd d) = (d1, []) \<and> l = trim_right [CR, LF] (dbuf d1)))"
  using assms
proof (induction d rule: ReadLine.induct)
  case (1 d)
  show ?case
  proof (cases "rd d")
    case Nil
    then show ?thesis by (simp add: ReadLine.simps [of d] line_False delim_inv_def)
  next
    case (Cons b bs)
    let ?d0 = "d\<lparr>rd := bs\<rparr>"
    from "1.prems" have "delim_inv ?d0" by simp
    from delim_byte_cases [OF this, of b] obtain d1 o' where
      b: "delim_byte ?d0 b = Some (d1, o')" "delim_inv d1" "rd d1 = bs" "rd_err d1 = rd_err d" by auto
    then have "delim_byte d b = Some (d1\<lparr>rd := rd d\<rparr>, o')"
      using delim_byte_rd_update [where d = ?d0 and x = "rd d" and b = b] by simp
    then have push: "delim_push d b = (d1\<lparr>rd := rd d\<rparr>, o')" by (simp add: delim_push_def)
    show ?thesis
    proof (cases o')
      case (Some l)
      with Cons b push show ?thesis
        by (auto simp: ReadLine.simps [of d] intro!: exI [of _ "[b]"])
    next
      case None
      from "1.IH" [OF Cons b(1) refl None b(2)] obtain d' l e where ih: "ReadLine d1 = Some (d', l, e)" "delim_inv d'"
        "rd_err d' = rd_err d" "case e of
          None \<Rightarrow> \<exists>pre. bs = pre @ rd d' \<and> pre \<noteq> [] \<and> feed delim_push d1 pre = (d'\<lparr>rd := bs\<rparr>, [l])
        | Some x \<Rightarrow> x = rd_err d \<and> rd d' = [] \<and> dbuf d' = [] \<and>
           (\<exists>d2. feed delim_push d1 bs = (d2, []) \<and> l = trim_right [CR, LF] (dbuf d2))"
        unfolding b(3,4) by blast
      have feed: "feed delim_push d (b # xs) =
          (case feed delim_push d1 xs of (d2, ms) \<Rightarrow> (d2\<lparr>rd := rd d\<rparr>, ms))" for xs
        using push None by (simp add: feed_rd_update)
      from ih(1) None Cons b have "ReadLine d = Some (d', l, e)" by (simp add: ReadLine.simps [of d])
      moreover have "case e of
          None \<Rightarrow> \<exists>pre. rd d = pre @ rd d' \<and> pre \<noteq> [] \<and> feed delim_push d pre = (d'\<lparr>rd := rd d\<rparr>, [l])
        | Some x \<Rightarrow> x = rd_err d \<and> rd d' = [] \<and> dbuf d' = [] \<and>
           (\<exists>d2. feed delim_push d (rd d) = (d2, []) \<and> l = trim_right [CR, LF] (dbuf d2))"
      proof (cases e)
        case None
        with ih(4) obtain pre where
          "bs = pre @ rd d'" "feed delim_push d1 pre = (d'\<lparr>rd := bs\<rparr>, [l])" by auto
        with None Cons feed [of pre] show ?thesis by (auto intro!: exI [of _ "b # pre"])
      next
        case (Some x)
        with ih(4) Cons feed [of bs] show ?thesis by auto
      qed
      ultimately show ?thesis using ih(2,3) by blast
    qed
  qed
qed

lemma read_all_feed:
  assumes "delim_inv d" and "length (rd d) < n"
  shows "\<exists>d'. read_all n d =
    Some (case feed delim_push d (rd d) of (e, ms) \<Rightarrow> ms @ [trim_right [CR, LF] (dbuf e)], d')"
  using assms
proof (induction n arbitrary: d)
  case (Suc n)
  from ReadLine_feed [OF Suc.prems(1)] obtain d1 l e where
    r: "ReadLine d = Some (d1, l, e)" "delim_inv d1" "case e of
       None \<Rightarrow> \<exists>pre. rd d = pre @ rd d1 \<and> pre \<noteq> [] \<and> feed delim_push d pre = (d1\<lparr>rd := rd d\<rparr>, [l])
     | Some x \<Rightarrow> x = rd_err d \<and> rd d1 = [] \<and> dbuf d1 = [] \<and>
         (\<exists>d2. feed delim_push d (rd d) = (d2, []) \<and> l = trim_right [CR, LF] (dbuf d2))" by blast
  show ?case
  proof (cases e)
    case None
    with r(3) obtain pre where pre: "rd d = pre @ rd d1" "pre \<noteq> []"
      "feed delim_push d pre = (d1\<lparr>rd := rd d\<rparr>, [l])" by auto
    with Suc.prems(2) have "length (rd d1) < n" by (cases pre) auto
    with Suc.IH [OF r(2)] obtain d' where ih: "read_all n d1 =
      Some (case feed delim_push d1 (rd d1) of (e, ms) \<Rightarrow> ms @ [trim_right [CR, LF] (dbuf e)], d')" by blast
    have "feed delim_push d (rd d) =
        (case feed delim_push d1 (rd d1) of (d2, ms) \<Rightarrow> (d2\<lparr>rd := rd d\<rparr>, l # ms))"
      using feed_append [of delim_push d pre "rd d1"] pre
      by (simp add: feed_rd_update split: prod.splits)
    with ih r(1) None show ?thesis by (auto split: prod.splits)
  next
    case (Some x)
    with r show ?thesis by auto
  qed
qed simp

section \<open>Well-formed streams\<close>

definition is_header :: "bytes \<Rightarrow> bool" where
  "is_header h \<longleftrightarrow> (\<exists>ds v. h = CHR ''<'' # ds @ [CHR ''>'', v, CHR '' ''] \<and>
     list_all is_digit ds \<and> 1 \<le> length ds \<and> length ds \<le> 3 \<and> is_digit v)"

text \<open>
  A text in which the state machine finds no header and which leaves it at its start: every \<open><\<close> that is not skipped is
  followed by a byte that is not a digit; or by four digits and not \<open>>\<close>; or by one to four digits, \<open>>\<close> and a byte that is
  not a digit; or by these, a digit and a byte that is not a blank. The byte that ends such a piece is skipped, even if it is \<open><\<close>.
\<close>

inductive no_header :: "bytes \<Rightarrow> bool" where
  End: "no_header []"
| Byte: "\<lbrakk>c \<noteq> CHR ''<''; no_header s\<rbrakk> \<Longrightarrow> no_header (c # s)"
| Open: "\<lbrakk>\<not> is_digit c; no_header s\<rbrakk> \<Longrightarrow> no_header (CHR ''<'' # c # s)"
| Long: "\<lbrakk>list_all is_digit ds; length ds = 4; c \<noteq> CHR ''>''; no_header s\<rbrakk> \<Longrightarrow> no_header (CHR ''<'' # ds @ c # s)"
| Version: "\<lbrakk>list_all is_digit ds; 1 \<le> length ds; length ds \<le> 4; \<not> is_digit c; no_header s\<rbrakk> \<Longrightarrow>
    no_header (CHR ''<'' # ds @ CHR ''>'' # c # s)"
| Space: "\<lbrakk>list_all is_digit ds; 1 \<le> length ds; length ds \<le> 4; is_digit v; c \<noteq> CHR '' ''; no_header s\<rbrakk> \<Longrightarrow>
    no_header (CHR ''<'' # ds @ CHR ''>'' # v # c # s)"

lemma no_header_plain: "CHR ''<'' \<notin> set s \<Longrightarrow> no_header s"
  by (induction s) (auto intro: no_header.intros)

lemma feed_first_line:
  assumes "dstate d = newline" and "LF \<notin> set l"
  shows "feed delim_push d l = (d\<lparr>dbuf := dbuf d @ l\<rparr>, [])"
  using assms
proof (induction l arbitrary: d)
  case (Cons c l)
  then have "delim_push d c = (d\<lparr>dbuf := dbuf d @ [c]\<rparr>, None)"
    by (auto simp: delim_push_def delim_byte_def)
  with Cons show ?case by simp
qed simp

lemma feed_digits_pri:
  assumes "dstate d = priStart" and "list_all is_digit ds" and "1 \<le> length ds" and "length ds \<le> 4"
  shows "feed delim_push d (CHR ''<'' # ds @ [CHR ''>'']) =
    (d\<lparr>dbuf := dbuf d @ CHR ''<'' # ds @ [CHR ''>''], priLen := length ds, dstate := version\<rparr>, [])"
proof -
  from assms(3,4) consider x where "ds = [x]" | x y where "ds = [x, y]" | x y z where "ds = [x, y, z]"
    | x y z u where "ds = [x, y, z, u]"
    by (auto simp: le_Suc_eq numeral_eq_Suc length_Suc_conv)
  then show ?thesis
    using assms(1,2) by cases (simp_all add: delim_push_def delim_byte_def)
qed

lemma feed_long:
  assumes "dstate d = priStart" and "list_all is_digit ds" and "length ds = 4" and "c \<noteq> CHR ''>''"
  shows "feed delim_push d (CHR ''<'' # ds @ [c]) = (d\<lparr>dbuf := dbuf d @ CHR ''<'' # ds @ [c], priLen := 4\<rparr>, [])"
proof -
  from assms(3) obtain x y z u where "ds = [x, y, z, u]" by (auto simp: numeral_eq_Suc length_Suc_conv)
  then show ?thesis using assms(1,2,4) by (cases d) (simp add: delim_push_def delim_byte_def)
qed

text \<open>The state machine on such a text.\<close>

definition passes :: "Delimiter \<Rightarrow> bytes \<Rightarrow> bool" where
  "passes d s \<longleftrightarrow> (\<exists>k. feed delim_push d s = (d\<lparr>dbuf := dbuf d @ s, priLen := k\<rparr>, []))"

lemma passes_append: "passes d s \<Longrightarrow> (\<And>d'. dstate d' = dstate d \<Longrightarrow> passes d' t) \<Longrightarrow> passes d (s @ t)"
proof -
  assume "passes d s" and t: "\<And>d'. dstate d' = dstate d \<Longrightarrow> passes d' t"
  then obtain k where k: "feed delim_push d s = (d\<lparr>dbuf := dbuf d @ s, priLen := k\<rparr>, [])" by (auto simp: passes_def)
  from t [of "d\<lparr>dbuf := dbuf d @ s, priLen := k\<rparr>"] k show "passes d (s @ t)" by (auto simp: passes_def feed_append)
qed

lemma passes_closed:
  assumes "dstate d = priStart" and "list_all is_digit ds" and "1 \<le> length ds" and "length ds \<le> 4"
  shows "\<not> is_digit c \<Longrightarrow> passes d (CHR ''<'' # ds @ [CHR ''>'', c])"
    and "is_digit v \<Longrightarrow> c \<noteq> CHR '' '' \<Longrightarrow> passes d (CHR ''<'' # ds @ [CHR ''>'', v, c])"
proof -
  have f: "feed delim_push d (CHR ''<'' # ds @ CHR ''>'' # t) =
      feed delim_push (d\<lparr>dbuf := dbuf d @ CHR ''<'' # ds @ [CHR ''>''], priLen := length ds, dstate := version\<rparr>) t" for t
    using feed_append [of delim_push d "CHR ''<'' # ds @ [CHR ''>'']" t] feed_digits_pri [OF assms]
    by (simp split: prod.splits)
  show "passes d (CHR ''<'' # ds @ [CHR ''>'', c])" if "\<not> is_digit c"
    unfolding passes_def f using that assms(1) by (cases d) (simp add: delim_push_def delim_byte_def)
  show "passes d (CHR ''<'' # ds @ [CHR ''>'', v, c])" if "is_digit v" "c \<noteq> CHR '' ''"
    unfolding passes_def f using that assms(1) by (cases d) (simp add: delim_push_def delim_byte_def)
qed

lemma no_header_passes: "no_header s \<Longrightarrow> dstate d = priStart \<Longrightarrow> passes d s"
proof (induction arbitrary: d rule: no_header.induct)
  case End
  show ?case by (cases d) (simp add: passes_def)
next
  case (Byte c s)
  then have "passes d [c]" by (cases d) (simp add: passes_def delim_push_def delim_byte_def)
  from passes_append [OF this, of s] Byte show ?case by simp
next
  case (Open c s)
  then have "passes d [CHR ''<'', c]" by (cases d) (simp add: passes_def delim_push_def delim_byte_def)
  from passes_append [OF this, of s] Open show ?case by simp
next
  case (Long ds c s)
  then have "passes d (CHR ''<'' # ds @ [c])" unfolding passes_def using feed_long [of d ds c] by blast
  from passes_append [OF this, of s] Long show ?case by simp
next
  case (Version ds c s)
  from passes_append [OF passes_closed(1) [OF Version.prems Version.hyps(1-4)], of s] Version show ?case by simp
next
  case (Space ds v c s)
  from passes_append [OF passes_closed(2) [OF Space.prems Space.hyps(1-5)], of s] Space show ?case by simp
qed

text \<open>Without the newline at its end nothing is found either.\<close>

lemma feed_body:
  assumes "no_header (body @ [LF])" and "dstate d = priStart"
  shows "\<exists>d'. feed delim_push d body = (d', []) \<and> dbuf d' = dbuf d @ body"
proof -
  obtain d' ms where f: "feed delim_push d body = (d', ms)" by fastforce
  obtain d2 where p: "delim_push d' LF = (d2, None)" "dbuf d2 = dbuf d' @ [LF]"
    using fsm_done [of "dstate d'" "priLen d'" LF] by (cases "fsm (dstate d') (priLen d') LF") (auto simp: delim_push_def delim_byte_def)
  from no_header_passes [OF assms] obtain k where
    "feed delim_push d (body @ [LF]) = (d\<lparr>dbuf := dbuf d @ body @ [LF], priLen := k\<rparr>, [])" by (auto simp: passes_def)
  with f p(1) have "d2 = d\<lparr>dbuf := dbuf d @ body @ [LF], priLen := k\<rparr>" "ms = []" by (simp_all add: feed_append)
  with p(2) f show ?thesis by simp
qed

lemma feed_header:
  assumes "dstate d = priStart" and "is_header h"
  shows "feed delim_push d h =
    (d\<lparr>dbuf := h, priLen := 0, dstate := priStart\<rparr>, [trim_right [CR, LF] (dbuf d)])"
proof -
  from assms(2) obtain ds v where h: "h = (CHR ''<'' # ds @ [CHR ''>'']) @ [v, CHR '' '']"
    and ds: "list_all is_digit ds" "1 \<le> length ds" "length ds \<le> 3" and v: "is_digit v"
    by (auto simp: is_header_def)
  let ?p = "CHR ''<'' # ds @ [CHR ''>'']"
  let ?d1 = "d\<lparr>dbuf := dbuf d @ ?p, priLen := length ds, dstate := version\<rparr>"
  let ?d2 = "?d1\<lparr>dbuf := dbuf d @ ?p @ [v], dstate := postVersion\<rparr>"
  have 1: "feed delim_push d ?p = (?d1, [])" using feed_digits_pri [OF assms(1) ds(1,2)] ds(3) by simp
  have 2: "delim_push ?d1 v = (?d2, None)"
    using v by (simp add: delim_push_def delim_byte_def)
  have "int (length (dbuf d @ ?p @ [v, CHR '' ''])) - (int (length ds) + 4) = int (length (dbuf d))"
    by simp
  then have 3: "delim_push ?d2 (CHR '' '') =
      (d\<lparr>dbuf := h, priLen := 0, dstate := priStart\<rparr>, Some (trim_right [CR, LF] (dbuf d)))"
    by (simp add: delim_push_def delim_byte_def line_def Let_def h)
  show ?thesis
    unfolding h feed_append 1 using 2 3 h by simp
qed

definition msg_stream :: "(bytes \<times> bytes) list \<Rightarrow> bytes" where
  "msg_stream ms = concat (map (\<lambda>(h, body). LF # h @ body) ms)"

lemma map_butlast_last: "xs \<noteq> [] \<Longrightarrow> map f (butlast xs) @ [f (last xs)] = map f xs"
  by (cases xs rule: rev_cases) simp_all

lemma feed_messages:
  assumes "dstate d = priStart" and "\<forall>(h, body)\<in>set ms. is_header h \<and> no_header (body @ [LF])"
  shows "\<exists>d'. feed delim_push d (concat (map (\<lambda>(h, body). h @ body @ [LF]) ms)) =
      (d', map (trim_right [CR, LF]) (butlast (dbuf d # map (\<lambda>(h, body). h @ body @ [LF]) ms))) \<and>
    dbuf d' = last (dbuf d # map (\<lambda>(h, body). h @ body @ [LF]) ms) \<and> dstate d' = priStart"
  using assms
proof (induction ms arbitrary: d)
  case (Cons x ms)
  obtain h body where x: "x = (h, body)" by (cases x)
  let ?d1 = "d\<lparr>dbuf := h, priLen := 0, dstate := priStart\<rparr>"
  from Cons.prems x have hb: "is_header h" "no_header (body @ [LF])" by auto
  have 1: "feed delim_push d h = (?d1, [trim_right [CR, LF] (dbuf d)])" by (rule feed_header [OF Cons.prems(1) hb(1)])
  from no_header_passes [OF hb(2), of ?d1] obtain k where
    2: "feed delim_push ?d1 (body @ [LF]) = (?d1\<lparr>dbuf := h @ body @ [LF], priLen := k\<rparr>, [])" by (auto simp: passes_def)
  let ?d2 = "?d1\<lparr>dbuf := h @ body @ [LF], priLen := k\<rparr>"
  from Cons.prems(2) have "\<forall>(h, body)\<in>set ms. is_header h \<and> no_header (body @ [LF])" by simp
  from Cons.IH [of ?d2, OF _ this] obtain d' where
    ih: "feed delim_push ?d2 (concat (map (\<lambda>(h, body). h @ body @ [LF]) ms)) =
        (d', map (trim_right [CR, LF]) (butlast ((h @ body @ [LF]) # map (\<lambda>(h, body). h @ body @ [LF]) ms)))"
      "dbuf d' = last ((h @ body @ [LF]) # map (\<lambda>(h, body). h @ body @ [LF]) ms)" "dstate d' = priStart" by auto
  have "concat (map (\<lambda>(h, body). h @ body @ [LF]) (x # ms)) = (h @ (body @ [LF])) @ concat (map (\<lambda>(h, body). h @ body @ [LF]) ms)"
    by (simp add: x)
  moreover have "feed delim_push d (h @ (body @ [LF])) = (?d2, [trim_right [CR, LF] (dbuf d)])"
    by (simp only: feed_append [of delim_push d h] 1 2 prod.case append_Nil2)
  ultimately show ?case using ih by (simp only: feed_append [of delim_push d "h @ (body @ [LF])"]) (simp add: x)
qed simp

section \<open>Properties\<close>

text \<open>
  C19. No panic, no loss and termination of \<open>rfc5424.Delimiter\<close>. On any input, calling \<open>ReadLine\<close>
  until the reader reports its error ends after at most one call more than there are bytes, no
  slice expression of \<open>line\<close> is out of range, and the lines returned are consecutive pieces that
  together are the whole input, each without its trailing carriage returns and line feeds.
\<close>

theorem readline_total_lossless:
  "\<exists>raws d'. read_all (Suc (length input)) (NewDelimiter input e) =
       Some (map (trim_right [CR, LF]) raws, d') \<and> concat raws = input"
proof -
  let ?d = "NewDelimiter input e"
  obtain d1 ms where f: "feed delim_push ?d input = (d1, ms)" by fastforce
  from rd.feed_lossless [OF delim_inv_New f] obtain raws where
    r: "dbuf ?d @ input = concat raws @ dbuf d1" "list_all2 trim_frame raws ms" by blast
  from r(2) have "ms = map (trim_right [CR, LF]) raws"
    by (induction rule: list_all2_induct) (simp_all add: trim_frame_def)
  moreover have "rd ?d = input" by (simp add: NewDelimiter_def)
  moreover note read_all_feed [OF delim_inv_New, of input e "Suc (length input)"]
  ultimately obtain d' where "read_all (Suc (length input)) ?d =
      Some (map (trim_right [CR, LF]) (raws @ [dbuf d1]), d')" using f by auto
  moreover have "concat (raws @ [dbuf d1]) = input" using r(1) by (simp add: NewDelimiter_def)
  ultimately show ?thesis by blast
qed

text \<open>
  C20. Round trip of \<open>rfc5424.Delimiter\<close>. Take a first line without a line feed, followed by messages, each after a
  line feed, that consist of a header (\<open><n>v \<close> with one to three digits and a version digit) and a body in which, with the
  line feed after it, the state machine finds no header and no priority that is not closed (\<open>no_header\<close>). Line feeds are allowed in bodies, and
  \<open><\<close> too, for example before a byte that is not a digit or in \<open><33>4\<close> at the end of a line. Then exactly these lines
  are read back, in order, each without trailing carriage returns and line feeds.
\<close>

theorem readline_roundtrip:
  assumes "LF \<notin> set l" and "\<forall>(h, body)\<in>set ms. is_header h \<and> no_header (body @ [LF])"
    and "length (l @ msg_stream ms) < n"
  shows "\<exists>d'. read_all n (NewDelimiter (l @ msg_stream ms) e) =
    Some (map (trim_right [CR, LF]) (l # map (\<lambda>(h, b). h @ b) ms), d')"
proof -
  let ?d = "NewDelimiter (l @ msg_stream ms) e" and ?t = "trim_right [CR, LF]"
  have l: "feed delim_push ?d l = (?d\<lparr>dbuf := l\<rparr>, [])"
    using feed_first_line [of ?d l] assms(1) by (simp add: NewDelimiter_def)
  have "\<exists>d'. feed delim_push ?d (l @ msg_stream ms) = (d', map ?t (butlast (l # map (\<lambda>(h, b). h @ b) ms))) \<and>
      dbuf d' = last (l # map (\<lambda>(h, b). h @ b) ms)"
  proof (cases ms rule: rev_cases)
    case Nil
    with l show ?thesis by (simp add: msg_stream_def feed_append)
  next
    case (snoc ms0 x)
    obtain h body where x: "x = (h, body)" by (cases x)
    let ?d1 = "?d\<lparr>dbuf := l @ [LF], dstate := priStart\<rparr>" and ?ls = "map (\<lambda>(h, body). h @ body @ [LF]) ms0"
    have ok: "\<forall>(h, body)\<in>set ms0. is_header h \<and> no_header (body @ [LF])" "is_header h" "no_header (body @ [LF])"
      using assms(2) snoc x by auto
    have 1: "feed delim_push ?d (l @ [LF]) = (?d1, [])"
      unfolding feed_append l by (simp add: delim_push_def delim_byte_def NewDelimiter_def)
    from feed_messages [OF _ ok(1), of ?d1] obtain d2 where
      2: "feed delim_push ?d1 (concat ?ls) = (d2, map ?t (butlast ((l @ [LF]) # ?ls)))" "dbuf d2 = last ((l @ [LF]) # ?ls)"
        "dstate d2 = priStart" by auto
    let ?d3 = "d2\<lparr>dbuf := h, priLen := 0, dstate := priStart\<rparr>"
    have 3: "feed delim_push d2 h = (?d3, [?t (last ((l @ [LF]) # ?ls))])" using feed_header [OF 2(3) ok(2)] 2(2) by simp
    from feed_body [OF ok(3), of ?d3] obtain d4 where 4: "feed delim_push ?d3 body = (d4, [])" "dbuf d4 = h @ body" by auto
    have "concat (map (\<lambda>(h, body). LF # h @ body) ys) @ [LF] = LF # concat (map (\<lambda>(h, body). h @ body @ [LF]) ys)"
      for ys :: "(bytes \<times> bytes) list" by (induction ys) auto
    then have eq: "l @ msg_stream ms = (((l @ [LF]) @ concat ?ls) @ h) @ body"
      by (simp add: msg_stream_def snoc x)
    have f: "feed delim_push ?d ((((l @ [LF]) @ concat ?ls) @ h) @ body) =
        (d4, map ?t (butlast ((l @ [LF]) # ?ls)) @ [?t (last ((l @ [LF]) # ?ls))])"
      by (simp only: feed_append [of delim_push ?d "((l @ [LF]) @ concat ?ls) @ h"] feed_append [of delim_push ?d "(l @ [LF]) @ concat ?ls"]
          feed_append [of delim_push ?d "l @ [LF]"] 1 2(1) 3 4(1) prod.case append_Nil append_Nil2)
    have "feed delim_push ?d (l @ msg_stream ms) = (d4, map ?t (butlast ((l @ [LF]) # ?ls)) @ [?t (last ((l @ [LF]) # ?ls))])"
      by (rule f [folded eq])
    also have "map ?t (butlast ((l @ [LF]) # ?ls)) @ [?t (last ((l @ [LF]) # ?ls))] = map ?t ((l @ [LF]) # ?ls)"
      by (rule map_butlast_last) simp
    also have "\<dots> = map ?t (butlast (l # map (\<lambda>(h, b). h @ b) ms))"
      by (auto simp: snoc trim_right_snoc butlast_append append_assoc [symmetric] simp del: append_assoc)
    finally show ?thesis using 4(2) by (simp add: snoc x)
  qed
  moreover have "rd ?d = l @ msg_stream ms" by (simp add: NewDelimiter_def)
  ultimately obtain d'' where
    "read_all n ?d = Some (map ?t (butlast (l # map (\<lambda>(h, b). h @ b) ms) @ [last (l # map (\<lambda>(h, b). h @ b) ms)]), d'')"
    using read_all_feed [OF delim_inv_New, of "l @ msg_stream ms" e n] assms(3) by auto
  moreover have "butlast (l # map (\<lambda>(h, b). h @ b) ms) @ [last (l # map (\<lambda>(h, b). h @ b) ms)] = l # map (\<lambda>(h, b). h @ b) ms"
    by (rule append_butlast_last_id) simp
  ultimately show ?thesis by metis
qed

theorem readline_roundtrip_witness:
  "\<exists>d'. read_all 99 (NewDelimiter (''xx'' @ msg_stream [(''<12>1 '', ''sshd is <down>'' @ [CR]), (''<145>1 '', ''sshd is up<33>4''), (''<67>2 '', ''a'' @ LF # ''b'')]) EOF_error) =
    Some ([''xx'', ''<12>1 sshd is <down>'', ''<145>1 sshd is up<33>4'', ''<67>2 a'' @ LF # ''b''], d')"
proof -
  let ?ms = "[(''<12>1 '', ''sshd is <down>'' @ [CR]), (''<145>1 '', ''sshd is up<33>4''), (''<67>2 '', ''a'' @ LF # ''b'')]"
  have h: "is_header ''<12>1 ''" "is_header ''<145>1 ''" "is_header ''<67>2 ''"
    unfolding is_header_def
    by (intro exI [of _ "''12''"] exI [of _ "CHR ''1''"], simp add: is_digit_def)
      (intro exI [of _ "''145''"] exI [of _ "CHR ''1''"], simp add: is_digit_def,
       intro exI [of _ "''67''"] exI [of _ "CHR ''2''"], simp add: is_digit_def)
  have "no_header (''<d'' @ ''own>'' @ [CR, LF])" by (simp, rule no_header.Open) (simp_all add: is_digit_def no_header_plain)
  then have b1: "no_header (''sshd is <down>'' @ [CR] @ [LF])" by (simp add: no_header.Byte)
  have "no_header (CHR ''<'' # ''33'' @ CHR ''>'' # CHR ''4'' # LF # [])"
    by (rule no_header.Space) (simp_all add: is_digit_def no_header.End)
  then have b2: "no_header (''sshd is up<33>4'' @ [LF])" by (simp add: no_header.Byte)
  have b3: "no_header (''a'' @ LF # ''b'' @ [LF])" by (rule no_header_plain) simp
  from b1 b2 b3 h have "\<forall>(h, body)\<in>set ?ms. is_header h \<and> no_header (body @ [LF])" by simp
  from readline_roundtrip [OF _ this, of "''xx''" 99 EOF_error]
  have "\<exists>d'. read_all 99 (NewDelimiter (''xx'' @ msg_stream ?ms) EOF_error) =
      Some (map (trim_right [CR, LF]) (''xx'' # map (\<lambda>(h, b). h @ b) ?ms), d')" by (simp add: msg_stream_def)
  moreover have "map (trim_right [CR, LF]) (''xx'' # map (\<lambda>(h, b). h @ b) ?ms) =
      [''xx'', ''<12>1 sshd is <down>'', ''<145>1 sshd is up<33>4'', ''<67>2 a'' @ LF # ''b'']" by code_simp
  ultimately show ?thesis by metis
qed

text \<open>
  Where \<open>ReadLine\<close> does not split before a header: after a first priority digit, bytes other
  than digits and \<open>>\<close> are skipped instead of resetting the parser, so \<open><1x2>3 \<close> is taken for a header
  although it is none, and the line is cut inside it because the skipped byte is not counted; and a
  genuine header is missed when the byte before it is \<open><\<close>, because the reset consumes that byte.
\<close>

theorem readline_header_flaws:
  "map_option fst (read_all 99 (NewDelimiter (''a'' @ LF # ''<1x2>3 b'') EOF_error)) =
     Some [''a'' @ LF # ''<'', ''1x2>3 b''] \<and>
   map_option fst (read_all 99 (NewDelimiter (''a'' @ LF # ''<<12>1 b'') EOF_error)) =
     Some [''a'' @ LF # ''<<12>1 b'']"
  by code_simp

end
