(* ===== verification/Query_Lexer.thy ===== *)
theory Query_Lexer
  imports Prelude
begin

text \<open>
  \<open>query/token.go\<close> and \<open>query/lexer.go\<close>: tokens, keywords and the lexer of the query language. The
  lexer reads runes (code points, \<^typ>\<open>nat\<close>) from a \<open>bufio.Reader\<close>; the reader is the list of runes
  still to be read and the rune \<open>UnreadRune\<close> would put back. Literals are the runes written to the
  token's buffer. The rune 0 is what \<open>read\<close> returns at the end of the input, so a zero rune inside
  the input is taken for the end as well, but is consumed.
\<close>

section \<open>Tokens (token.go)\<close>

type_synonym rune = nat

abbreviation rn :: "char \<Rightarrow> rune" where "rn c \<equiv> of_char c"

definition runes :: "string \<Rightarrow> rune list" where
  "runes s = map of_char s"

datatype Token = ILLEGAL | EOF | WS | COLON | STRING | keywordBeg | AND | OR | NOT | keywordEnd
  | LPAREN | RPAREN

fun tokens :: "Token \<Rightarrow> string" where
  "tokens ILLEGAL = ''ILLEGAL''"
| "tokens EOF = ''EOF''"
| "tokens WS = ''WS''"
| "tokens COLON = '':''"
| "tokens AND = ''AND''"
| "tokens OR = ''OR''"
| "tokens NOT = ''NOT''"
| "tokens LPAREN = ''(''"
| "tokens RPAREN = '')''"
| "tokens _ = []"

definition lower_runes :: "rune list \<Rightarrow> rune list" where
  "lower_runes s = map lower_code s"

text \<open>The map built by \<open>init\<close>: the tokens strictly between \<open>keywordBeg\<close> and \<open>keywordEnd\<close>.\<close>

definition keyword_map :: "(rune list \<times> Token) list" where
  "keyword_map = map (\<lambda>t. (lower_runes (runes (tokens t)), t)) [AND, OR, NOT]"

definition isOperator :: "Token \<Rightarrow> bool" where
  "isOperator t \<longleftrightarrow> t = AND \<or> t = OR \<or> t = NOT"

definition Token_String :: "Token \<Rightarrow> string" where
  "Token_String t = tokens t"

fun Precedence :: "Token \<Rightarrow> nat" where
  "Precedence OR = 1"
| "Precedence AND = 2"
| "Precedence NOT = 3"
| "Precedence _ = 0"

definition Lookup :: "rune list \<Rightarrow> Token \<times> bool" where
  "Lookup ident =
     (case map_of keyword_map (lower_runes ident) of
        Some tok \<Rightarrow> (tok, True)
      | None \<Rightarrow> (ILLEGAL, False))"

definition tokstr :: "Token \<Rightarrow> rune list \<Rightarrow> rune list" where
  "tokstr t l = (if l \<noteq> [] then l else runes (Token_String t))"

section \<open>Lexer (lexer.go)\<close>

abbreviation eof :: rune where "eof \<equiv> 0"

record Lexer =
  rest :: "rune list"
  lastRune :: "rune option"

definition NewLexer :: "rune list \<Rightarrow> Lexer" where
  "NewLexer s = \<lparr>rest = s, lastRune = None\<rparr>"

definition read :: "Lexer \<Rightarrow> rune \<times> Lexer" where
  "read s =
     (case rest s of
        [] \<Rightarrow> (eof, s\<lparr>lastRune := None\<rparr>)
      | c # cs \<Rightarrow> (c, \<lparr>rest = cs, lastRune = Some c\<rparr>))"

definition unread :: "Lexer \<Rightarrow> Lexer" where
  "unread s =
     (case lastRune s of
        None \<Rightarrow> s
      | Some c \<Rightarrow> \<lparr>rest = c # rest s, lastRune = None\<rparr>)"

definition isWhitespace :: "rune \<Rightarrow> bool" where
  "isWhitespace ch \<longleftrightarrow> ch = rn (CHR '' '') \<or> ch = 9 \<or> ch = 10 \<or> ch = 13"

definition isLetter :: "rune \<Rightarrow> bool" where
  "isLetter ch \<longleftrightarrow> rn (CHR ''a'') \<le> ch \<and> ch \<le> rn (CHR ''z'') \<or> rn (CHR ''A'') \<le> ch \<and> ch \<le> rn (CHR ''Z'')"

definition isParen :: "rune \<Rightarrow> bool" where
  "isParen ch \<longleftrightarrow> ch = rn (CHR ''('') \<or> ch = rn (CHR '')'')"

lemma read_shrinks: "rest s \<noteq> [] \<Longrightarrow> read s = (ch, s') \<Longrightarrow> length (rest s') < length (rest s)"
  by (auto simp: read_def split: list.splits)

text \<open>The loops of \<open>lexWhitespace\<close> and \<open>lexString\<close>. At the end of the input \<open>read\<close> returns \<open>eof\<close>.\<close>

function ws_loop :: "Lexer \<Rightarrow> rune list \<Rightarrow> rune list \<times> Lexer" where
  "ws_loop s buf =
     (case read s of
        (ch, s') \<Rightarrow>
          if ch = eof then (buf, s')
          else if \<not> isWhitespace ch then (buf, unread s')
          else ws_loop s' (buf @ [ch]))"
  by pat_completeness auto
termination
  by (relation "measure (\<lambda>(s, buf). length (rest s))") (auto simp: read_def split: list.splits)

function string_loop :: "Lexer \<Rightarrow> rune list \<Rightarrow> rune list \<times> Lexer" where
  "string_loop s buf =
     (case read s of
        (ch, s') \<Rightarrow>
          if ch = eof then (buf, s')
          else if ch = rn (CHR '':'') \<or> isWhitespace ch \<or> isParen ch then (buf, unread s')
          else string_loop s' (buf @ [ch]))"
  by pat_completeness auto
termination
  by (relation "measure (\<lambda>(s, buf). length (rest s))") (auto simp: read_def split: list.splits)

declare ws_loop.simps [simp del] string_loop.simps [simp del]

definition lexWhitespace :: "Lexer \<Rightarrow> Token \<times> rune list \<times> Lexer" where
  "lexWhitespace s =
     (case read s of (ch, s1) \<Rightarrow> (case ws_loop s1 [ch] of (buf, s2) \<Rightarrow> (WS, buf, s2)))"

definition lexString :: "Lexer \<Rightarrow> Token \<times> rune list \<times> Lexer" where
  "lexString s =
     (case read s of (ch, s1) \<Rightarrow> (case string_loop s1 [ch] of (buf, s2) \<Rightarrow> (STRING, buf, s2)))"

definition Lex :: "Lexer \<Rightarrow> Token \<times> rune list \<times> Lexer" where
  "Lex s =
     (case read s of
        (ch, s1) \<Rightarrow>
          if isWhitespace ch then lexWhitespace (unread s1)
          else if ch = eof then (EOF, [], s1)
          else if ch = rn (CHR ''('') then (LPAREN, runes ''('', s1)
          else if ch = rn (CHR '')'') then (RPAREN, runes '')'', s1)
          else if ch = rn (CHR '':'') then (COLON, runes '':'', s1)
          else
            (case lexString (unread s1) of
               (tok, l, s2) \<Rightarrow>
                 (case Lookup l of (kw, ok) \<Rightarrow> if ok then (kw, l, s2) else (tok, l, s2))))"

section \<open>The lexer consumes its input\<close>

lemma ws_loop_le: "length (rest (snd (ws_loop s buf))) \<le> length (rest s)"
proof (induction s buf rule: ws_loop.induct)
  case (1 s buf)
  then show ?case
    by (subst ws_loop.simps) (auto simp: read_def unread_def split: list.splits)
qed

lemma string_loop_le: "length (rest (snd (string_loop s buf))) \<le> length (rest s)"
proof (induction s buf rule: string_loop.induct)
  case (1 s buf)
  then show ?case
    by (subst string_loop.simps) (auto simp: read_def unread_def split: list.splits)
qed

lemma Lex_consumes:
  assumes "Lex s = (tok, l, s')"
  shows "length (rest s') \<le> length (rest s)" and "tok \<noteq> EOF \<Longrightarrow> length (rest s') < length (rest s)"
proof -
  have ws: "length (rest s2) < length (rest t)" if "lexWhitespace t = (tk, l2, s2)" "rest t \<noteq> []" for t tk l2 s2
    using that ws_loop_le [of "snd (read t)" "[fst (read t)]"]
    by (auto simp: lexWhitespace_def read_def split: prod.splits list.splits)
  have str: "length (rest s2) < length (rest t)" if "lexString t = (tk, l2, s2)" "rest t \<noteq> []" for t tk l2 s2
    using that string_loop_le [of "snd (read t)" "[fst (read t)]"]
    by (auto simp: lexString_def read_def split: prod.splits list.splits)
  have "if rest s = [] then tok = EOF \<and> rest s' = [] else length (rest s') < length (rest s)"
  proof (cases "rest s")
    case Nil
    with assms show ?thesis by (auto simp: Lex_def read_def isWhitespace_def)
  next
    case (Cons c cs)
    then have r: "read s = (c, \<lparr>rest = cs, lastRune = Some c\<rparr>)"
      "unread \<lparr>rest = cs, lastRune = Some c\<rparr> = \<lparr>rest = c # cs, lastRune = None\<rparr>"
      by (simp_all add: read_def unread_def)
    from assms Cons show ?thesis
      using ws [of "\<lparr>rest = c # cs, lastRune = None\<rparr>"] str [of "\<lparr>rest = c # cs, lastRune = None\<rparr>"]
      by (auto simp: Lex_def r split: if_splits prod.splits)
  qed
  then show "length (rest s') \<le> length (rest s)" and "tok \<noteq> EOF \<Longrightarrow> length (rest s') < length (rest s)"
    by (auto split: if_splits)
qed

section \<open>The token sequence of a text\<close>

definition isWordRune :: "rune \<Rightarrow> bool" where
  "isWordRune ch \<longleftrightarrow> \<not> (ch = rn (CHR '':'') \<or> isWhitespace ch \<or> isParen ch)"

definition word_token :: "rune list \<Rightarrow> Token" where
  "word_token w = (case Lookup w of (kw, ok) \<Rightarrow> if ok then kw else STRING)"

function tokenise :: "rune list \<Rightarrow> (Token \<times> rune list) list" where
  "tokenise [] = []"
| "tokenise (c # cs) =
     (if isWhitespace c then (WS, c # takeWhile isWhitespace cs) # tokenise (dropWhile isWhitespace cs)
      else if c = rn (CHR ''('') then (LPAREN, [c]) # tokenise cs
      else if c = rn (CHR '')'') then (RPAREN, [c]) # tokenise cs
      else if c = rn (CHR '':'') then (COLON, [c]) # tokenise cs
      else (word_token (c # takeWhile isWordRune cs), c # takeWhile isWordRune cs)
             # tokenise (dropWhile isWordRune cs))"
  by pat_completeness auto
termination
  by (relation "measure length") (auto simp: length_dropWhile_le le_imp_less_Suc)

lemma ws_loop_span:
  "eof \<notin> set cs \<Longrightarrow> \<exists>lr. ws_loop \<lparr>rest = cs, lastRune = r\<rparr> buf =
     (buf @ takeWhile isWhitespace cs, \<lparr>rest = dropWhile isWhitespace cs, lastRune = lr\<rparr>)"
proof (induction cs arbitrary: r buf)
  case Nil
  then show ?case by (subst ws_loop.simps) (simp add: read_def)
next
  case (Cons c cs)
  from Cons.IH [of "Some c" "buf @ [c]"] Cons.prems show ?case
    by (subst ws_loop.simps) (auto simp: read_def unread_def)
qed

lemma string_loop_span:
  "eof \<notin> set cs \<Longrightarrow> \<exists>lr. string_loop \<lparr>rest = cs, lastRune = r\<rparr> buf =
     (buf @ takeWhile isWordRune cs, \<lparr>rest = dropWhile isWordRune cs, lastRune = lr\<rparr>)"
proof (induction cs arbitrary: r buf)
  case Nil
  then show ?case by (subst string_loop.simps) (simp add: read_def)
next
  case (Cons c cs)
  from Cons.IH [of "Some c" "buf @ [c]"] Cons.prems show ?case
    by (subst string_loop.simps) (auto simp: read_def unread_def isWordRune_def [of c])
qed

lemma Lex_tokenise:
  assumes "eof \<notin> set (rest s)"
  shows "\<exists>s'. Lex s =
      (case tokenise (rest s) of [] \<Rightarrow> (EOF, [], s') | (t, l) # ts \<Rightarrow> (t, l, s')) \<and>
    tokenise (rest s') = tl (tokenise (rest s)) \<and> eof \<notin> set (rest s')"
proof (cases "rest s")
  case Nil
  then show ?thesis by (simp add: Lex_def read_def isWhitespace_def)
next
  case (Cons c cs)
  with assms have c: "c \<noteq> eof" "eof \<notin> set cs" by auto
  have r: "read s = (c, \<lparr>rest = cs, lastRune = Some c\<rparr>)"
    "unread \<lparr>rest = cs, lastRune = Some c\<rparr> = \<lparr>rest = c # cs, lastRune = None\<rparr>"
    "read \<lparr>rest = c # cs, lastRune = None\<rparr> = (c, \<lparr>rest = cs, lastRune = Some c\<rparr>)"
    using Cons by (simp_all add: read_def unread_def)
  obtain lw where w: "ws_loop \<lparr>rest = cs, lastRune = Some c\<rparr> [c] =
      (c # takeWhile isWhitespace cs, \<lparr>rest = dropWhile isWhitespace cs, lastRune = lw\<rparr>)"
    using ws_loop_span [OF c(2), of "Some c" "[c]"] by auto
  obtain ls where l: "string_loop \<lparr>rest = cs, lastRune = Some c\<rparr> [c] =
      (c # takeWhile isWordRune cs, \<lparr>rest = dropWhile isWordRune cs, lastRune = ls\<rparr>)"
    using string_loop_span [OF c(2), of "Some c" "[c]"] by auto
  have sub: "eof \<notin> set (dropWhile p cs)" for p using c(2) by (meson set_dropWhileD)
  show ?thesis
    using Cons c sub
    by (auto simp: Lex_def lexWhitespace_def lexString_def r w l word_token_def runes_def split: prod.splits)
qed

section \<open>Properties\<close>

fun lex_n :: "nat \<Rightarrow> Lexer \<Rightarrow> (Token \<times> rune list) list" where
  "lex_n 0 s = []"
| "lex_n (Suc n) s = (case Lex s of (t, l, s') \<Rightarrow> (t, l) # lex_n n s')"

lemma lex_n_tokenise:
  "eof \<notin> set (rest s) \<Longrightarrow>
    lex_n (Suc (length (tokenise (rest s)))) s = tokenise (rest s) @ [(EOF, [])]"
proof (induction "tokenise (rest s)" arbitrary: s)
  case Nil
  from Lex_tokenise [OF Nil.prems] Nil.hyps [symmetric] show ?case by auto
next
  case (Cons x ts)
  obtain t l where x: "x = (t, l)" by (cases x)
  from Lex_tokenise [OF Cons.prems] Cons.hyps(2) [symmetric] x obtain s' where
    "Lex s = (t, l, s')" "tokenise (rest s') = ts" "eof \<notin> set (rest s')" by auto
  with Cons.hyps(1) [of s'] Cons.hyps(2) [symmetric] x show ?case by simp
qed

lemma concat_tokenise: "concat (map snd (tokenise s)) = s"
  by (induction s rule: tokenise.induct) simp_all

text \<open>
  C28. The lexer against its specification. On input without a zero rune, calling \<open>Lex\<close> yields the
  tokens of \<open>tokenise\<close> one after the other and then \<open>EOF\<close>; and the literals of these tokens, in
  order, are exactly the input: nothing is skipped, altered or read twice.
\<close>

theorem lexer_correct:
  assumes "eof \<notin> set s"
  shows "lex_n (Suc (length (tokenise s))) (NewLexer s) = tokenise s @ [(EOF, [])] \<and>
    concat (map snd (tokenise s)) = s"
  using lex_n_tokenise [of "NewLexer s"] assms concat_tokenise by (simp add: NewLexer_def)

theorem lexer_correct_witness:
  "lex_n (Suc (length (tokenise (runes ''(GET oR x:1)'')))) (NewLexer (runes ''(GET oR x:1)'')) =
     tokenise (runes ''(GET oR x:1)'') @ [(EOF, [])] \<and>
   concat (map snd (tokenise (runes ''(GET oR x:1)''))) = runes ''(GET oR x:1)''"
  by (rule lexer_correct) (simp add: runes_def)

end
