(* ===== verification/Query_Parser.thy ===== *)
theory Query_Parser
  imports Query_Lexer
begin

text \<open>
  \<open>query/parser.go\<close>: the recursive-descent parser of the query language, with its one-token buffer.
  \<open>Parse\<close>, its loop and \<open>parseFieldExpr\<close> call each other; the model gives them a fuel argument
  (\<^const>\<open>None\<close>: out of fuel) and proves that three times the number of runes plus three is always
  enough, so the parser terminates on every input. A parser over token lists is the specification the
  parser is shown to refine; on it the grammar and the precedence of the operators are proved.
\<close>

section \<open>Model\<close>

text \<open>A nil expression inside parentheses is \<^const>\<open>None\<close>.\<close>

datatype Expr = FieldExpr "rune list" "rune list" | BinaryExpr Token Expr Expr | ParenExpr "Expr option"

datatype parse_error = ExpectedRParen "rune list" | ExpectedField "rune list" | ExpectedTerm "rune list"

fun error_text :: "parse_error \<Rightarrow> rune list" where
  "error_text (ExpectedRParen t) = runes ''found '' @ [39] @ t @ [39] @ runes '', expected )''"
| "error_text (ExpectedField t) =
     runes ''found '' @ [39] @ t @ [39] @ runes '', expected FIELD or SEARCH TERM''"
| "error_text (ExpectedTerm t) = runes ''found '' @ [39] @ t @ [39] @ runes '', expected SEARCH TERM''"

record QParser =
  lexer :: Lexer
  buf_tok :: Token
  buf_lit :: "rune list"
  buf_n :: nat
  defaultField :: "rune list"

definition NewQParser :: "rune list \<Rightarrow> rune list \<Rightarrow> QParser" where
  "NewQParser input df =
     \<lparr>lexer = NewLexer input, buf_tok = ILLEGAL, buf_lit = [], buf_n = 0, defaultField = df\<rparr>"

definition lex :: "QParser \<Rightarrow> Token \<times> rune list \<times> QParser" where
  "lex p =
     (if buf_n p \<noteq> 0 then (buf_tok p, buf_lit p, p\<lparr>buf_n := 0\<rparr>)
      else (case Lex (lexer p) of
              (tok, l, s) \<Rightarrow> (tok, l, p\<lparr>lexer := s, buf_tok := tok, buf_lit := l\<rparr>)))"

definition unlex :: "QParser \<Rightarrow> QParser" where
  "unlex p = p\<lparr>buf_n := 1\<rparr>"

definition lexIgnoreWhitespace :: "QParser \<Rightarrow> Token \<times> rune list \<times> QParser" where
  "lexIgnoreWhitespace p =
     (case lex p of (tok, l, p1) \<Rightarrow> if tok = WS then lex p1 else (tok, l, p1))"

text \<open>The new root of the expression, by the precedence of the operators.\<close>

fun combine :: "Expr \<Rightarrow> Token \<Rightarrow> Expr \<Rightarrow> Expr" where
  "combine (BinaryExpr lop l r) op rhs =
     (if Precedence lop < Precedence op then BinaryExpr lop l (BinaryExpr op r rhs)
      else BinaryExpr op (BinaryExpr lop l r) rhs)"
| "combine e op rhs = BinaryExpr op e rhs"

type_synonym 'a presult = "((parse_error + 'a) \<times> QParser) option"

fun Parse :: "nat \<Rightarrow> QParser \<Rightarrow> Expr option presult"
  and parse_loop :: "nat \<Rightarrow> Expr \<Rightarrow> QParser \<Rightarrow> Expr option presult"
  and parseFieldExpr :: "nat \<Rightarrow> QParser \<Rightarrow> Expr presult" where
  "Parse 0 p = None"
| "Parse (Suc n) p =
     (case lexIgnoreWhitespace p of
        (tok, _, p1) \<Rightarrow>
          if tok = EOF then Some (Inr None, p1)
          else (case parseFieldExpr n (unlex p1) of
                  None \<Rightarrow> None
                | Some (Inl e, p2) \<Rightarrow> Some (Inl e, p2)
                | Some (Inr ex, p2) \<Rightarrow> parse_loop n ex p2))"
| "parse_loop 0 ex p = None"
| "parse_loop (Suc n) ex p =
     (case lexIgnoreWhitespace p of
        (op, _, p1) \<Rightarrow>
          if op = EOF then Some (Inr (Some ex), p1)
          else if op = RPAREN then Some (Inr (Some ex), unlex p1)
          else
            (case parseFieldExpr n (if isOperator op then p1 else unlex p1) of
               None \<Rightarrow> None
             | Some (Inl e, p2) \<Rightarrow> Some (Inl e, p2)
             | Some (Inr rhs, p2) \<Rightarrow>
                 parse_loop n (combine ex (if isOperator op then op else AND) rhs) p2))"
| "parseFieldExpr 0 p = None"
| "parseFieldExpr (Suc n) p =
     (case lexIgnoreWhitespace p of
        (tok, _, p1) \<Rightarrow>
          if tok = LPAREN then
            (case Parse n p1 of
               None \<Rightarrow> None
             | Some (Inl e, p2) \<Rightarrow> Some (Inl e, p2)
             | Some (Inr ex, p2) \<Rightarrow>
                 (case lexIgnoreWhitespace p2 of
                    (tok2, l2, p3) \<Rightarrow>
                      if tok2 \<noteq> RPAREN then Some (Inl (ExpectedRParen (tokstr tok2 l2)), p3)
                      else Some (Inr (ParenExpr ex), p3)))
          else
            (case lexIgnoreWhitespace (unlex p1) of
               (tok1, f1, p2) \<Rightarrow>
                 if tok1 \<noteq> STRING then Some (Inl (ExpectedField (tokstr tok1 f1)), p2)
                 else
                   (case lexIgnoreWhitespace p2 of
                      (tok2, _, p3) \<Rightarrow>
                        if tok2 = COLON then
                          (case lexIgnoreWhitespace p3 of
                             (tok3, f2, p4) \<Rightarrow>
                               if tok3 \<noteq> STRING then Some (Inl (ExpectedTerm (tokstr tok3 f2)), p4)
                               else Some (Inr (FieldExpr f1 f2), p4))
                        else Some (Inr (FieldExpr (defaultField p3) f1), unlex p3))))"

text \<open>A query as the program parses it: a new parser, then \<open>Parse\<close>.\<close>

definition parse_query :: "rune list \<Rightarrow> rune list \<Rightarrow> (parse_error + Expr option) option" where
  "parse_query df s = map_option fst (Parse (3 * length s + 3) (NewQParser s df))"

subsection \<open>Printing\<close>

text \<open>\<open>String\<close> of field and binary expressions; \<open>ParenExpr\<close> has no such method.\<close>

fun Expr_String :: "Expr \<Rightarrow> rune list option" where
  "Expr_String (FieldExpr f t) = Some (f @ runes '':'' @ t)"
| "Expr_String (BinaryExpr op l r) =
     (case (Expr_String l, Expr_String r) of
        (Some a, Some b) \<Rightarrow> Some (a @ runes '' '' @ runes (tokens op) @ runes '' '' @ b)
      | _ \<Rightarrow> None)"
| "Expr_String (ParenExpr e) = None"

definition Statement_String :: "(rune list \<times> rune list) list \<Rightarrow> rune list" where
  "Statement_String es = foldl (\<lambda>b (f, t). b @ f @ runes '':'' @ t) [] es"

section \<open>Termination\<close>

text \<open>
  What is left to read: the runes of the lexer, and one more for a buffered token other than
  \<open>EOF\<close>.
\<close>

definition todo :: "QParser \<Rightarrow> nat" where
  "todo p = length (rest (lexer p)) + (if buf_n p \<noteq> 0 \<and> buf_tok p \<noteq> EOF then 1 else 0)"

lemma lex_todo:
  assumes "lex p = (tok, l, p')"
  shows "todo p' \<le> todo p" and "tok \<noteq> EOF \<Longrightarrow> todo p' < todo p"
    and "buf_tok p' = tok" and "buf_lit p' = l" and "buf_n p' = 0" and "defaultField p' = defaultField p"
proof -
  obtain t l2 s where L: "Lex (lexer p) = (t, l2, s)" by (metis surj_pair)
  note c = Lex_consumes [OF L]
  show "todo p' \<le> todo p" and "tok \<noteq> EOF \<Longrightarrow> todo p' < todo p" and "buf_tok p' = tok"
    and "buf_lit p' = l" and "buf_n p' = 0" and "defaultField p' = defaultField p"
    using assms c by (auto simp: lex_def L todo_def split: if_splits)
qed

lemma lexI_todo:
  assumes "lexIgnoreWhitespace p = (tok, l, p')"
  shows "todo p' \<le> todo p" and "tok \<noteq> EOF \<Longrightarrow> todo p' < todo p" and "todo (unlex p') \<le> todo p"
    and "buf_tok p' = tok" and "buf_lit p' = l" and "buf_n p' = 0" and "defaultField p' = defaultField p"
proof -
  obtain t1 l1 p1 where 1: "lex p = (t1, l1, p1)" by (metis surj_pair)
  obtain t2 l2 p2 where 2: "lex p1 = (t2, l2, p2)" by (metis surj_pair)
  note c = lex_todo [OF 1] lex_todo [OF 2]
  have *: "todo p' \<le> todo p \<and> (tok \<noteq> EOF \<longrightarrow> todo p' < todo p) \<and> buf_tok p' = tok \<and> buf_lit p' = l \<and>
    buf_n p' = 0 \<and> defaultField p' = defaultField p"
    using assms c by (auto simp: lexIgnoreWhitespace_def 1 2 split: if_splits)
  then show "todo p' \<le> todo p" "tok \<noteq> EOF \<Longrightarrow> todo p' < todo p" "buf_tok p' = tok" "buf_lit p' = l"
    "buf_n p' = 0" "defaultField p' = defaultField p" by simp_all
  from * show "todo (unlex p') \<le> todo p" by (auto simp: unlex_def todo_def split: if_splits)
qed

text \<open>Enough fuel for each of the three functions, and what they leave to read.\<close>

definition fuel_parse :: "nat \<Rightarrow> bool" where
  "fuel_parse n \<longleftrightarrow> (\<forall>p. 3 * todo p + 3 \<le> n \<longrightarrow> (\<exists>r p'. Parse n p = Some (r, p') \<and> todo p' \<le> todo p))"

definition fuel_loop :: "nat \<Rightarrow> bool" where
  "fuel_loop n \<longleftrightarrow>
     (\<forall>ex p. 3 * todo p + 2 \<le> n \<longrightarrow> (\<exists>r p'. parse_loop n ex p = Some (r, p') \<and> todo p' \<le> todo p))"

definition fuel_field :: "nat \<Rightarrow> bool" where
  "fuel_field n \<longleftrightarrow>
     (\<forall>p. 3 * todo p + 1 \<le> n \<longrightarrow>
        (\<exists>r p'. parseFieldExpr n p = Some (r, p') \<and> todo p' \<le> todo p \<and> (isl r \<or> todo p' < todo p)))"

lemma fuel_parseD:
  "fuel_parse n \<Longrightarrow> 3 * todo p + 3 \<le> n \<Longrightarrow> \<exists>r p'. Parse n p = Some (r, p') \<and> todo p' \<le> todo p"
  by (simp add: fuel_parse_def)

lemma fuel_loopD:
  "fuel_loop n \<Longrightarrow> 3 * todo p + 2 \<le> n \<Longrightarrow> \<exists>r p'. parse_loop n ex p = Some (r, p') \<and> todo p' \<le> todo p"
  by (simp add: fuel_loop_def)

lemma fuel_fieldD:
  "fuel_field n \<Longrightarrow> 3 * todo p + 1 \<le> n \<Longrightarrow>
    \<exists>r p'. parseFieldExpr n p = Some (r, p') \<and> todo p' \<le> todo p \<and> (isl r \<or> todo p' < todo p)"
  by (simp add: fuel_field_def)

lemma fuel_parse_Suc:
  assumes "fuel_field n" and "fuel_loop n"
  shows "fuel_parse (Suc n)"
  unfolding fuel_parse_def
proof (intro allI impI)
  fix p assume n: "3 * todo p + 3 \<le> Suc n"
  obtain tok l p1 where 1: "lexIgnoreWhitespace p = (tok, l, p1)" by (metis surj_pair)
  note c = lexI_todo [OF 1]
  have "3 * todo (unlex p1) + 1 \<le> n" using c(3) n by simp
  from fuel_fieldD [OF assms(1) this] obtain r p2 where
    f: "parseFieldExpr n (unlex p1) = Some (r, p2)" "todo p2 \<le> todo (unlex p1)"
      "isl r \<or> todo p2 < todo (unlex p1)" by blast
  show "\<exists>r p'. Parse (Suc n) p = Some (r, p') \<and> todo p' \<le> todo p"
  proof (cases r)
    case (Inl e)
    with 1 f c show ?thesis by auto
  next
    case (Inr ex)
    with f(3) c(3) n have "3 * todo p2 + 2 \<le> n" by simp
    from fuel_loopD [OF assms(2) this, of ex] obtain r' p' where
      "parse_loop n ex p2 = Some (r', p')" "todo p' \<le> todo p2" by blast
    with 1 f c Inr show ?thesis by auto
  qed
qed

lemma fuel_loop_Suc:
  assumes "fuel_field n" and "fuel_loop n"
  shows "fuel_loop (Suc n)"
  unfolding fuel_loop_def
proof (intro allI impI)
  fix ex p assume n: "3 * todo p + 2 \<le> Suc n"
  obtain op l p1 where 1: "lexIgnoreWhitespace p = (op, l, p1)" by (metis surj_pair)
  note c = lexI_todo [OF 1]
  let ?q = "if isOperator op then p1 else unlex p1"
  have q: "todo ?q \<le> todo p" using c by simp
  then have "3 * todo ?q + 1 \<le> n" using n by linarith
  from fuel_fieldD [OF assms(1) this] obtain r p2 where
    f: "parseFieldExpr n ?q = Some (r, p2)" "todo p2 \<le> todo ?q" "isl r \<or> todo p2 < todo ?q" by blast
  show "\<exists>r p'. parse_loop (Suc n) ex p = Some (r, p') \<and> todo p' \<le> todo p"
  proof (cases r)
    case (Inl e)
    with 1 f q c show ?thesis by auto
  next
    case (Inr rhs)
    with f(3) q n have "3 * todo p2 + 2 \<le> n" by simp
    from fuel_loopD [OF assms(2) this, of "combine ex (if isOperator op then op else AND) rhs"]
    obtain r' p' where "parse_loop n (combine ex (if isOperator op then op else AND) rhs) p2 = Some (r', p')"
      "todo p' \<le> todo p2" by blast
    with 1 f q c Inr show ?thesis by auto
  qed
qed

lemma fuel_field_Suc:
  assumes "fuel_parse n"
  shows "fuel_field (Suc n)"
  unfolding fuel_field_def
proof (intro allI impI)
  fix p assume n: "3 * todo p + 1 \<le> Suc n"
  obtain tok l p1 where 1: "lexIgnoreWhitespace p = (tok, l, p1)" by (metis surj_pair)
  note c = lexI_todo [OF 1]
  let ?P = "\<lambda>p. \<exists>r p'. parseFieldExpr (Suc n) p = Some (r, p') \<and> todo p' \<le> todo p \<and> (isl r \<or> todo p' < todo p)"
  show "?P p"
  proof (cases "tok = LPAREN")
    case True
    with c(2) have lt: "todo p1 < todo p" by simp
    with n have "3 * todo p1 + 3 \<le> n" by simp
    from fuel_parseD [OF assms this] obtain r p2 where
      f: "Parse n p1 = Some (r, p2)" "todo p2 \<le> todo p1" by blast
    obtain tok2 l2 p3 where 2: "lexIgnoreWhitespace p2 = (tok2, l2, p3)" by (metis surj_pair)
    from lexI_todo(1) [OF 2] 1 2 f lt True show ?thesis by (cases r) auto
  next
    case False
    obtain tok1 f1 p2 where 2: "lexIgnoreWhitespace (unlex p1) = (tok1, f1, p2)" by (metis surj_pair)
    obtain tok2 l2 p3 where 3: "lexIgnoreWhitespace p2 = (tok2, l2, p3)" by (metis surj_pair)
    obtain tok3 f2 p4 where 4: "lexIgnoreWhitespace p3 = (tok3, f2, p4)" by (metis surj_pair)
    note d = c(3) lexI_todo(1-3) [OF 2] lexI_todo(1-3) [OF 3] lexI_todo(1-3) [OF 4]
    have "todo p2 \<le> todo p" "todo p3 \<le> todo p" "todo p4 \<le> todo p" "todo (unlex p3) \<le> todo p2"
      using d by simp_all
    moreover have "tok1 = STRING \<Longrightarrow> todo p2 < todo p" using d by simp
    moreover have "todo p4 \<le> todo p2" using d by simp
    ultimately show ?thesis
      using 1 2 3 4 False by (auto intro: le_less_trans)
  qed
qed

lemma fuel_enough: "fuel_parse n \<and> fuel_loop n \<and> fuel_field n"
proof (induction n)
  case 0
  then show ?case by (simp add: fuel_parse_def fuel_loop_def fuel_field_def)
next
  case (Suc n)
  then show ?case by (simp add: fuel_parse_Suc fuel_loop_Suc fuel_field_Suc)
qed

section \<open>The parser over token lists\<close>

type_synonym toks = "(Token \<times> rune list) list"

fun pop :: "toks \<Rightarrow> Token \<times> rune list \<times> toks" where
  "pop [] = (EOF, [], [])"
| "pop ((t, l) # ts) = (t, l, ts)"

type_synonym 'a tresult = "((parse_error + 'a) \<times> toks) option"

fun aParse :: "nat \<Rightarrow> rune list \<Rightarrow> toks \<Rightarrow> Expr option tresult"
  and aloop :: "nat \<Rightarrow> rune list \<Rightarrow> Expr \<Rightarrow> toks \<Rightarrow> Expr option tresult"
  and afield :: "nat \<Rightarrow> rune list \<Rightarrow> toks \<Rightarrow> Expr tresult" where
  "aParse 0 df ts = None"
| "aParse (Suc n) df ts =
     (case pop ts of
        (tok, _, ts1) \<Rightarrow>
          if tok = EOF then Some (Inr None, ts1)
          else (case afield n df ts of
                  None \<Rightarrow> None
                | Some (Inl e, ts2) \<Rightarrow> Some (Inl e, ts2)
                | Some (Inr ex, ts2) \<Rightarrow> aloop n df ex ts2))"
| "aloop 0 df ex ts = None"
| "aloop (Suc n) df ex ts =
     (case pop ts of
        (op, _, ts1) \<Rightarrow>
          if op = EOF then Some (Inr (Some ex), ts1)
          else if op = RPAREN then Some (Inr (Some ex), ts)
          else
            (case afield n df (if isOperator op then ts1 else ts) of
               None \<Rightarrow> None
             | Some (Inl e, ts2) \<Rightarrow> Some (Inl e, ts2)
             | Some (Inr rhs, ts2) \<Rightarrow>
                 aloop n df (combine ex (if isOperator op then op else AND) rhs) ts2))"
| "afield 0 df ts = None"
| "afield (Suc n) df ts =
     (case pop ts of
        (tok, f1, ts1) \<Rightarrow>
          if tok = LPAREN then
            (case aParse n df ts1 of
               None \<Rightarrow> None
             | Some (Inl e, ts2) \<Rightarrow> Some (Inl e, ts2)
             | Some (Inr ex, ts2) \<Rightarrow>
                 (case pop ts2 of
                    (tok2, l2, ts3) \<Rightarrow>
                      if tok2 \<noteq> RPAREN then Some (Inl (ExpectedRParen (tokstr tok2 l2)), ts3)
                      else Some (Inr (ParenExpr ex), ts3)))
          else if tok \<noteq> STRING then Some (Inl (ExpectedField (tokstr tok f1)), ts1)
          else
            (case pop ts1 of
               (tok2, _, ts2) \<Rightarrow>
                 if tok2 = COLON then
                   (case pop ts2 of
                      (tok3, f2, ts3) \<Rightarrow>
                        if tok3 \<noteq> STRING then Some (Inl (ExpectedTerm (tokstr tok3 f2)), ts3)
                        else Some (Inr (FieldExpr f1 f2), ts3))
                 else Some (Inr (FieldExpr df f1), ts1)))"

section \<open>Refinement\<close>

definition nows :: "toks \<Rightarrow> toks" where
  "nows ts = filter (\<lambda>(t, _). t \<noteq> WS) ts"

text \<open>The tokens a parser state will deliver, white space left out.\<close>

definition psim :: "QParser \<Rightarrow> toks \<Rightarrow> bool" where
  "psim p ts \<longleftrightarrow> eof \<notin> set (rest (lexer p)) \<and>
     (if buf_n p = 0 then ts = nows (tokenise (rest (lexer p)))
      else if buf_tok p = EOF then buf_lit p = [] \<and> ts = [] \<and> tokenise (rest (lexer p)) = []
      else buf_tok p \<noteq> WS \<and> ts = (buf_tok p, buf_lit p) # nows (tokenise (rest (lexer p))))"

lemma word_token_cases: "word_token w \<in> {STRING, AND, OR, NOT}"
  by (auto simp: word_token_def Lookup_def keyword_map_def split: option.splits if_splits)

lemma word_token_neq [simp]: "word_token w \<noteq> EOF" "word_token w \<noteq> WS" "word_token w \<noteq> COLON"
  using word_token_cases [of w] by auto

lemma tokenise_no_EOF: "(t, l) \<in> set (tokenise s) \<Longrightarrow> t \<noteq> EOF"
proof -
  have "list_all (\<lambda>(t, _). t \<noteq> EOF) (tokenise s)"
    by (induction s rule: tokenise.induct) simp_all
  then show "(t, l) \<in> set (tokenise s) \<Longrightarrow> t \<noteq> EOF" by (auto simp: list_all_iff)
qed

lemma tokenise_WS: "tokenise s = (WS, l) # ts \<Longrightarrow> ts = [] \<or> fst (hd ts) \<noteq> WS"
proof (cases s)
  case (Cons c cs)
  assume t: "tokenise s = (WS, l) # ts"
  have "isWhitespace c"
    using t Cons by (auto split: if_splits)
  with t Cons have ts: "ts = tokenise (dropWhile isWhitespace cs)" by simp
  show ?thesis
  proof (cases "dropWhile isWhitespace cs")
    case Nil
    with ts show ?thesis by simp
  next
    case (Cons d ds)
    then have "\<not> isWhitespace d" by (metis hd_dropWhile list.discI list.sel(1))
    with ts Cons show ?thesis by simp
  qed
qed simp

lemma lexI_sim:
  assumes "psim p ts"
  shows "\<exists>p1. lexIgnoreWhitespace p = (fst (pop ts), fst (snd (pop ts)), p1) \<and>
    psim p1 (snd (snd (pop ts))) \<and> psim (unlex p1) ts \<and> defaultField p1 = defaultField p"
proof (cases "buf_n p = 0")
  case False
  with assms show ?thesis
    by (auto simp: psim_def lexIgnoreWhitespace_def lex_def unlex_def nows_def split: if_splits)
next
  case True
  let ?r = "rest (lexer p)"
  from assms True have e: "eof \<notin> set ?r" and ts: "ts = nows (tokenise ?r)" by (auto simp: psim_def)
  from Lex_tokenise [OF e] obtain s1 where L: "Lex (lexer p) =
      (case tokenise ?r of [] \<Rightarrow> (EOF, [], s1) | (t, l) # ts \<Rightarrow> (t, l, s1))"
    "tokenise (rest s1) = tl (tokenise ?r)" "eof \<notin> set (rest s1)" by blast
  show ?thesis
  proof (cases "tokenise ?r")
    case Nil
    with L ts True show ?thesis
      by (auto simp: psim_def lexIgnoreWhitespace_def lex_def unlex_def nows_def)
  next
    case (Cons x xs)
    obtain t l where x: "x = (t, l)" by (cases x)
    have t: "t \<noteq> EOF" using tokenise_no_EOF [of t l ?r] Cons x by simp
    show ?thesis
    proof (cases "t = WS")
      case False
      with L ts True Cons x t show ?thesis
        by (auto simp: psim_def lexIgnoreWhitespace_def lex_def unlex_def nows_def)
    next
      case ws: True
      from Lex_tokenise [OF L(3)] obtain s2 where L2: "Lex s1 =
          (case tokenise (rest s1) of [] \<Rightarrow> (EOF, [], s2) | (t, l) # ts \<Rightarrow> (t, l, s2))"
        "tokenise (rest s2) = tl (tokenise (rest s1))" "eof \<notin> set (rest s2)" by blast
      have xs: "tokenise (rest s1) = xs" using L(2) Cons by simp
      have nws: "xs = [] \<or> fst (hd xs) \<noteq> WS" using tokenise_WS [of ?r l xs] Cons x ws by simp
      have l1: "lex p = (WS, l, p\<lparr>lexer := s1, buf_tok := WS, buf_lit := l\<rparr>)"
        using L True Cons x ws by (simp add: lex_def)
      show ?thesis
      proof (cases xs)
        case Nil
        with L2 xs l1 ts Cons x ws True show ?thesis
          by (auto simp: psim_def lexIgnoreWhitespace_def lex_def [of "_\<lparr>lexer := s1, buf_tok := WS, buf_lit := l\<rparr>"] unlex_def nows_def)
      next
        case (Cons y ys)
        obtain t2 l2 where y: "y = (t2, l2)" by (cases y)
        have "t2 \<noteq> EOF" using tokenise_no_EOF [of t2 l2 "rest s1"] xs Cons y by simp
        with L2 xs l1 ts \<open>tokenise ?r = x # xs\<close> x ws True nws Cons y show ?thesis
          by (auto simp: psim_def lexIgnoreWhitespace_def lex_def [of "_\<lparr>lexer := s1, buf_tok := WS, buf_lit := l\<rparr>"] unlex_def nows_def)
      qed
    qed
  qed
qed

text \<open>The result of the parser and of the token-list parser, related.\<close>

definition presult_sim :: "rune list \<Rightarrow> 'a presult \<Rightarrow> 'a tresult \<Rightarrow> bool" where
  "presult_sim df x y \<longleftrightarrow>
     (case y of
        None \<Rightarrow> x = None
      | Some (r, ts) \<Rightarrow> \<exists>p'. x = Some (r, p') \<and> psim p' ts \<and> defaultField p' = df)"

lemma presult_sim_None [simp]: "presult_sim df x None \<longleftrightarrow> x = None"
  by (simp add: presult_sim_def)

lemma presult_sim_Some [simp]:
  "presult_sim df x (Some (r, ts)) \<longleftrightarrow> (\<exists>p'. x = Some (r, p') \<and> psim p' ts \<and> defaultField p' = df)"
  by (simp add: presult_sim_def)

definition ref_parse :: "nat \<Rightarrow> bool" where
  "ref_parse n \<longleftrightarrow> (\<forall>p ts. psim p ts \<longrightarrow>
     presult_sim (defaultField p) (Parse n p) (aParse n (defaultField p) ts))"

definition ref_loop :: "nat \<Rightarrow> bool" where
  "ref_loop n \<longleftrightarrow> (\<forall>ex p ts. psim p ts \<longrightarrow>
     presult_sim (defaultField p) (parse_loop n ex p) (aloop n (defaultField p) ex ts))"

definition ref_field :: "nat \<Rightarrow> bool" where
  "ref_field n \<longleftrightarrow> (\<forall>p ts. psim p ts \<longrightarrow>
     presult_sim (defaultField p) (parseFieldExpr n p) (afield n (defaultField p) ts))"

lemma sim_cont:
  assumes "presult_sim df x y"
    and "\<And>r p' ts'. x = Some (Inr r, p') \<Longrightarrow> y = Some (Inr r, ts') \<Longrightarrow> psim p' ts' \<Longrightarrow> defaultField p' = df \<Longrightarrow>
      presult_sim df (f r p') (g r ts')"
  shows "presult_sim df
    (case x of None \<Rightarrow> None | Some (Inl e, p') \<Rightarrow> Some (Inl e, p') | Some (Inr r, p') \<Rightarrow> f r p')
    (case y of None \<Rightarrow> None | Some (Inl e, ts') \<Rightarrow> Some (Inl e, ts') | Some (Inr r, ts') \<Rightarrow> g r ts')"
proof (cases y)
  case None
  with assms(1) show ?thesis by simp
next
  case (Some a)
  obtain r ts' where a: "a = (r, ts')" by (cases a)
  with assms(1) Some obtain p' where x: "x = Some (r, p')" "psim p' ts'" "defaultField p' = df" by auto
  show ?thesis
  proof (cases r)
    case (Inl e)
    with x a Some show ?thesis by simp
  next
    case (Inr v)
    with x a Some assms(2) [of v p' ts'] show ?thesis by simp
  qed
qed

lemma unlex_df [simp]: "defaultField (unlex p) = defaultField p"
  by (simp add: unlex_def)

lemma ref_parse_Suc:
  assumes "ref_field n" and "ref_loop n"
  shows "ref_parse (Suc n)"
  unfolding ref_parse_def
proof (intro allI impI)
  fix p ts assume "psim p ts"
  obtain tok l ts1 where pop: "pop ts = (tok, l, ts1)" by (metis surj_pair)
  with lexI_sim [OF \<open>psim p ts\<close>] obtain p1 where
    1: "lexIgnoreWhitespace p = (tok, l, p1)" "psim p1 ts1" "psim (unlex p1) ts"
      "defaultField p1 = defaultField p" by auto
  show "presult_sim (defaultField p) (Parse (Suc n) p) (aParse (Suc n) (defaultField p) ts)"
  proof (cases "tok = EOF")
    case True
    with 1 pop show ?thesis by simp
  next
    case False
    have "presult_sim (defaultField p) (parseFieldExpr n (unlex p1)) (afield n (defaultField p) ts)"
      using assms(1) 1(3,4) unfolding ref_field_def by (metis unlex_df)
    moreover have "presult_sim (defaultField p) (parse_loop n r p') (aloop n (defaultField p) r ts')"
      if "psim p' ts'" "defaultField p' = defaultField p" for r p' ts'
      using assms(2) that unfolding ref_loop_def by metis
    ultimately have "presult_sim (defaultField p)
        (case parseFieldExpr n (unlex p1) of None \<Rightarrow> None | Some (Inl e, p2) \<Rightarrow> Some (Inl e, p2)
           | Some (Inr ex, p2) \<Rightarrow> parse_loop n ex p2)
        (case afield n (defaultField p) ts of None \<Rightarrow> None | Some (Inl e, ts2) \<Rightarrow> Some (Inl e, ts2)
           | Some (Inr ex, ts2) \<Rightarrow> aloop n (defaultField p) ex ts2)"
      by (intro sim_cont)
    with 1 pop False show ?thesis by simp
  qed
qed

lemma ref_loop_Suc:
  assumes "ref_field n" and "ref_loop n"
  shows "ref_loop (Suc n)"
  unfolding ref_loop_def
proof (intro allI impI)
  fix ex p ts assume "psim p ts"
  obtain op l ts1 where pop: "pop ts = (op, l, ts1)" by (metis surj_pair)
  with lexI_sim [OF \<open>psim p ts\<close>] obtain p1 where
    1: "lexIgnoreWhitespace p = (op, l, p1)" "psim p1 ts1" "psim (unlex p1) ts"
      "defaultField p1 = defaultField p" by auto
  let ?q = "if isOperator op then p1 else unlex p1" and ?us = "if isOperator op then ts1 else ts"
    and ?op = "if isOperator op then op else AND"
  have "psim ?q ?us" "defaultField ?q = defaultField p" using 1 by simp_all
  then have f: "presult_sim (defaultField p) (parseFieldExpr n ?q) (afield n (defaultField p) ?us)"
    using assms(1) unfolding ref_field_def by metis
  have "presult_sim (defaultField p) (parse_loop n (combine ex ?op r) p') (aloop n (defaultField p) (combine ex ?op r) ts')"
    if "psim p' ts'" "defaultField p' = defaultField p" for r p' ts'
    using assms(2) that unfolding ref_loop_def by metis
  with f have "presult_sim (defaultField p)
      (case parseFieldExpr n ?q of None \<Rightarrow> None | Some (Inl e, p2) \<Rightarrow> Some (Inl e, p2)
         | Some (Inr rhs, p2) \<Rightarrow> parse_loop n (combine ex ?op rhs) p2)
      (case afield n (defaultField p) ?us of None \<Rightarrow> None | Some (Inl e, ts2) \<Rightarrow> Some (Inl e, ts2)
         | Some (Inr rhs, ts2) \<Rightarrow> aloop n (defaultField p) (combine ex ?op rhs) ts2)"
    by (intro sim_cont)
  with 1 pop show "presult_sim (defaultField p) (parse_loop (Suc n) ex p) (aloop (Suc n) (defaultField p) ex ts)"
    by (simp split del: if_split) (simp split: if_split)
qed

lemma ref_field_Suc:
  assumes "ref_parse n"
  shows "ref_field (Suc n)"
  unfolding ref_field_def
proof (intro allI impI)
  fix p ts assume "psim p ts"
  obtain tok l ts1 where pop: "pop ts = (tok, l, ts1)" by (metis surj_pair)
  with lexI_sim [OF \<open>psim p ts\<close>] obtain p1 where
    1: "lexIgnoreWhitespace p = (tok, l, p1)" "psim p1 ts1" "psim (unlex p1) ts"
      "defaultField p1 = defaultField p" by auto
  show "presult_sim (defaultField p) (parseFieldExpr (Suc n) p) (afield (Suc n) (defaultField p) ts)"
  proof (cases "tok = LPAREN")
    case True
    let ?f = "\<lambda>ex p2. case lexIgnoreWhitespace p2 of (tok2, l2, p3) \<Rightarrow>
      if tok2 \<noteq> RPAREN then Some (Inl (ExpectedRParen (tokstr tok2 l2)), p3) else Some (Inr (ParenExpr ex), p3)"
    let ?g = "\<lambda>ex ts2. case pop ts2 of (tok2, l2, ts3) \<Rightarrow>
      if tok2 \<noteq> RPAREN then Some (Inl (ExpectedRParen (tokstr tok2 l2)), ts3) else Some (Inr (ParenExpr ex), ts3)"
    have x: "presult_sim (defaultField p) (Parse n p1) (aParse n (defaultField p) ts1)"
      using assms 1(2,4) unfolding ref_parse_def by metis
    have "presult_sim (defaultField p) (?f ex p2) (?g ex ts2)"
      if "psim p2 ts2" "defaultField p2 = defaultField p" for ex p2 ts2
      using lexI_sim [OF that(1)] that(2) by (auto split: prod.splits)
    with x have "presult_sim (defaultField p)
       (case Parse n p1 of None \<Rightarrow> None | Some (Inl e, p2) \<Rightarrow> Some (Inl e, p2) | Some (Inr ex, p2) \<Rightarrow> ?f ex p2)
       (case aParse n (defaultField p) ts1 of None \<Rightarrow> None | Some (Inl e, ts2) \<Rightarrow> Some (Inl e, ts2)
          | Some (Inr ex, ts2) \<Rightarrow> ?g ex ts2)"
      by (intro sim_cont)
    with 1 pop True show ?thesis by simp
  next
    case False
    from lexI_sim [OF 1(3)] pop obtain p2 where
      2: "lexIgnoreWhitespace (unlex p1) = (tok, l, p2)" "psim p2 ts1" "defaultField p2 = defaultField p"
      using 1(4) by auto
    obtain tok2 l2 ts2 where pop2: "pop ts1 = (tok2, l2, ts2)" by (metis surj_pair)
    with lexI_sim [OF 2(2)] obtain p3 where
      3: "lexIgnoreWhitespace p2 = (tok2, l2, p3)" "psim p3 ts2" "psim (unlex p3) ts1"
        "defaultField p3 = defaultField p" using 2(3) by auto
    obtain tok3 l3 ts3 where pop3: "pop ts2 = (tok3, l3, ts3)" by (metis surj_pair)
    with lexI_sim [OF 3(2)] obtain p4 where
      4: "lexIgnoreWhitespace p3 = (tok3, l3, p4)" "psim p4 ts3" "defaultField p4 = defaultField p"
      using 3(4) by auto
    show ?thesis using 1 2 3 4 pop pop2 pop3 False by simp
  qed
qed

lemma parser_refines: "ref_parse n \<and> ref_loop n \<and> ref_field n"
proof (induction n)
  case 0
  then show ?case by (simp add: ref_parse_def ref_loop_def ref_field_def)
next
  case (Suc n)
  then show ?case by (simp add: ref_parse_Suc ref_loop_Suc ref_field_Suc)
qed

lemma psim_New: "eof \<notin> set s \<Longrightarrow> psim (NewQParser s df) (nows (tokenise s))"
  by (simp add: psim_def NewQParser_def NewLexer_def)

lemma parse_query_tokens:
  assumes "eof \<notin> set s"
  shows "parse_query df s = map_option fst (aParse (3 * length s + 3) df (nows (tokenise s)))"
proof -
  have "presult_sim df (Parse (3 * length s + 3) (NewQParser s df))
      (aParse (3 * length s + 3) df (nows (tokenise s)))"
    using parser_refines psim_New [OF assms, of df] unfolding ref_parse_def
    by (metis NewQParser_def QParser.select_convs(5))
  then show ?thesis
    by (cases "aParse (3 * length s + 3) df (nows (tokenise s))") (auto simp: parse_query_def)
qed

section \<open>Queries, their text, their tokens and their tree\<close>

text \<open>
  A query is an item followed by further items, each with a connective: a keyword (with the
  spelling used) or \<^const>\<open>None\<close> for two items side by side. An item is a search term, with or
  without a field, or a query in parentheses.
\<close>

datatype item = Term "rune list option" "rune list" | Group item "((Token \<times> rune list) option \<times> item) list"

type_synonym link = "(Token \<times> rune list) option"

fun link_op :: "link \<Rightarrow> Token" where
  "link_op None = AND"
| "link_op (Some (t, _)) = t"

fun link_toks :: "link \<Rightarrow> toks" where
  "link_toks None = []"
| "link_toks (Some x) = [x]"

fun link_text :: "link \<Rightarrow> rune list" where
  "link_text None = runes '' ''"
| "link_text (Some (_, w)) = runes '' '' @ w @ runes '' ''"

fun item_toks :: "item \<Rightarrow> toks" where
  "item_toks (Term None t) = [(STRING, t)]"
| "item_toks (Term (Some f) t) = [(STRING, f), (COLON, runes '':''), (STRING, t)]"
| "item_toks (Group i rs) =
     (LPAREN, runes ''('') # item_toks i @ concat (map (\<lambda>(c, j). link_toks c @ item_toks j) rs)
       @ [(RPAREN, runes '')'')]"

fun item_text :: "item \<Rightarrow> rune list" where
  "item_text (Term None t) = t"
| "item_text (Term (Some f) t) = f @ runes '':'' @ t"
| "item_text (Group i rs) =
     runes ''('' @ item_text i @ concat (map (\<lambda>(c, j). link_text c @ item_text j) rs) @ runes '')''"

fun tree :: "rune list \<Rightarrow> item \<Rightarrow> Expr" where
  "tree df (Term None t) = FieldExpr df t"
| "tree df (Term (Some f) t) = FieldExpr f t"
| "tree df (Group i rs) =
     ParenExpr (Some (foldl (\<lambda>e (op, r). combine e op r) (tree df i)
       (map (\<lambda>(c, j). (link_op c, tree df j)) rs)))"

definition links_toks :: "(link \<times> item) list \<Rightarrow> toks" where
  "links_toks rs = concat (map (\<lambda>(c, j). link_toks c @ item_toks j) rs)"

definition links_text :: "(link \<times> item) list \<Rightarrow> rune list" where
  "links_text rs = concat (map (\<lambda>(c, j). link_text c @ item_text j) rs)"

definition links_tree :: "rune list \<Rightarrow> Expr \<Rightarrow> (link \<times> item) list \<Rightarrow> Expr" where
  "links_tree df e rs = foldl (\<lambda>e (op, r). combine e op r) e (map (\<lambda>(c, j). (link_op c, tree df j)) rs)"

text \<open>Words: non-empty, without white space, colon, parenthesis or zero rune, and no keyword.\<close>

definition is_word_text :: "rune list \<Rightarrow> bool" where
  "is_word_text w \<longleftrightarrow> w \<noteq> [] \<and> list_all isWordRune w \<and> eof \<notin> set w"

fun link_ok :: "link \<Rightarrow> bool" where
  "link_ok None = True"
| "link_ok (Some (t, w)) \<longleftrightarrow> isOperator t \<and> is_word_text w \<and> word_token w = t"

fun item_ok :: "item \<Rightarrow> bool" where
  "item_ok (Term None t) \<longleftrightarrow> is_word_text t \<and> word_token t = STRING"
| "item_ok (Term (Some f) t) \<longleftrightarrow> is_word_text f \<and> word_token f = STRING \<and> is_word_text t \<and> word_token t = STRING"
| "item_ok (Group i rs) \<longleftrightarrow> item_ok i \<and> (\<forall>(c, j)\<in>set rs. link_ok c \<and> item_ok j)"

lemma item_toks_pos: "1 \<le> length (item_toks i)"
  by (cases i rule: item_toks.cases) simp_all

lemma item_toks_head: "item_ok i \<Longrightarrow> \<exists>t l ts. item_toks i = (t, l) # ts \<and> (t = STRING \<or> t = LPAREN)"
  by (cases i rule: item_toks.cases) simp_all

text \<open>The token-list parser on the tokens of an item and on the rest of a query.\<close>

definition stops :: "toks \<Rightarrow> bool" where
  "stops ts \<longleftrightarrow> ts = [] \<or> fst (hd ts) = RPAREN"

definition no_colon :: "toks \<Rightarrow> bool" where
  "no_colon ts \<longleftrightarrow> ts = [] \<or> fst (hd ts) \<noteq> COLON"

lemma stops_no_colon: "stops ts \<Longrightarrow> no_colon ts"
  by (auto simp: stops_def no_colon_def)

lemma links_no_colon:
  assumes "\<forall>(c, j)\<in>set rs. link_ok c \<and> item_ok j" and "stops ts"
  shows "no_colon (links_toks rs @ ts)"
proof (cases rs)
  case Nil
  then show ?thesis using assms(2) stops_no_colon by (simp add: links_toks_def)
next
  case (Cons x xs)
  obtain c j where x: "x = (c, j)" by (cases x)
  with Cons assms(1) have "link_ok c" "item_ok j" by auto
  then show ?thesis using Cons x item_toks_head [of j]
    by (cases c) (auto simp: links_toks_def no_colon_def isOperator_def)
qed

definition item_parses :: "item \<Rightarrow> bool" where
  "item_parses i \<longleftrightarrow> (\<forall>n df ts. 3 * length (item_toks i) + 1 \<le> n \<longrightarrow> no_colon ts \<longrightarrow>
     afield n df (item_toks i @ ts) = Some (Inr (tree df i), ts))"

lemma aloop_links:
  assumes "\<forall>(c, j)\<in>set rs. link_ok c \<and> item_ok j \<and> item_parses j" and "stops ts"
    and "3 * length (links_toks rs) + 2 \<le> n"
  shows "aloop n df e (links_toks rs @ ts) = Some (Inr (Some (links_tree df e rs)), ts)"
  using assms
proof (induction rs arbitrary: n e)
  case Nil
  then obtain m where "n = Suc m" by (cases n) auto
  with Nil.prems(2) show ?case
    by (cases ts) (auto simp: links_toks_def links_tree_def stops_def)
next
  case (Cons x rs)
  obtain c j where x: "x = (c, j)" by (cases x)
  obtain m where n: "n = Suc m" using Cons.prems(3) by (cases n) auto
  from Cons.prems(1) x have ok: "link_ok c" "item_ok j" "item_parses j" by auto
  let ?us = "links_toks rs @ ts"
  have toks: "links_toks (x # rs) @ ts = link_toks c @ item_toks j @ ?us" by (simp add: links_toks_def x)
  have len: "length (links_toks (x # rs)) = length (link_toks c) + length (item_toks j) + length (links_toks rs)"
    by (simp add: links_toks_def x)
  have "no_colon ?us" using Cons.prems(1,2) by (intro links_no_colon) auto
  with ok(3) len Cons.prems(3) n have f: "afield m df (item_toks j @ ?us) = Some (Inr (tree df j), ?us)"
    by (simp add: item_parses_def)
  have "3 * length (links_toks rs) + 2 \<le> m" using len Cons.prems(3) n item_toks_pos [of j] by simp
  from Cons.IH [OF _ Cons.prems(2) this] Cons.prems(1)
  have ih: "aloop m df e' ?us = Some (Inr (Some (links_tree df e' rs)), ts)" for e' by simp
  have tree: "links_tree df e (x # rs) = links_tree df (combine e (link_op c) (tree df j)) rs"
    by (simp add: links_tree_def x)
  show ?case
  proof (cases c)
    case None
    from item_toks_head [OF ok(2)] obtain t l us where h: "item_toks j = (t, l) # us" "t = STRING \<or> t = LPAREN" by blast
    then have "t \<noteq> EOF" "t \<noteq> RPAREN" "\<not> isOperator t" by (auto simp: isOperator_def)
    with None h f ih show ?thesis unfolding toks tree n by (simp add: h)
  next
    case (Some y)
    obtain t w where y: "y = (t, w)" by (cases y)
    with ok(1) Some have "isOperator t" "t \<noteq> EOF" "t \<noteq> RPAREN" by (auto simp: isOperator_def)
    with Some y f ih show ?thesis unfolding toks tree n by simp
  qed
qed

lemma aParse_query:
  assumes "item_ok i" and "item_parses i"
    and "\<forall>(c, j)\<in>set rs. link_ok c \<and> item_ok j \<and> item_parses j" and "stops ts"
    and "3 * length (item_toks i @ links_toks rs) + 3 \<le> n"
  shows "aParse n df (item_toks i @ links_toks rs @ ts) = Some (Inr (Some (links_tree df (tree df i) rs)), ts)"
proof -
  obtain m where n: "n = Suc m" using assms(5) by (cases n) auto
  obtain t l us where h: "item_toks i = (t, l) # us" "t = STRING \<or> t = LPAREN"
    using item_toks_head [OF assms(1)] by blast
  have "no_colon (links_toks rs @ ts)" using assms(3,4) by (intro links_no_colon) auto
  then have "afield m df (item_toks i @ links_toks rs @ ts) = Some (Inr (tree df i), links_toks rs @ ts)"
    using assms(2,5) n by (simp add: item_parses_def)
  moreover have "aloop m df (tree df i) (links_toks rs @ ts) = Some (Inr (Some (links_tree df (tree df i) rs)), ts)"
    using assms(5) n item_toks_pos [of i] by (intro aloop_links [OF assms(3,4)]) simp
  ultimately show ?thesis using h n by auto
qed

lemma item_parses_all: "item_ok i \<Longrightarrow> item_parses i"
proof (induction i)
  case (Term fo t)
  show ?case unfolding item_parses_def
  proof (intro allI impI)
    fix n :: nat and df ts
    assume n: "3 * length (item_toks (Term fo t)) + 1 \<le> n" and c: "no_colon ts"
    then obtain m where m: "n = Suc m" by (cases n) auto
    have "fst (pop ts) \<noteq> COLON" using c by (cases ts) (auto simp: no_colon_def)
    then show "afield n df (item_toks (Term fo t) @ ts) = Some (Inr (tree df (Term fo t)), ts)"
      using m by (cases fo) (auto split: prod.splits)
  qed
next
  case (Group i rs)
  have rs: "\<forall>(c, j)\<in>set rs. link_ok c \<and> item_ok j \<and> item_parses j"
    using Group by (fastforce simp: Basic_BNFs.snds.simps)
  show ?case unfolding item_parses_def
  proof (intro allI impI)
    fix n :: nat and df ts
    assume n: "3 * length (item_toks (Group i rs)) + 1 \<le> n" and c: "no_colon ts"
    then obtain m where m: "n = Suc m" by (cases n) auto
    have toks: "item_toks (Group i rs) @ ts =
        (LPAREN, runes ''('') # item_toks i @ links_toks rs @ (RPAREN, runes '')'') # ts"
      by (simp add: links_toks_def)
    have "aParse m df (item_toks i @ links_toks rs @ (RPAREN, runes '')'') # ts) =
        Some (Inr (Some (links_tree df (tree df i) rs)), (RPAREN, runes '')'') # ts)"
      using Group n m by (intro aParse_query rs) (auto simp: stops_def links_toks_def)
    then show "afield n df (item_toks (Group i rs) @ ts) = Some (Inr (tree df (Group i rs)), ts)"
      unfolding toks m by (simp add: links_tree_def)
  qed
qed

end
