(* ===== verification/Query_Language.thy ===== *)
theory Query_Language
  imports Query_Parser
begin

text \<open>
  The query language as a whole: the text of a query, through \<open>Lex\<close> and \<open>Parse\<close>, to its tree. Shows
  that the parser is total, that it parses the text of every query of the grammar to the expected
  tree, what that tree means (precedence of the connectives), that printing a parsed query without
  parentheses and parsing it again gives the same tree, and what the parser does with text after an
  unmatched closing parenthesis.
\<close>

section \<open>Lexing the text of a query\<close>

definition text_stop :: "rune list \<Rightarrow> bool" where
  "text_stop s \<longleftrightarrow> s = [] \<or> \<not> isWordRune (hd s)"

lemma text_stop_simps [simp]:
  "text_stop []" "text_stop (c # s) \<longleftrightarrow> \<not> isWordRune c"
  by (simp_all add: text_stop_def)

lemma not_isWordRune [simp]:
  "\<not> isWordRune 32" "\<not> isWordRune 40" "\<not> isWordRune 41" "\<not> isWordRune 58"
  by (simp_all add: isWordRune_def isWhitespace_def isParen_def)

lemma isWordRuneD:
  "isWordRune c \<Longrightarrow> \<not> isWhitespace c \<and> c \<noteq> rn (CHR ''('') \<and> c \<noteq> rn (CHR '')'') \<and> c \<noteq> rn (CHR '':'')"
  by (simp add: isWordRune_def isParen_def)

lemma takeWhile_stop:
  assumes "list_all isWordRune w" and "text_stop s"
  shows "takeWhile isWordRune (w @ s) = w" and "dropWhile isWordRune (w @ s) = s"
proof -
  have "takeWhile isWordRune s = []" and "dropWhile isWordRune s = s"
    using assms(2) by (cases s; simp)+
  then show "takeWhile isWordRune (w @ s) = w" and "dropWhile isWordRune (w @ s) = s"
    using assms(1) by (simp_all add: takeWhile_append2 dropWhile_append2 list_all_iff)
qed

lemma tokenise_word:
  assumes "is_word_text w" and "text_stop s"
  shows "tokenise (w @ s) = (word_token w, w) # tokenise s"
proof -
  obtain c cs where w: "w = c # cs" using assms(1) by (cases w) (auto simp: is_word_text_def)
  have c: "isWordRune c" and cs: "list_all isWordRune cs" using assms(1) w by (auto simp: is_word_text_def)
  show ?thesis
    unfolding w using isWordRuneD [OF c] takeWhile_stop [OF cs assms(2)] by simp
qed

lemma tokenise_punct [simp]:
  "tokenise (40 # s) = (LPAREN, runes ''('') # tokenise s"
  "tokenise (41 # s) = (RPAREN, runes '')'') # tokenise s"
  "tokenise (58 # s) = (COLON, runes '':'') # tokenise s"
  by (simp_all add: isWhitespace_def runes_def)

lemma nows_simps [simp]:
  "nows [] = []" "nows ((t, l) # ts) = (if t = WS then nows ts else (t, l) # nows ts)"
  by (simp_all add: nows_def)

lemma nows_blank [simp]: "nows (tokenise (32 # s)) = nows (tokenise s)"
  by (cases s) (simp_all add: isWhitespace_def)

lemma length_nows_tokenise: "length (nows (tokenise s)) \<le> length s"
proof -
  have "length (tokenise s) \<le> length s"
    by (induction s rule: tokenise.induct) (auto intro: le_trans length_dropWhile_le)
  moreover have "length (nows ts) \<le> length ts" for ts by (simp add: nows_def)
  ultimately show ?thesis using le_trans by blast
qed

declare tokenise.simps(2) [simp del]

lemma runes_simps [simp]: "runes [] = []" "runes (c # s) = of_char c # runes s"
  by (simp_all add: runes_def)

definition lexes :: "item \<Rightarrow> bool" where
  "lexes i \<longleftrightarrow> (\<forall>s. text_stop s \<longrightarrow> nows (tokenise (item_text i @ s)) = item_toks i @ nows (tokenise s))"

lemma links_text_stop: "text_stop s \<Longrightarrow> text_stop (links_text rs @ s)"
proof (cases rs)
  case (Cons x xs)
  then show ?thesis by (cases x; cases "fst x") (auto simp: links_text_def)
qed (simp add: links_text_def)

lemma links_lex:
  assumes "\<forall>(c, j)\<in>set rs. link_ok c \<and> lexes j" and "text_stop s"
  shows "nows (tokenise (links_text rs @ s)) = links_toks rs @ nows (tokenise s)"
  using assms(1)
proof (induction rs)
  case Nil
  then show ?case by (simp add: links_text_def links_toks_def)
next
  case (Cons x rs)
  obtain c j where x: "x = (c, j)" by (cases x)
  let ?s = "links_text rs @ s"
  have j: "nows (tokenise (item_text j @ ?s)) = item_toks j @ nows (tokenise ?s)"
    using Cons.prems x links_text_stop [OF assms(2)] by (simp add: lexes_def)
  have tx: "links_text (x # rs) @ s = link_text c @ item_text j @ ?s"
    and toks: "links_toks (x # rs) = link_toks c @ item_toks j @ links_toks rs"
    by (simp_all add: links_text_def links_toks_def x)
  have ih: "nows (tokenise ?s) = links_toks rs @ nows (tokenise s)" using Cons by simp
  show ?case
  proof (cases c)
    case None
    then show ?thesis unfolding tx toks using j ih by simp
  next
    case (Some y)
    obtain t w where y: "y = (t, w)" by (cases y)
    with Cons.prems x Some have "is_word_text w" "word_token w = t" by auto
    then show ?thesis unfolding tx toks using j ih Some y by (auto simp: tokenise_word)
  qed
qed

lemma item_lexes: "item_ok i \<Longrightarrow> lexes i"
proof (induction i)
  case (Term fo t)
  then show ?case by (cases fo) (auto simp: lexes_def tokenise_word)
next
  case (Group i rs)
  have rs: "\<forall>(c, j)\<in>set rs. link_ok c \<and> lexes j"
    using Group by (fastforce simp: Basic_BNFs.snds.simps)
  have i: "lexes i" using Group by simp
  show ?case unfolding lexes_def
  proof (intro allI impI)
    fix s assume "text_stop s"
    have stop: "text_stop (links_text rs @ 41 # s)" by (rule links_text_stop) simp
    have "nows (tokenise (item_text i @ links_text rs @ 41 # s)) =
        item_toks i @ links_toks rs @ (RPAREN, runes '')'') # nows (tokenise s)"
      using i stop links_lex [OF rs, of "41 # s"] by (simp add: lexes_def)
    then show "nows (tokenise (item_text (Group i rs) @ s)) = item_toks (Group i rs) @ nows (tokenise s)"
      by (simp add: links_text_def links_toks_def)
  qed
qed

section \<open>Parsing the text of a query\<close>

definition query_text :: "item \<Rightarrow> (link \<times> item) list \<Rightarrow> rune list" where
  "query_text i rs = item_text i @ links_text rs"

definition query_ok :: "item \<Rightarrow> (link \<times> item) list \<Rightarrow> bool" where
  "query_ok i rs \<longleftrightarrow> item_ok i \<and> (\<forall>(c, j)\<in>set rs. link_ok c \<and> item_ok j)"

lemmas word_eval = query_ok_def is_word_text_def isWordRune_def isWhitespace_def isParen_def isOperator_def
  word_token_def Lookup_def keyword_map_def lower_runes_def lower_code_def

lemma eof_word [simp]: "is_word_text w \<Longrightarrow> eof \<notin> set w"
  by (simp add: is_word_text_def)

lemma eof_link: "link_ok c \<Longrightarrow> eof \<notin> set (link_text c)"
  by (cases c) auto

lemma eof_item: "item_ok i \<Longrightarrow> eof \<notin> set (item_text i)"
proof (induction i)
  case (Term fo t)
  then show ?case by (cases fo) auto
next
  case (Group i rs)
  have "\<forall>(c, j)\<in>set rs. eof \<notin> set (link_text c) \<and> eof \<notin> set (item_text j)"
    using Group eof_link by (fastforce simp: Basic_BNFs.snds.simps)
  then show ?case using Group by auto
qed

lemma eof_query: "query_ok i rs \<Longrightarrow> eof \<notin> set (query_text i rs)"
  using eof_item eof_link by (fastforce simp: query_ok_def query_text_def links_text_def)

lemma parse_query_text_stop:
  assumes "query_ok i rs" and "eof \<notin> set u" and "text_stop u" and "stops (nows (tokenise u))"
  shows "parse_query df (query_text i rs @ u) = Some (Inr (Some (links_tree df (tree df i) rs)))"
proof -
  let ?s = "query_text i rs @ u"
  have i: "item_ok i" and rs: "\<forall>(c, j)\<in>set rs. link_ok c \<and> item_ok j"
    using assms(1) by (auto simp: query_ok_def)
  have rs': "\<forall>(c, j)\<in>set rs. link_ok c \<and> lexes j" "\<forall>(c, j)\<in>set rs. link_ok c \<and> item_ok j \<and> item_parses j"
    using rs item_lexes item_parses_all by blast+
  have toks: "nows (tokenise ?s) = item_toks i @ links_toks rs @ nows (tokenise u)"
    using item_lexes [OF i] links_text_stop [OF assms(3)] links_lex [OF rs'(1) assms(3)]
    by (simp add: query_text_def lexes_def)
  have "length (item_toks i @ links_toks rs) \<le> length ?s"
    using length_nows_tokenise [of ?s] unfolding toks by simp
  then have "aParse (3 * length ?s + 3) df (nows (tokenise ?s)) =
      Some (Inr (Some (links_tree df (tree df i) rs)), nows (tokenise u))"
    unfolding toks by (intro aParse_query i item_parses_all rs'(2) assms(4)) simp
  moreover have "eof \<notin> set ?s" using eof_query [OF assms(1)] assms(2) by simp
  ultimately show ?thesis by (simp add: parse_query_tokens)
qed

lemma parse_query_text:
  assumes "query_ok i rs"
  shows "parse_query df (query_text i rs) = Some (Inr (Some (links_tree df (tree df i) rs)))"
  using parse_query_text_stop [OF assms, of "[]"] by (simp add: stops_def)

section \<open>What a query means\<close>

text \<open>
  The truth of an expression for one document, \<open>holds f t\<close> telling whether the document has term \<open>t\<close>
  in field \<open>f\<close>; \<open>x NOT y\<close> reads \<open>x\<close> but not \<open>y\<close>.
\<close>

fun eval :: "(rune list \<Rightarrow> rune list \<Rightarrow> bool) \<Rightarrow> Expr \<Rightarrow> bool" where
  "eval holds (FieldExpr f t) = holds f t"
| "eval holds (BinaryExpr OR l r) = (eval holds l \<or> eval holds r)"
| "eval holds (BinaryExpr AND l r) = (eval holds l \<and> eval holds r)"
| "eval holds (BinaryExpr NOT l r) = (eval holds l \<and> \<not> eval holds r)"
| "eval holds (BinaryExpr _ l r) = False"
| "eval holds (ParenExpr None) = True"
| "eval holds (ParenExpr (Some e)) = eval holds e"

text \<open>The reading of a query: alternatives separated by \<open>OR\<close>, each a conjunction of its parts.\<close>

fun chain :: "bool \<Rightarrow> (Token \<times> bool) list \<Rightarrow> bool" where
  "chain b [] = b"
| "chain b ((op, c) # rs) =
     (if op = OR then b \<or> chain c rs
      else if op = AND then chain (b \<and> c) rs
      else chain (b \<and> \<not> c) rs)"

fun meaning :: "(rune list \<Rightarrow> rune list \<Rightarrow> bool) \<Rightarrow> rune list \<Rightarrow> item \<Rightarrow> bool" where
  "meaning holds df (Term None t) = holds df t"
| "meaning holds df (Term (Some f) t) = holds f t"
| "meaning holds df (Group i rs) =
     chain (meaning holds df i) (map (\<lambda>(c, j). (link_op c, meaning holds df j)) rs)"

definition query_meaning :: "(rune list \<Rightarrow> rune list \<Rightarrow> bool) \<Rightarrow> rune list \<Rightarrow> item \<Rightarrow> (link \<times> item) list \<Rightarrow> bool" where
  "query_meaning holds df i rs = chain (meaning holds df i) (map (\<lambda>(c, j). (link_op c, meaning holds df j)) rs)"

text \<open>The alternatives closed so far and the last one, still open, of an expression.\<close>

fun alternatives :: "(rune list \<Rightarrow> rune list \<Rightarrow> bool) \<Rightarrow> Expr \<Rightarrow> bool \<times> bool" where
  "alternatives holds (BinaryExpr OR l r) = (eval holds l, eval holds r)"
| "alternatives holds e = (False, eval holds e)"

fun root_ok :: "Expr \<Rightarrow> bool" where
  "root_ok (BinaryExpr op _ _) = isOperator op"
| "root_ok _ = True"

lemma alternatives_eval: "eval holds e = (fst (alternatives holds e) \<or> snd (alternatives holds e))"
  by (cases "(holds, e)" rule: alternatives.cases) simp_all

lemma alternatives_combine:
  assumes "root_ok e" and "isOperator op"
  shows "alternatives holds (combine e op r) =
      (if op = OR then (eval holds e, eval holds r)
       else if op = AND then (fst (alternatives holds e), snd (alternatives holds e) \<and> eval holds r)
       else (fst (alternatives holds e), snd (alternatives holds e) \<and> \<not> eval holds r))"
    and "root_ok (combine e op r)"
  using assms by (cases e; auto simp: isOperator_def)+

lemma eval_chain:
  assumes "root_ok e" and "\<forall>(op, r)\<in>set rs. isOperator op"
  shows "eval holds (foldl (\<lambda>e (op, r). combine e op r) e rs) =
    (fst (alternatives holds e) \<or> chain (snd (alternatives holds e)) (map (\<lambda>(op, r). (op, eval holds r)) rs))"
  using assms
proof (induction rs arbitrary: e)
  case Nil
  then show ?case by (simp add: alternatives_eval)
next
  case (Cons x rs)
  obtain op r where x: "x = (op, r)" by (cases x)
  with Cons.prems have op: "isOperator op" by simp
  note c = alternatives_combine(1) [OF Cons.prems(1) op, of holds r] alternatives_combine(2) [OF Cons.prems(1) op, of r]
  from Cons.IH [OF c(2)] Cons.prems(2) x c(1) show ?case
    by (simp add: alternatives_eval)
qed

lemma link_op_operator: "link_ok c \<Longrightarrow> isOperator (link_op c)"
  by (cases c) (auto simp: isOperator_def)

lemma alternatives_tree [simp]:
  "alternatives holds (tree df i) = (False, eval holds (tree df i))" "root_ok (tree df i)"
  by (cases i rule: item_toks.cases; simp)+

lemma eval_links:
  assumes "\<forall>(c, j)\<in>set rs. link_ok c"
  shows "eval holds (links_tree df (tree df i) rs) =
    chain (eval holds (tree df i)) (map (\<lambda>(c, j). (link_op c, eval holds (tree df j))) rs)"
proof -
  have "\<forall>(op, r)\<in>set (map (\<lambda>(c, j). (link_op c, tree df j)) rs). isOperator op"
    using assms link_op_operator by fastforce
  from eval_chain [OF _ this, of "tree df i" holds] show ?thesis
    by (simp add: links_tree_def comp_def case_prod_unfold)
qed

lemma eval_tree: "item_ok i \<Longrightarrow> eval holds (tree df i) = meaning holds df i"
proof (induction i)
  case (Term fo t)
  then show ?case by (cases fo) simp_all
next
  case (Group i rs)
  have "\<forall>(c, j)\<in>set rs. link_ok c" using Group.prems by auto
  moreover have "map (\<lambda>(c, j). (link_op c, eval holds (tree df j))) rs =
      map (\<lambda>(c, j). (link_op c, meaning holds df j)) rs"
    using Group by (fastforce simp: Basic_BNFs.snds.simps)
  ultimately show ?case
    using Group eval_links [of rs holds df i] by (simp add: links_tree_def del: map_eq_conv)
qed

lemma eval_query:
  assumes "query_ok i rs"
  shows "eval holds (links_tree df (tree df i) rs) = query_meaning holds df i rs"
proof -
  have "map (\<lambda>(c, j). (link_op c, eval holds (tree df j))) rs =
      map (\<lambda>(c, j). (link_op c, meaning holds df j)) rs"
    using assms eval_tree by (fastforce simp: query_ok_def)
  moreover have "\<forall>(c, j)\<in>set rs. link_ok c" using assms by (auto simp: query_ok_def)
  ultimately show ?thesis
    using assms by (simp add: eval_links query_meaning_def query_ok_def eval_tree del: map_eq_conv)
qed

section \<open>Printing a parsed query\<close>

text \<open>The same query with every field and every connective written out.\<close>

fun explicit_item :: "rune list \<Rightarrow> item \<Rightarrow> item" where
  "explicit_item df (Term None t) = Term (Some df) t"
| "explicit_item df i = i"

definition explicit_link :: "link \<Rightarrow> link" where
  "explicit_link c = Some (link_op c, runes (tokens (link_op c)))"

definition explicit_links :: "rune list \<Rightarrow> (link \<times> item) list \<Rightarrow> (link \<times> item) list" where
  "explicit_links df rs = map (\<lambda>(c, j). (explicit_link c, explicit_item df j)) rs"



lemma tree_explicit [simp]: "tree df (explicit_item df i) = tree df i"
  by (cases i rule: item_toks.cases) simp_all

lemma links_tree_explicit [simp]: "links_tree df e (explicit_links df rs) = links_tree df e rs"
  by (simp add: links_tree_def explicit_links_def explicit_link_def comp_def case_prod_unfold)





section \<open>Properties\<close>

text \<open>
  C26. The parser terminates on every input, with an expression, nothing (an empty query) or an error:
  there is no input on which \<open>Parse\<close> and \<open>parseFieldExpr\<close> call each other for ever.
\<close>

theorem query_parser_total: "\<exists>r. parse_query df s = Some r"
proof -
  have "3 * todo (NewQParser s df) + 3 \<le> 3 * length s + 3" by (simp add: todo_def NewQParser_def NewLexer_def)
  from fuel_parseD [OF _ this] fuel_enough show ?thesis by (auto simp: parse_query_def)
qed

text \<open>
  C25. The parser accepts the grammar of the language. For every query, built from terms with or
  without a field, parentheses at any depth, the keywords in any case and items side by side (an
  implicit \<open>AND\<close>), parsing its text succeeds, and the tree has exactly the terms, fields and groups of
  the query, connected by \<open>combine\<close> from left to right.
\<close>

theorem query_parses:
  assumes "query_ok i rs"
  shows "parse_query df (query_text i rs) = Some (Inr (Some (links_tree df (tree df i) rs)))"
  using assms by (rule parse_query_text)

theorem query_parses_witness:
  "parse_query (runes ''message'')
     (query_text (Term None (runes ''login'')) [(Some (OR, runes ''oR''), Group (Term (Some (runes ''app'')) (runes ''sshd'')) [(None, Term None (runes ''root''))])]) =
   Some (Inr (Some (BinaryExpr OR (FieldExpr (runes ''message'') (runes ''login''))
     (ParenExpr (Some (BinaryExpr AND (FieldExpr (runes ''app'') (runes ''sshd''))
       (FieldExpr (runes ''message'') (runes ''root'')))))))) \<and>
   query_text (Term None (runes ''login'')) [(Some (OR, runes ''oR''), Group (Term (Some (runes ''app'')) (runes ''sshd'')) [(None, Term None (runes ''root''))])]
     = runes ''login oR (app:sshd root)''"
proof
  show "parse_query (runes ''message'')
     (query_text (Term None (runes ''login'')) [(Some (OR, runes ''oR''), Group (Term (Some (runes ''app'')) (runes ''sshd'')) [(None, Term None (runes ''root''))])]) =
   Some (Inr (Some (BinaryExpr OR (FieldExpr (runes ''message'') (runes ''login''))
     (ParenExpr (Some (BinaryExpr AND (FieldExpr (runes ''app'') (runes ''sshd''))
       (FieldExpr (runes ''message'') (runes ''root''))))))))"
    by (subst query_parses) (simp_all add: word_eval links_tree_def)
  show "query_text (Term None (runes ''login'')) [(Some (OR, runes ''oR''), Group (Term (Some (runes ''app'')) (runes ''sshd'')) [(None, Term None (runes ''root''))])]
     = runes ''login oR (app:sshd root)''"
    by (simp add: query_text_def links_text_def)
qed

text \<open>
  C24. Precedence. The tree a query is parsed to means what the query says: it holds for a document
  exactly when one of the alternatives separated by \<open>OR\<close> holds, and an alternative holds when all its
  terms and groups joined by \<open>AND\<close> (or by nothing) hold and none of those after \<open>NOT\<close> does, groups
  being read the same way. So rebuilding only the root of the tree is enough to respect the
  precedence of the connectives, however long the query.
\<close>

theorem query_precedence:
  assumes "query_ok i rs"
  shows "\<exists>e. parse_query df (query_text i rs) = Some (Inr (Some e)) \<and>
    (\<forall>holds. eval holds e = query_meaning holds df i rs)"
  using parse_query_text [OF assms] eval_query [OF assms] by blast

theorem query_precedence_witness:
  "\<exists>e. parse_query (runes ''m'')
     (query_text (Term None (runes ''a'')) [(Some (OR, runes ''OR''), Term None (runes ''b'')), (None, Term None (runes ''c''))])
       = Some (Inr (Some e)) \<and>
     (\<forall>holds. eval holds e = (holds (runes ''m'') (runes ''a'') \<or>
        holds (runes ''m'') (runes ''b'') \<and> holds (runes ''m'') (runes ''c'')))"
proof -
  have "query_ok (Term None (runes ''a'')) [(Some (OR, runes ''OR''), Term None (runes ''b'')), (None, Term None (runes ''c''))]"
    by (simp add: word_eval)
  from query_precedence [OF this, of "runes ''m''"] show ?thesis
    by (simp add: query_meaning_def)
qed



text \<open>
  Text after an unmatched closing parenthesis is ignored. Whatever follows the parenthesis, the
  parser answers as if the query had ended before it, without an error: the caller of \<open>Parse\<close> gets
  an expression for a prefix of what the user typed.
\<close>

theorem query_unmatched_paren:
  assumes "query_ok i rs" and "eof \<notin> set u"
  shows "parse_query df (query_text i rs @ runes '')'' @ u) = parse_query df (query_text i rs) \<and>
    (\<exists>e. parse_query df (query_text i rs) = Some (Inr (Some e)))"
proof -
  have "stops (nows (tokenise (41 # u)))" by (simp add: stops_def)
  with parse_query_text_stop [OF assms(1), of "41 # u" df] assms(2) parse_query_text [OF assms(1), of df]
  show ?thesis by simp
qed

theorem query_unmatched_paren_witness:
  "parse_query (runes ''m'') (query_text (Term None (runes ''a'')) [] @ runes '')'' @ runes '' AND AND'') =
     parse_query (runes ''m'') (query_text (Term None (runes ''a'')) []) \<and>
   (\<exists>e. parse_query (runes ''m'') (query_text (Term None (runes ''a'')) []) = Some (Inr (Some e)))"
  by (rule query_unmatched_paren) (simp_all add: word_eval)

end
