(* ===== verification/Go_Time.thy ===== *)
theory Go_Time
  imports Prelude
begin

text \<open>
  The parts of Go's \<open>time\<close> package the program uses. An instant is the number of nanoseconds since
  January 1 of year 1, 00:00:00 UTC, which is Go's zero \<open>Time\<close>; a duration is a number of
  nanoseconds. \<open>Time.UnixNano\<close> is the 64-bit two's complement number Go computes, with its
  wrap-around; the other operations stay within Go's range of seconds for every time the program
  handles (years 0 to 9999 and the clock). Locations only affect printing and are left out.

  \<open>parse_rfc3339\<close> is \<open>time.Parse(time.RFC3339, s)\<close>, element by element of the layout
  \<open>2006-01-02T15:04:05Z07:00\<close>, with the optional fraction after the seconds.
\<close>

section \<open>Instants and durations\<close>

type_synonym gtime = int
type_synonym duration = int

definition ns_per_sec :: int where "ns_per_sec = 1000000000"

definition unix_epoch :: gtime where "unix_epoch = 62135596800 * ns_per_sec"

definition IsZero :: "gtime \<Rightarrow> bool" where "IsZero t \<longleftrightarrow> t = 0"

definition UnixNano :: "gtime \<Rightarrow> 64 word" where
  "UnixNano t = word_of_int (t - unix_epoch)"

definition Truncate :: "gtime \<Rightarrow> duration \<Rightarrow> gtime" where
  "Truncate t d = (if d \<le> 0 then t else t - t mod d)"

lemma Truncate_bounds: "0 < d \<Longrightarrow> Truncate t d \<le> t \<and> t < Truncate t d + d"
  by (simp add: Truncate_def algebra_simps)

lemma Truncate_multiple: "0 < d \<Longrightarrow> d dvd Truncate t d"
  by (simp add: Truncate_def minus_mod_eq_mult_div)

lemma Truncate_unique:
  assumes "0 < d" and "d dvd s" and "s \<le> t" and "t < s + d"
  shows "Truncate t d = s"
proof -
  from assms(2) obtain k where k: "s = d * k" by blast
  with assms have "0 \<le> t - d * k" "t - d * k < d" by simp_all
  then have "t mod d = t - d * k"
    by (metis mod_mult_self2 mod_pos_pos_trivial diff_add_cancel add.commute)
  with k assms(1) show ?thesis by (simp add: Truncate_def)
qed

section \<open>time.Parse with the layout RFC3339\<close>

definition is_leap :: "int \<Rightarrow> bool" where
  "is_leap y \<longleftrightarrow> y mod 4 = 0 \<and> (y mod 100 \<noteq> 0 \<or> y mod 400 = 0)"

definition days_in :: "int \<Rightarrow> int \<Rightarrow> int" where
  "days_in m y =
     (if m = 2 then (if is_leap y then 29 else 28)
      else if m \<in> {4, 6, 9, 11} then 30 else 31)"

definition days_before_year :: "int \<Rightarrow> int" where
  "days_before_year y =
     365 * (y - 1) + (y - 1) div 4 - (y - 1) div 100 + (y - 1) div 400"

definition days_before_month :: "int \<Rightarrow> int \<Rightarrow> int" where
  "days_before_month m y = sum_list (map (\<lambda>k. days_in (int k) y) [1..<nat m])"

definition date_ns :: "int \<Rightarrow> int \<Rightarrow> int \<Rightarrow> int \<Rightarrow> int \<Rightarrow> int \<Rightarrow> int \<Rightarrow> gtime" where
  "date_ns y mo d h mi s ns =
     ((days_before_year y + days_before_month mo y + (d - 1)) * 86400 + h * 3600 + mi * 60 + s)
       * ns_per_sec + ns"

text \<open>\<open>getnum\<close>: one or two digits, two when \<open>fixed\<close>.\<close>

fun getnum :: "bytes \<Rightarrow> bool \<Rightarrow> (int \<times> bytes) option" where
  "getnum [] fixed = None"
| "getnum [a] fixed =
     (if \<not> is_digit a \<or> fixed then None else Some (int (digit_val a), []))"
| "getnum (a # b # s) fixed =
     (if \<not> is_digit a then None
      else if is_digit b then Some (int (10 * digit_val a + digit_val b), s)
      else if fixed then None else Some (int (digit_val a), b # s))"

definition skip :: "byte \<Rightarrow> bytes \<Rightarrow> bytes option" where
  "skip c s = (case s of [] \<Rightarrow> None | x # xs \<Rightarrow> if x = c then Some xs else None)"

definition parse_year :: "bytes \<Rightarrow> (int \<times> bytes) option" where
  "parse_year s =
     (if 4 \<le> length s \<and> list_all is_digit (take 4 s) then Some (int (dec_val (take 4 s)), drop 4 s)
      else None)"

text \<open>
  The fraction after the seconds: a point and at least one digit. The digits are read as a number,
  which must be below \<open>10 ^ 9\<close>, and scaled to nanoseconds when there are fewer than nine.
\<close>

definition parse_frac :: "bytes \<Rightarrow> (int \<times> bytes) option" where
  "parse_frac s =
     (case s of
        c # d # r \<Rightarrow>
          if c = CHR ''.'' \<and> is_digit d then
            let ds = takeWhile is_digit (d # r); n = dec_val ds
            in if 10 ^ 9 \<le> n then None
               else Some (int n * 10 ^ (9 - length ds), drop (length ds) (d # r))
          else Some (0, s)
      | _ \<Rightarrow> Some (0, s))"

text \<open>The zone \<open>Z\<close> or \<open>+hh:mm\<close>, \<open>-hh:mm\<close>: the offset in seconds.\<close>

definition parse_zone :: "bytes \<Rightarrow> (int \<times> bytes) option" where
  "parse_zone s =
     (case s of
        [] \<Rightarrow> None
      | c # r \<Rightarrow>
          if c = CHR ''Z'' then Some (0, r)
          else if length s < 6 \<or> s ! 3 \<noteq> CHR '':'' then None
          else (case (atoi (take 2 (drop 1 s)), atoi (take 2 (drop 4 s))) of
                  (Some hr, Some mm) \<Rightarrow>
                    let off = (hr * 60 + mm) * 60
                    in if c = CHR ''+'' then Some (off, drop 6 s)
                       else if c = CHR ''-'' then Some (- off, drop 6 s) else None
                | _ \<Rightarrow> None))"

definition parse_rfc3339 :: "bytes \<Rightarrow> gtime option" where
  "parse_rfc3339 s0 =
     Option.bind (parse_year s0) (\<lambda>(y, s).
     Option.bind (skip (CHR ''-'') s) (\<lambda>s.
     Option.bind (getnum s True) (\<lambda>(mo, s). if mo < 1 \<or> 12 < mo then None else
     Option.bind (skip (CHR ''-'') s) (\<lambda>s.
     Option.bind (getnum s True) (\<lambda>(d, s).
     Option.bind (skip (CHR ''T'') s) (\<lambda>s.
     Option.bind (getnum s False) (\<lambda>(h, s). if 24 \<le> h then None else
     Option.bind (skip (CHR '':'') s) (\<lambda>s.
     Option.bind (getnum s True) (\<lambda>(mi, s). if 60 \<le> mi then None else
     Option.bind (skip (CHR '':'') s) (\<lambda>s.
     Option.bind (getnum s True) (\<lambda>(sec, s). if 60 \<le> sec then None else
     Option.bind (parse_frac s) (\<lambda>(ns, s).
     Option.bind (parse_zone s) (\<lambda>(off, s).
       if s \<noteq> [] then None
       else if d < 1 \<or> days_in mo y < d then None
       else Some (date_ns y mo d h mi sec ns - off * ns_per_sec))))))))))))))"

end
