(* ===== verification/Regex.thy ===== *)
theory Regex
  imports Prelude
begin

text \<open>
  Go's \<open>regexp\<close> package, for the operators the program's patterns use: byte classes, greedy
  bounded or unbounded repetition of a class, concatenation, alternation, capturing groups and
  \<open>$\<close> (end of text). \<open>runs\<close> enumerates the ways an expression matches a prefix of the
  text in the order of preference of the package (greedy repetitions prefer more, alternation
  prefers the left branch), each with the texts of its groups and what is left of the input;
  \<open>find_submatch\<close> is the leftmost match, and among the matches that start there the preferred
  one. \<open>matches\<close> is the declarative meaning; \<open>runs\<close> is sound and complete for it, and
  \<open>find_submatch\<close> returns the leftmost start.

  The patterns are matched against bytes. Each negated class and \<open>.\<close> of the program's
  patterns is followed by an ASCII byte or the end of the text and each pattern starts with an
  ASCII byte, so a match never starts or ends inside a multi-byte character and matching bytes
  finds the same text as matching runes.
\<close>

section \<open>Expressions and their matches in order of preference\<close>

datatype re =
    Cls "byte \<Rightarrow> bool"
  | Rep "byte \<Rightarrow> bool" nat "nat option"
  | Eps
  | EndText
  | Seq re re
  | Alt re re
  | Cap re

definition cat :: "re list \<Rightarrow> re" where
  "cat rs = foldr Seq rs Eps"

definition lit :: "bytes \<Rightarrow> re" where
  "lit s = cat (map (\<lambda>c. Cls (\<lambda>x. x = c)) s)"

definition rep_max :: "nat option \<Rightarrow> nat \<Rightarrow> nat" where
  "rep_max M n = (case M of None \<Rightarrow> n | Some k \<Rightarrow> min k n)"

fun runs :: "re \<Rightarrow> bytes \<Rightarrow> (bytes list \<times> bytes) list" where
  "runs (Cls p) s = (case s of [] \<Rightarrow> [] | c # cs \<Rightarrow> if p c then [([], cs)] else [])"
| "runs (Rep p m M) s =
     map (\<lambda>j. ([], drop j s)) (rev [m..<Suc (rep_max M (length (takeWhile p s)))])"
| "runs Eps s = [([], s)]"
| "runs EndText s = (if s = [] then [([], [])] else [])"
| "runs (Seq a b) s =
     concat (map (\<lambda>(cs, s1). map (\<lambda>(ds, s2). (cs @ ds, s2)) (runs b s1)) (runs a s))"
| "runs (Alt a b) s = runs a s @ runs b s"
| "runs (Cap a) s = map (\<lambda>(cs, s1). (take (length s - length s1) s # cs, s1)) (runs a s)"

text \<open>The leftmost match: its start, its end and the texts of its groups.\<close>

fun find_from :: "re \<Rightarrow> nat \<Rightarrow> bytes \<Rightarrow> (nat \<times> nat \<times> bytes list) option" where
  "find_from r i [] =
     (case runs r [] of (cs, rest) # _ \<Rightarrow> Some (i, i, cs) | [] \<Rightarrow> None)"
| "find_from r i (c # s) =
     (case runs r (c # s) of
        (cs, rest) # _ \<Rightarrow> Some (i, i + (length (c # s) - length rest), cs)
      | [] \<Rightarrow> find_from r (Suc i) s)"

definition find_submatch :: "re \<Rightarrow> bytes \<Rightarrow> (nat \<times> nat \<times> bytes list) option" where
  "find_submatch r s = find_from r 0 s"

text \<open>\<open>Regexp.FindIndex\<close>: the start and the end of the match.\<close>

definition find_index :: "re \<Rightarrow> bytes \<Rightarrow> (nat \<times> nat) option" where
  "find_index r s = map_option (\<lambda>(i, j, _). (i, j)) (find_submatch r s)"

section \<open>Declarative meaning\<close>

text \<open>
  \<open>matches r u rest cs\<close>: the expression matches the text \<open>u\<close> when \<open>rest\<close> follows it, with
  groups \<open>cs\<close>.
\<close>

inductive matches :: "re \<Rightarrow> bytes \<Rightarrow> bytes \<Rightarrow> bytes list \<Rightarrow> bool" where
  m_cls: "p c \<Longrightarrow> matches (Cls p) [c] rest []"
| m_rep: "\<forall>c\<in>set u. p c \<Longrightarrow> m \<le> length u \<Longrightarrow> (\<forall>k. M = Some k \<longrightarrow> length u \<le> k) \<Longrightarrow>
     matches (Rep p m M) u rest []"
| m_eps: "matches Eps [] rest []"
| m_end: "matches EndText [] [] []"
| m_seq: "matches a u (v @ rest) cs \<Longrightarrow> matches b v rest ds \<Longrightarrow>
     matches (Seq a b) (u @ v) rest (cs @ ds)"
| m_alt1: "matches a u rest cs \<Longrightarrow> matches (Alt a b) u rest cs"
| m_alt2: "matches b u rest cs \<Longrightarrow> matches (Alt a b) u rest cs"
| m_cap: "matches a u rest cs \<Longrightarrow> matches (Cap a) u rest (u # cs)"

inductive_cases m_ClsE: "matches (Cls p) u rest cs"
inductive_cases m_RepE: "matches (Rep p m M) u rest cs"
inductive_cases m_EpsE: "matches Eps u rest cs"
inductive_cases m_EndE: "matches EndText u rest cs"
inductive_cases m_SeqE: "matches (Seq a b) u rest cs"
inductive_cases m_AltE: "matches (Alt a b) u rest cs"
inductive_cases m_CapE: "matches (Cap a) u rest cs"

inductive_simps matches_Cls [simp]: "matches (Cls p) u rest cs"
inductive_simps matches_Rep: "matches (Rep p m M) u rest cs"
inductive_simps matches_Eps [simp]: "matches Eps u rest cs"
inductive_simps matches_End [simp]: "matches EndText u rest cs"
inductive_simps matches_Seq: "matches (Seq a b) u rest cs"
inductive_simps matches_Alt: "matches (Alt a b) u rest cs"
inductive_simps matches_Cap: "matches (Cap a) u rest cs"

lemma rep_max_le:
  "k \<le> rep_max M n \<longleftrightarrow> k \<le> n \<and> (\<forall>l. M = Some l \<longrightarrow> k \<le> l)"
  by (auto simp: rep_max_def split: option.splits)

lemma takeWhile_ge_iff:
  "j \<le> length (takeWhile p s) \<longleftrightarrow> j \<le> length s \<and> (\<forall>c\<in>set (take j s). p c)"
proof (induction s arbitrary: j)
  case (Cons c s)
  then show ?case by (cases j) auto
qed simp

theorem runs_sound:
  "(cs, rest) \<in> set (runs r s) \<Longrightarrow> \<exists>u. s = u @ rest \<and> matches r u rest cs"
proof (induction r arbitrary: s cs rest)
  case (Rep p m M)
  then obtain j where j: "m \<le> j" "j \<le> rep_max M (length (takeWhile p s))"
    and cs: "cs = []" "rest = drop j s" by auto
  then have "matches (Rep p m M) (take j s) rest cs"
    by (auto simp: rep_max_le takeWhile_ge_iff intro!: m_rep)
  with cs show ?case by (metis append_take_drop_id)
next
  case (Seq a b)
  then obtain c1 s1 c2 where a: "(c1, s1) \<in> set (runs a s)" and b: "(c2, rest) \<in> set (runs b s1)"
    and cs: "cs = c1 @ c2" by auto
  from Seq.IH(1) [OF a] obtain u where u: "s = u @ s1" "matches a u s1 c1" by blast
  from Seq.IH(2) [OF b] obtain v where v: "s1 = v @ rest" "matches b v rest c2" by blast
  from u v cs have "matches (Seq a b) (u @ v) rest cs" by (auto intro: m_seq)
  with u v show ?case by (metis append_assoc)
next
  case (Alt a b)
  then show ?case by (auto dest!: Alt.IH intro: m_alt1 m_alt2)
next
  case (Cap a)
  then obtain c1 where a: "(c1, rest) \<in> set (runs a s)"
    and cs: "cs = take (length s - length rest) s # c1" by auto
  from Cap.IH [OF a] obtain u where "s = u @ rest" "matches a u rest c1" by blast
  with cs show ?case by (auto intro: m_cap)
qed (auto split: list.splits if_splits)

theorem runs_complete:
  "matches r u rest cs \<Longrightarrow> (cs, rest) \<in> set (runs r (u @ rest))"
proof (induction rule: matches.induct)
  case (m_rep u p m M rest)
  then have "length u \<le> rep_max M (length (takeWhile p (u @ rest)))"
    by (simp add: rep_max_le takeWhile_ge_iff)
  with m_rep.hyps have "length u \<in> set (rev [m..<Suc (rep_max M (length (takeWhile p (u @ rest))))])"
    by (auto simp: le_less)
  then have "(\<lambda>j. ([] :: bytes list, drop j (u @ rest))) (length u) \<in> set (runs (Rep p m M) (u @ rest))"
    unfolding runs.simps set_map by (rule imageI)
  then show ?case by simp
next
  case (m_seq a u v rest cs b ds)
  then show ?case by force
next
  case (m_cap a u rest cs)
  then show ?case by force
qed auto

corollary runs_empty_iff: "runs r s = [] \<longleftrightarrow> (\<nexists>u rest cs. s = u @ rest \<and> matches r u rest cs)"
proof
  assume "runs r s = []"
  then show "\<nexists>u rest cs. s = u @ rest \<and> matches r u rest cs"
    using runs_complete by fastforce
next
  assume none: "\<nexists>u rest cs. s = u @ rest \<and> matches r u rest cs"
  show "runs r s = []"
  proof (rule ccontr)
    assume "runs r s \<noteq> []"
    then obtain cs rest xs where "runs r s = (cs, rest) # xs"
      by (cases "runs r s") auto
    then have "(cs, rest) \<in> set (runs r s)" by simp
    with none show False using runs_sound by blast
  qed
qed

section \<open>The leftmost match\<close>

lemma find_from_Some:
  assumes "find_from r i s = Some (a, b, cs)"
  shows "\<exists>pre u rest. s = pre @ u @ rest \<and> a = i + length pre \<and> b = a + length u \<and>
           matches r u rest cs \<and> (\<forall>k < length pre. runs r (drop k s) = [])"
  using assms
proof (induction r i s rule: find_from.induct)
  case (1 r i)
  then obtain rest xs where r: "runs r [] = (cs, rest) # xs" and "a = i" "b = i"
    by (auto split: list.splits)
  then have "(cs, rest) \<in> set (runs r [])" by simp
  then obtain u where "[] = u @ rest" "matches r u rest cs" using runs_sound by blast
  with \<open>a = i\<close> \<open>b = i\<close> show ?case by force
next
  case (2 r i c s)
  show ?case
  proof (cases "runs r (c # s)")
    case Nil
    with 2 obtain pre u rest where ih: "s = pre @ u @ rest" "a = Suc i + length pre"
      "b = a + length u" "matches r u rest cs" "\<forall>k < length pre. runs r (drop k s) = []"
      by auto
    have "\<forall>k < length (c # pre). runs r (drop k (c # s)) = []"
    proof (intro allI impI)
      fix k assume "k < length (c # pre)"
      with Nil ih(5) show "runs r (drop k (c # s)) = []" by (cases k) auto
    qed
    with ih show ?thesis
      by (intro exI [of _ "c # pre"] exI [of _ u] exI [of _ rest]) auto
  next
    case (Cons x xs)
    obtain cs' rest where x: "x = (cs', rest)" by (cases x)
    with Cons 2 have ab: "a = i" "b = i + (length (c # s) - length rest)" "cs' = cs" by auto
    from Cons x ab have "(cs, rest) \<in> set (runs r (c # s))" by simp
    then obtain u where u: "c # s = u @ rest" "matches r u rest cs" using runs_sound by blast
    then have "length (c # s) - length rest = length u" by simp
    with ab u show ?thesis
      by (intro exI [of _ "[]"] exI [of _ u] exI [of _ rest]) auto
  qed
qed

lemma find_from_None:
  "find_from r i s = None \<longleftrightarrow> (\<forall>k \<le> length s. runs r (drop k s) = [])"
proof (induction r i s rule: find_from.induct)
  case (1 r i)
  then show ?case by (auto split: list.splits)
next
  case (2 r i c s)
  show ?case
  proof (cases "runs r (c # s)")
    case Nil
    with 2 have "find_from r i (c # s) = None \<longleftrightarrow> (\<forall>k \<le> length s. runs r (drop k s) = [])"
      by simp
    also have "\<dots> \<longleftrightarrow> (\<forall>k \<le> length (c # s). runs r (drop k (c # s)) = [])"
    proof (intro iffI allI impI)
      fix k assume all: "\<forall>k \<le> length s. runs r (drop k s) = []" and "k \<le> length (c # s)"
      with Nil show "runs r (drop k (c # s)) = []" by (cases k) auto
    next
      fix k assume all: "\<forall>k \<le> length (c # s). runs r (drop k (c # s)) = []" and "k \<le> length s"
      then show "runs r (drop k s) = []" by (auto dest: spec [of _ "Suc k"])
    qed
    finally show ?thesis .
  next
    case (Cons x xs)
    then show ?thesis by (auto split: prod.splits intro: exI [of _ 0])
  qed
qed

text \<open>Nothing matches anywhere in the text.\<close>

definition no_match :: "re \<Rightarrow> bytes \<Rightarrow> bool" where
  "no_match r s \<longleftrightarrow> (\<nexists>pre u rest cs. s = pre @ u @ rest \<and> matches r u rest cs)"

lemma find_submatch_None: "find_submatch r s = None \<longleftrightarrow> no_match r s"
proof -
  have "no_match r s \<longleftrightarrow> (\<forall>k \<le> length s. runs r (drop k s) = [])"
  proof
    assume nm: "no_match r s"
    show "\<forall>k \<le> length s. runs r (drop k s) = []"
    proof (intro allI impI)
      fix k assume "k \<le> length s"
      from nm have "\<nexists>u rest cs. drop k s = u @ rest \<and> matches r u rest cs"
        unfolding no_match_def by (metis append_take_drop_id)
      then show "runs r (drop k s) = []" by (simp add: runs_empty_iff)
    qed
  next
    assume none: "\<forall>k \<le> length s. runs r (drop k s) = []"
    show "no_match r s"
      unfolding no_match_def
    proof clarify
      fix pre u rest cs
      assume s: "s = pre @ u @ rest" and m: "matches r u rest cs"
      from none s have "runs r (drop (length pre) s) = []"
        by (metis length_append le_add1)
      with s have "runs r (u @ rest) = []" by simp
      with m show False using runs_complete by fastforce
    qed
  qed
  then show ?thesis by (simp add: find_submatch_def find_from_None)
qed

lemma find_index_None: "find_index r s = None \<longleftrightarrow> no_match r s"
  by (simp add: find_index_def find_submatch_None)

lemma find_index_Some:
  assumes "find_index r s = Some (a, b)"
  obtains u cs where "s = take a s @ u @ drop b s" and "matches r u (drop b s) cs"
    and "a \<le> b" and "b \<le> length s" and "\<And>k. k < a \<Longrightarrow> runs r (drop k s) = []"
proof -
  from assms obtain cs where "find_from r 0 s = Some (a, b, cs)"
    by (auto simp: find_index_def find_submatch_def)
  from find_from_Some [OF this] obtain pre u rest where
    s: "s = pre @ u @ rest" and a: "a = length pre" and b: "b = a + length u"
    and m: "matches r u rest cs" and left: "\<forall>k < length pre. runs r (drop k s) = []" by auto
  have "take a s = pre" and "drop b s = rest" using s a b by simp_all
  with s a b m left show ?thesis by (intro that [of u cs]) simp_all
qed

section \<open>The preferred match of a pattern\<close>

text \<open>
  \<open>picks r s cs rest\<close>: the preferred way the expression matches a prefix of the text. The
  rules compose it along a concatenation, which is how the round-trip theorems of the log
  parsers compute the groups of a well-formed line.
\<close>

definition picks :: "re \<Rightarrow> bytes \<Rightarrow> bytes list \<Rightarrow> bytes \<Rightarrow> bool" where
  "picks r s cs rest \<longleftrightarrow> (\<exists>xs. runs r s = (cs, rest) # xs)"

lemma picks_Seq:
  assumes "picks a s cs s1" and "picks b s1 ds rest"
  shows "picks (Seq a b) s (cs @ ds) rest"
proof -
  from assms obtain xs ys where "runs a s = (cs, s1) # xs" and "runs b s1 = (ds, rest) # ys"
    by (auto simp: picks_def)
  then show ?thesis by (simp add: picks_def)
qed

lemma picks_Eps: "picks Eps s [] s"
  by (simp add: picks_def)

lemma picks_cat_Nil: "picks (cat []) s [] s"
  by (simp add: cat_def picks_Eps)

lemma picks_cat_Cons:
  "picks r s cs s1 \<Longrightarrow> picks (cat rs) s1 ds rest \<Longrightarrow> picks (cat (r # rs)) s (cs @ ds) rest"
  by (simp add: cat_def picks_Seq)

lemma picks_Cls: "p c \<Longrightarrow> picks (Cls p) (c # s) [] s"
  by (simp add: picks_def)

lemma picks_EndText: "picks EndText [] [] []"
  by (simp add: picks_def)

lemma picks_lit: "picks (lit w) (w @ s) [] s"
proof (induction w)
  case Nil
  then show ?case by (simp add: lit_def picks_cat_Nil)
next
  case (Cons c w)
  then show ?case
    using picks_cat_Cons [OF picks_Cls [where p = "\<lambda>x. x = c"], where ds = "[]" and rest = s]
    by (simp add: lit_def)
qed

lemma picks_Rep:
  assumes "\<forall>c\<in>set u. p c" and "m \<le> length u"
    and "case M of None \<Rightarrow> rest = [] \<or> \<not> p (hd rest)
         | Some k \<Rightarrow> length u \<le> k \<and> (rest = [] \<or> \<not> p (hd rest) \<or> length u = k)"
  shows "picks (Rep p m M) (u @ rest) [] rest"
proof -
  have "rep_max M (length (takeWhile p (u @ rest))) = length u"
  proof (cases "rest = [] \<or> \<not> p (hd rest)")
    case True
    then have "takeWhile p (u @ rest) = u"
      using assms(1) by (rule takeWhile_eq_prefix [rotated])
    with assms(3) show ?thesis by (auto simp: rep_max_def split: option.splits)
  next
    case False
    with assms(3) obtain k where "M = Some k" "length u = k" by (auto split: option.splits)
    moreover from assms(1) have "length u \<le> length (takeWhile p (u @ rest))"
      by (simp add: takeWhile_ge_iff)
    ultimately show ?thesis by (simp add: rep_max_def)
  qed
  with assms(2) show ?thesis by (simp add: picks_def)
qed

lemma picks_Cap:
  assumes "picks r (u @ rest) cs rest"
  shows "picks (Cap r) (u @ rest) (u # cs) rest"
  using assms by (auto simp: picks_def)

lemma picks_Alt1: "picks a s cs rest \<Longrightarrow> picks (Alt a b) s cs rest"
  by (auto simp: picks_def)

lemma picks_Alt2: "runs a s = [] \<Longrightarrow> picks b s cs rest \<Longrightarrow> picks (Alt a b) s cs rest"
  by (auto simp: picks_def)

lemma find_submatch_picks:
  assumes "picks r s cs rest"
  shows "find_submatch r s = Some (0, length s - length rest, cs)"
  using assms by (cases s) (auto simp: picks_def find_submatch_def)

end
