(* ===== verification/Log_Parser.thy ===== *)
theory Log_Parser
  imports Regex RFC5424_Delimiter
begin

text \<open>
  The log-line parsers: \<open>parser/rfc5424.go\<close>, \<open>parser/watchguard.go\<close>, the handler of
  \<open>input/parser.go\<close> that selects one of them, and the second RFC5424 parser and the reader of
  \<open>rfc5424/reader.go\<close>. A Go \<open>map[string]interface{}\<close> whose values are integers and strings is an
  association list; the keys of every map the program builds are distinct. The stats callbacks
  appear as the key they are called with.
\<close>

section \<open>Model\<close>

datatype gval = GInt int | GStr bytes

type_synonym fields = "(string \<times> gval) list"

text \<open>The character classes of the patterns.\<close>

definition is_space :: "byte \<Rightarrow> bool" where [byte_class]:
  "is_space c \<longleftrightarrow> c \<in> {CHR 0x09, LF, CHR 0x0C, CR, CHR '' ''}"

definition not_blank :: "byte \<Rightarrow> bool" where [byte_class]:
  "not_blank c \<longleftrightarrow> c \<noteq> CHR '' ''"

definition is_word :: "byte \<Rightarrow> bool" where [byte_class]:
  "is_word c \<longleftrightarrow> is_digit c \<or> (65::nat) \<le> of_char c \<and> of_char c \<le> (90::nat) \<or>
     (97::nat) \<le> of_char c \<and> of_char c \<le> (122::nat) \<or> c = CHR ''_''"

definition is_range :: "byte \<Rightarrow> byte \<Rightarrow> byte \<Rightarrow> bool" where [byte_class]:
  "is_range lo hi c \<longleftrightarrow> (of_char lo :: nat) \<le> of_char c \<and> (of_char c :: nat) \<le> of_char hi"

abbreviation re_space :: re where "re_space \<equiv> Cls is_space"
abbreviation re_field :: re where "re_field \<equiv> Cap (Rep not_blank 1 None)"
abbreviation re_msg :: re where "re_msg \<equiv> Cap (Seq (Rep (\<lambda>_. True) 1 None) EndText)"
abbreviation re_pid :: re where "re_pid \<equiv> Cap (Alt (lit ''-'') (Rep is_digit 1 (Some 5)))"
abbreviation re_id :: re where "re_id \<equiv> Cap (Rep (\<lambda>c. is_word c \<or> c = CHR ''-'') 1 None)"

subsection \<open>parser/rfc5424.go\<close>

definition RFC5424_Init :: re where
  "RFC5424_Init =
     cat [lit ''<'', Cap (Rep is_digit 1 (Some 3)), lit ''>'', Cap (Cls is_digit),
          re_space, re_field, re_space, re_field, re_space, re_field,
          re_space, re_pid, re_space, re_id, re_space, re_msg]"

text \<open>\<open>v, _ := strconv.Atoi(s)\<close>: the number, with the error ignored.\<close>

definition atoi_val :: "bytes \<Rightarrow> int" where
  "atoi_val s = (case atoi s of Some v \<Rightarrow> v | None \<Rightarrow> atoi_err_val s)"

text \<open>\<open>FindStringSubmatch\<close>: the text of the match followed by the texts of the groups.\<close>

definition find_string_submatch :: "re \<Rightarrow> bytes \<Rightarrow> bytes list option" where
  "find_string_submatch r s =
     map_option (\<lambda>(i, j, cs). take (j - i) (drop i s) # cs) (find_submatch r s)"

definition rfc5424_fields :: "bytes list \<Rightarrow> fields" where
  "rfc5424_fields m =
     [(''priority'', GInt (atoi_val (m ! 1))),
      (''version'', GInt (atoi_val (m ! 2))),
      (''timestamp'', GStr (m ! 3)),
      (''host'', GStr (m ! 4)),
      (''app'', GStr (m ! 5)),
      (''pid'', GInt (if m ! 6 \<noteq> ''-'' then atoi_val (m ! 6) else 0)),
      (''message_id'', GStr (m ! 7)),
      (''message'', GStr (m ! 8))]"

definition RFC5424_Parse :: "re \<Rightarrow> bytes \<Rightarrow> fields \<Rightarrow> fields \<times> string" where
  "RFC5424_Parse matcher raw result =
     (case find_string_submatch matcher raw of
        None \<Rightarrow> (result, ''rfc5424Unparsed'')
      | Some m \<Rightarrow>
          if length m \<noteq> 9 then (result, ''rfc5424Unparsed'')
          else (rfc5424_fields m, ''rfc5424Parsed''))"

subsection \<open>parser/watchguard.go\<close>

definition watchguard_dtg :: re where
  "watchguard_dtg =
     cat [Cls (\<lambda>c. c \<in> set ''ADFJMNOS''), Rep (is_range (CHR ''a'') (CHR ''z'')) 2 (Some 2),
          re_space, Rep is_digit 1 (Some 2), re_space,
          Cls (is_range (CHR ''0'') (CHR ''2'')), Cls is_digit, lit '':'',
          Rep (is_range (CHR ''0'') (CHR ''5'')) 0 (Some 1), Cls is_digit, lit '':'',
          Rep (is_range (CHR ''0'') (CHR ''5'')) 0 (Some 1), Cls is_digit]"

definition Watchguard_Init :: re where
  "Watchguard_Init =
     cat [lit ''<'', Cap (Rep is_digit 1 (Some 3)), lit ''>'', Cap watchguard_dtg,
          re_space, re_field, re_space, re_field, re_space, lit ''('',
          re_field, lit '')'', re_space, re_field, re_space, lit ''msg_id=\"'',
          Cap (Rep (\<lambda>c. is_digit c \<or> c = CHR ''-'') 1 None), lit ''\"'', re_space,
          re_field, re_space, re_field, re_space, re_field, re_space, re_msg]"

definition watchguard_fields :: "bytes list \<Rightarrow> fields" where
  "watchguard_fields m =
     [(''priority'', GInt (atoi_val (m ! 1))),
      (''local_dtg'', GStr (m ! 2)),
      (''model_name'', GStr (m ! 3)),
      (''serial_no'', GStr (m ! 4)),
      (''timestamp'', GStr (m ! 5)),
      (''component'', GStr (m ! 6)),
      (''msg_id'', GStr (m ! 7)),
      (''disposition'', GStr (m ! 8)),
      (''src_intf'', GStr (m ! 9)),
      (''dst_intf'', GStr (m ! 10)),
      (''message'', GStr (m ! 11))]"

definition Watchguard_Parse :: "re \<Rightarrow> bytes \<Rightarrow> fields \<Rightarrow> fields \<times> string" where
  "Watchguard_Parse matcher raw result =
     (case find_string_submatch matcher raw of
        None \<Rightarrow> (result, ''WatchguardM200Unparsed'')
      | Some m \<Rightarrow>
          if length m \<noteq> 12 then (result, ''WatchguardM200Unparsed'')
          else (watchguard_fields m, ''WatchguardM200Parsed''))"

subsection \<open>input/parser.go\<close>

abbreviation RFC5424Standard :: string where "RFC5424Standard \<equiv> ''RFC5424''"
abbreviation RFC5424Name :: string where "RFC5424Name \<equiv> ''syslog''"
abbreviation WatchguardFirebox :: string where "WatchguardFirebox \<equiv> ''Watchguard''"
abbreviation WatchguardName :: string where "WatchguardName \<equiv> ''M200''"

text \<open>The implementations of the interface \<open>LogParser\<close>, with the matcher \<open>Init\<close> has set.\<close>

datatype LogParser = RFC5424 re | Watchguard re

fun LogParser_Parse :: "LogParser \<Rightarrow> bytes \<Rightarrow> fields \<Rightarrow> fields \<times> string" where
  "LogParser_Parse (RFC5424 m) raw result = RFC5424_Parse m raw result"
| "LogParser_Parse (Watchguard m) raw result = Watchguard_Parse m raw result"

record LogHandler =
  Fmt :: string
  Raw :: bytes
  Res :: fields
  Parser :: LogParser

definition supportedFormats :: "string list list" where
  "supportedFormats = [[RFC5424Name, RFC5424Standard], [WatchguardName, WatchguardFirebox]]"

definition ValidFormat :: "string \<Rightarrow> bool" where
  "ValidFormat f = list_ex (\<lambda>v. v ! 0 = f \<or> v ! 1 = f) supportedFormats"

text \<open>
  \<open>NewParser\<close>: \<open>Inl\<close> the error text. The last branch of the source's \<open>if\<close> chain is not taken
  after \<open>ValidFormat\<close> (it would leave the parser nil and panic in \<open>Init\<close>).
\<close>

definition NewParser :: "string \<Rightarrow> string + LogHandler" where
  "NewParser f =
     (if \<not> ValidFormat f then Inl (f @ '' is not a valid parser format'')
      else if f = RFC5424Name \<or> f = RFC5424Standard
      then Inr \<lparr>Fmt = RFC5424Standard, Raw = [], Res = [], Parser = RFC5424 RFC5424_Init\<rparr>
      else if f = WatchguardName \<or> f = WatchguardFirebox
      then Inr \<lparr>Fmt = WatchguardFirebox, Raw = [], Res = [], Parser = Watchguard Watchguard_Init\<rparr>
      else Inl ''nil parser'')"

definition LogHandler_Parse :: "LogHandler \<Rightarrow> bytes \<Rightarrow> LogHandler \<times> bool" where
  "LogHandler_Parse p b =
     (let p1 = p\<lparr>Res := [], Raw := b\<rparr>;
          p2 = p1\<lparr>Res := fst (LogParser_Parse (Parser p1) (Raw p1) (Res p1))\<rparr>
      in if length (Res p2) = 0 then (p2, False) else (p2, True))"

subsection \<open>rfc5424/reader.go\<close>

record Reader =
  reader_d :: Delimiter
  reader_p :: re

definition compileMatcher :: re where
  "compileMatcher =
     cat [lit ''<'', Cap (Rep is_digit 1 (Some 3)), lit ''>'', Cap (Cls is_digit),
          re_space, re_field, re_space, re_field, re_space, re_field,
          re_space, re_pid, re_space, re_id, re_space, re_msg]"

definition NewReader :: "bytes \<Rightarrow> read_error \<Rightarrow> Reader" where
  "NewReader input e = \<lparr>reader_d = NewDelimiter input e, reader_p = compileMatcher\<rparr>"

definition Reader_ReadLine :: "Reader \<Rightarrow> Reader \<times> bytes \<times> read_error option" where
  "Reader_ReadLine r = (r, [], None)"

definition rfc5424_parse :: "re \<Rightarrow> bytes \<Rightarrow> fields \<Rightarrow> fields" where
  "rfc5424_parse matcher raw result =
     (case find_string_submatch matcher raw of
        None \<Rightarrow> result
      | Some m \<Rightarrow>
          if length m \<noteq> 9 then result
          else [(''priority'', GInt (atoi_val (m ! 1))),
                (''version'', GInt (atoi_val (m ! 2))),
                (''timestamp'', GStr (m ! 3)),
                (''host'', GStr (m ! 4)),
                (''app'', GStr (m ! 5)),
                (''pid'', GInt (if m ! 6 \<noteq> ''-'' then atoi_val (m ! 6) else 0)),
                (''message_id'', GStr (m ! 7)),
                (''message'', GStr (m ! 8))])"

section \<open>The preferred match of each piece\<close>

lemma find_string_submatch_picks:
  "picks r s cs rest \<Longrightarrow> find_string_submatch r s = Some (take (length s - length rest) s # cs)"
  by (simp add: find_string_submatch_def find_submatch_picks)

lemma picks_field:
  assumes "u \<noteq> []" and "CHR '' '' \<notin> set u"
  shows "picks re_field (u @ CHR '' '' # s) [u] (CHR '' '' # s)"
proof (rule picks_Cap)
  show "picks (Rep not_blank 1 None) (u @ CHR '' '' # s) [] (CHR '' '' # s)"
    using assms by (intro picks_Rep) (auto simp: not_blank_def Suc_le_eq)
qed

lemma picks_space: "picks re_space (CHR '' '' # s) [] s"
  by (rule picks_Cls) (simp add: is_space_def)

lemma picks_pri:
  assumes "list_all is_digit ds" and "1 \<le> length ds" and "length ds \<le> 3"
  shows "picks (Cap (Rep is_digit 1 (Some 3))) (ds @ CHR ''>'' # s) [ds] (CHR ''>'' # s)"
  using assms by (intro picks_Cap picks_Rep) (auto simp: list_all_iff)

lemma picks_ver:
  assumes "is_digit v"
  shows "picks (Cap (Cls is_digit)) (v # s) [[v]] s"
  using picks_Cap [of "Cls is_digit" "[v]" s "[]"] picks_Cls [of is_digit, OF assms] by simp

lemma picks_pid:
  assumes "pid = ''-'' \<or> list_all is_digit pid \<and> 1 \<le> length pid \<and> length pid \<le> 5"
  shows "picks re_pid (pid @ CHR '' '' # s) [pid] (CHR '' '' # s)"
proof (rule picks_Cap)
  show "picks (Alt (lit ''-'') (Rep is_digit 1 (Some 5))) (pid @ CHR '' '' # s) [] (CHR '' '' # s)"
  proof (cases "pid = ''-''")
    case True
    then show ?thesis using picks_Alt1 [OF picks_lit [of "''-''"]] by simp
  next
    case False
    with assms have d: "list_all is_digit pid" "1 \<le> length pid" "length pid \<le> 5" by auto
    then obtain c cs where "pid = c # cs" "is_digit c" by (cases pid) auto
    then have "runs (lit ''-'') (pid @ CHR '' '' # s) = []"
      by (auto simp: lit_def cat_def)
    moreover have "picks (Rep is_digit 1 (Some 5)) (pid @ CHR '' '' # s) [] (CHR '' '' # s)"
      using d by (intro picks_Rep) (auto simp: list_all_iff)
    ultimately show ?thesis by (rule picks_Alt2)
  qed
qed

definition is_id :: "bytes \<Rightarrow> bool" where
  "is_id u \<longleftrightarrow> u \<noteq> [] \<and> list_all (\<lambda>c. is_word c \<or> c = CHR ''-'') u"

lemma picks_id:
  assumes "is_id u"
  shows "picks re_id (u @ CHR '' '' # s) [u] (CHR '' '' # s)"
  using assms
  by (intro picks_Cap picks_Rep) (auto simp: is_id_def list_all_iff Suc_le_eq is_word_def is_digit_def)

lemma picks_msg:
  assumes "u \<noteq> []"
  shows "picks re_msg u [u] []"
proof -
  have "picks (Rep (\<lambda>_. True) 1 None) (u @ []) [] []"
    using assms by (intro picks_Rep) (auto simp: Suc_le_eq)
  from picks_Seq [OF this picks_EndText] have "picks (Seq (Rep (\<lambda>_. True) 1 None) EndText) (u @ []) [] []"
    by simp
  from picks_Cap [OF this] show ?thesis by simp
qed

section \<open>RFC5424 lines\<close>

definition rfc5424_line ::
  "bytes \<Rightarrow> byte \<Rightarrow> bytes \<Rightarrow> bytes \<Rightarrow> bytes \<Rightarrow> bytes \<Rightarrow> bytes \<Rightarrow> bytes \<Rightarrow> bytes" where
  "rfc5424_line pri ver ts host app pid mid msg =
     ''<'' @ pri @ ''>'' @ [ver] @ '' '' @ ts @ '' '' @ host @ '' '' @ app @ '' '' @ pid @ '' '' @ mid @ '' '' @ msg"

definition field_ok :: "bytes \<Rightarrow> bool" where
  "field_ok u \<longleftrightarrow> u \<noteq> [] \<and> CHR '' '' \<notin> set u"

definition pid_ok :: "bytes \<Rightarrow> bool" where
  "pid_ok pid \<longleftrightarrow> pid = ''-'' \<or> list_all is_digit pid \<and> 1 \<le> length pid \<and> length pid \<le> 5"

definition pri_ok :: "bytes \<Rightarrow> bool" where
  "pri_ok ds \<longleftrightarrow> list_all is_digit ds \<and> 1 \<le> length ds \<and> length ds \<le> 3"

lemmas picks_pieces = picks_lit [of "''<''", simplified] picks_lit [of "''>''", simplified]

lemma picks_rfc5424:
  assumes "pri_ok pri" and "is_digit ver" and "field_ok ts" and "field_ok host" and "field_ok app"
    and "pid_ok pid" and "is_id mid" and "msg \<noteq> []"
  shows "picks RFC5424_Init (rfc5424_line pri ver ts host app pid mid msg)
    [pri, [ver], ts, host, app, pid, mid, msg] []"
proof -
  note end' = picks_cat_Cons [OF picks_msg [OF assms(8)] picks_cat_Nil]
  note mid' = picks_cat_Cons [OF picks_space picks_cat_Cons [OF picks_id [OF assms(7)]
      picks_cat_Cons [OF picks_space end']]]
  note pid' = picks_cat_Cons [OF picks_space picks_cat_Cons [OF
      picks_pid [OF assms(6) [unfolded pid_ok_def]] mid']]
  note fld = picks_cat_Cons [OF picks_space picks_cat_Cons [OF picks_field]]
  note app' = fld [OF conjunct1 [OF assms(5) [unfolded field_ok_def]]
      conjunct2 [OF assms(5) [unfolded field_ok_def]] pid']
  note host' = fld [OF conjunct1 [OF assms(4) [unfolded field_ok_def]]
      conjunct2 [OF assms(4) [unfolded field_ok_def]] app']
  note ts' = fld [OF conjunct1 [OF assms(3) [unfolded field_ok_def]]
      conjunct2 [OF assms(3) [unfolded field_ok_def]] host']
  note ver' = picks_cat_Cons [OF picks_ver [OF assms(2)] ts']
  have pri: "list_all is_digit pri" "1 \<le> length pri" "length pri \<le> 3"
    using assms(1) by (simp_all add: pri_ok_def)
  note pri' = picks_cat_Cons [OF picks_pieces(1) picks_cat_Cons [OF picks_pri [OF pri]
      picks_cat_Cons [OF picks_pieces(2) ver']]]
  from pri' show ?thesis
    by (simp add: RFC5424_Init_def rfc5424_line_def)
qed

lemma atoi_val_digits:
  assumes "list_all is_digit ds" and "1 \<le> length ds" and "length ds \<le> 5"
  shows "atoi_val ds = int (dec_val ds)"
proof -
  have "dec_val ds < 10 ^ length ds" using assms(1) by (rule dec_val_bound)
  also have "(10::nat) ^ length ds \<le> 10 ^ 5" using assms(3) by (intro power_increasing) auto
  finally have "int (dec_val ds) \<le> max_int" by (simp add: max_int_def)
  moreover have "ds \<noteq> []" using assms(2) by auto
  ultimately show ?thesis using assms(1) by (simp add: atoi_val_def atoi_of_digits)
qed

section \<open>What a successful parse says about the text\<close>

lemma find_string_submatch_Some:
  assumes "find_string_submatch r s = Some m"
  obtains pre u rest cs where "s = pre @ u @ rest" and "matches r u rest cs" and "m = u # cs"
proof -
  from assms obtain i j cs where f: "find_from r 0 s = Some (i, j, cs)"
    and m: "m = take (j - i) (drop i s) # cs"
    by (auto simp: find_string_submatch_def find_submatch_def)
  from find_from_Some [OF f] obtain pre u rest where
    "s = pre @ u @ rest" "i = length pre" "j = i + length u" "matches r u rest cs" by auto
  with m show ?thesis by (intro that [of pre u rest cs]) simp_all
qed

lemma find_string_submatch_None:
  "find_string_submatch r s = None \<longleftrightarrow> no_match r s"
  by (simp add: find_string_submatch_def find_submatch_None)

text \<open>A line as the pattern accepts it: any of the five blanks of the class \<open>s\<close> separates fields.\<close>

inductive rfc5424_shape :: "bytes \<Rightarrow> bytes list \<Rightarrow> bool" where
  rfc5424_shapeI: "list_all is_space [b1, b2, b3, b4, b5, b6] \<Longrightarrow>
    pri_ok pri \<Longrightarrow> is_digit ver \<Longrightarrow> field_ok ts \<Longrightarrow> field_ok host \<Longrightarrow> field_ok app \<Longrightarrow>
    pid_ok pid \<Longrightarrow> is_id mid \<Longrightarrow> msg \<noteq> [] \<Longrightarrow>
    rfc5424_shape
      (CHR ''<'' # pri @ CHR ''>'' # ver # b1 # ts @ b2 # host @ b3 # app @ b4 # pid @ b5 # mid @ b6 # msg)
      [pri, [ver], ts, host, app, pid, mid, msg]"

lemma matches_cat_Cons:
  "matches (cat (r # rs)) u rest cs \<longleftrightarrow>
     (\<exists>v w c d. u = v @ w \<and> cs = c @ d \<and> matches r v (w @ rest) c \<and> matches (cat rs) w rest d)"
  by (auto simp: cat_def matches_Seq)

lemma matches_cat_Nil: "matches (cat []) u rest cs \<longleftrightarrow> u = [] \<and> cs = []"
  by (auto simp: cat_def)

lemma matches_lit: "matches (lit w) u rest cs \<longleftrightarrow> u = w \<and> cs = []"
proof (induction w arbitrary: u rest cs)
  case Nil
  then show ?case by (simp add: lit_def matches_cat_Nil)
next
  case (Cons c w)
  then show ?case by (auto simp: lit_def matches_cat_Cons)
qed

lemma matches_field: "matches re_field u rest cs \<longleftrightarrow> field_ok u \<and> cs = [u]"
  by (auto simp: matches_Cap matches_Rep field_ok_def not_blank_def Suc_le_eq)

lemma matches_msg: "matches re_msg u rest cs \<longleftrightarrow> rest = [] \<and> u \<noteq> [] \<and> cs = [u]"
  by (auto simp: matches_Cap matches_Seq matches_Rep Suc_le_eq)

lemma matches_pid: "matches re_pid u rest cs \<longleftrightarrow> pid_ok u \<and> cs = [u]"
  by (auto simp: matches_Cap matches_Alt matches_lit matches_Rep pid_ok_def list_all_iff)

lemma matches_id: "matches re_id u rest cs \<longleftrightarrow> is_id u \<and> cs = [u]"
  by (auto simp: matches_Cap matches_Rep is_id_def list_all_iff Suc_le_eq)

lemma matches_pri: "matches (Cap (Rep is_digit 1 (Some 3))) u rest cs \<longleftrightarrow> pri_ok u \<and> cs = [u]"
  by (auto simp: matches_Cap matches_Rep pri_ok_def list_all_iff)

lemma matches_ver: "matches (Cap (Cls is_digit)) u rest cs \<longleftrightarrow> (\<exists>v. u = [v] \<and> is_digit v) \<and> cs = [u]"
  by (auto simp: matches_Cap)

lemma matches_cat_lit:
  "matches (cat (lit w # rs)) u rest cs \<longleftrightarrow> (\<exists>t. u = w @ t \<and> matches (cat rs) t rest cs)"
  by (auto simp: matches_cat_Cons matches_lit)

lemma matches_cat_Cls:
  "matches (cat (Cls p # rs)) u rest cs \<longleftrightarrow> (\<exists>b t. u = b # t \<and> p b \<and> matches (cat rs) t rest cs)"
proof
  assume "\<exists>b t. u = b # t \<and> p b \<and> matches (cat rs) t rest cs"
  then obtain b t where "u = [b] @ t" "p b" "matches (cat rs) t rest cs" by auto
  then show "matches (cat (Cls p # rs)) u rest cs"
    unfolding matches_cat_Cons by (metis append_Nil m_cls)
qed (auto simp: matches_cat_Cons)

lemma matches_cat_group:
  assumes "\<And>u rest cs. matches r u rest cs \<longleftrightarrow> P u \<and> cs = [u]"
  shows "matches (cat (r # rs)) u rest cs \<longleftrightarrow>
    (\<exists>v t d. u = v @ t \<and> P v \<and> cs = v # d \<and> matches (cat rs) t rest d)"
  by (auto simp: matches_cat_Cons assms)

lemma matches_cat_msg:
  "matches (cat [re_msg]) u rest cs \<longleftrightarrow> rest = [] \<and> u \<noteq> [] \<and> cs = [u]"
  unfolding matches_cat_Cons matches_cat_Nil matches_msg by auto

lemmas matches_steps = matches_cat_lit matches_cat_msg matches_cat_group [OF matches_pri]
  matches_cat_group [OF matches_ver] matches_cat_group [OF matches_field]
  matches_cat_group [OF matches_pid] matches_cat_group [OF matches_id] matches_cat_Cls

lemma matches_rfc5424:
  "matches RFC5424_Init u rest cs \<longleftrightarrow> rest = [] \<and> rfc5424_shape u cs"
proof
  assume "matches RFC5424_Init u rest cs"
  then show "rest = [] \<and> rfc5424_shape u cs"
    unfolding RFC5424_Init_def matches_steps
    by (elim exE conjE, hypsubst, unfold append_Cons append_Nil, intro conjI refl rfc5424_shapeI) simp_all
next
  assume "rest = [] \<and> rfc5424_shape u cs"
  then have r: "rest = []" and "rfc5424_shape u cs" by simp_all
  from this(2) show "matches RFC5424_Init u rest cs"
  proof cases
    case (rfc5424_shapeI b1 b2 b3 b4 b5 b6 pri ver ts host app pid mid msg)
    then show ?thesis unfolding RFC5424_Init_def matches_steps r by auto
  qed
qed

section \<open>Watchguard lines\<close>

text \<open>
  The group of the UTC time is followed by a closing parenthesis, which the group itself can match:
  the greedy choice takes one byte too many and is given up. Choices that fail later are skipped.
\<close>

lemma picks_Seq_skip:
  assumes "runs a s = xs @ (cs, s1) # ys" and "\<forall>(c, t)\<in>set xs. runs b t = []"
    and "picks b s1 ds rest"
  shows "picks (Seq a b) s (cs @ ds) rest"
proof -
  let ?f = "\<lambda>(cs, s1). map (\<lambda>(ds, s2). (cs @ ds, s2)) (runs b s1)"
  from assms(3) obtain zs where z: "runs b s1 = (ds, rest) # zs" by (auto simp: picks_def)
  have none: "concat (map ?f xs) = []"
    using assms(2) by (induction xs) auto
  have "runs (Seq a b) s = concat (map ?f xs) @ ?f (cs, s1) @ concat (map ?f ys)"
    by (simp only: runs.simps assms(1) map_append concat_append list.map concat.simps)
  also have "\<dots> = (cs @ ds, rest) # (map (\<lambda>(ds, s2). (cs @ ds, s2)) zs @ concat (map ?f ys))"
    using none z by simp
  finally show ?thesis by (auto simp: picks_def)
qed

lemma runs_field_paren:
  assumes "field_ok u"
  shows "\<exists>ys. runs re_field (u @ CHR '')'' # CHR '' '' # s) =
    [([u @ [CHR '')'']], CHR '' '' # s)] @ ([u], CHR '')'' # CHR '' '' # s) # ys"
proof -
  let ?s = "(u @ [CHR '')'']) @ CHR '' '' # s"
  have "takeWhile not_blank ?s = u @ [CHR '')'']"
    using assms by (intro takeWhile_eq_prefix) (auto simp: field_ok_def not_blank_def)
  then have n: "rep_max None (length (takeWhile not_blank ?s)) = Suc (length u)" by (simp add: rep_max_def)
  moreover have "1 \<le> length u" using assms by (simp add: field_ok_def Suc_le_eq)
  ultimately have "runs (Rep not_blank 1 None) ?s =
      ([], CHR '' '' # s) # ([], CHR '')'' # CHR '' '' # s) # map (\<lambda>j. ([], drop j ?s)) (rev [1..<length u])"
    by simp
  then show ?thesis by simp
qed

lemma picks_paren_field:
  assumes "field_ok u" and "picks (cat rs) (CHR '' '' # s) ds rest"
  shows "picks (cat (re_field # lit '')'' # rs)) (u @ CHR '')'' # CHR '' '' # s) (u # ds) rest"
proof -
  obtain ys where r: "runs re_field (u @ CHR '')'' # CHR '' '' # s) =
      [([u @ [CHR '')'']], CHR '' '' # s)] @ ([u], CHR '')'' # CHR '' '' # s) # ys"
    using runs_field_paren [OF assms(1)] by blast
  have "runs (cat (lit '')'' # rs)) (CHR '' '' # s) = []"
    by (simp add: cat_def lit_def)
  moreover have "picks (cat (lit '')'' # rs)) (CHR '')'' # CHR '' '' # s) ds rest"
    using picks_cat_Cons [OF picks_lit [of "'')''"] assms(2)] by simp
  ultimately have "picks (Seq re_field (cat (lit '')'' # rs))) (u @ CHR '')'' # CHR '' '' # s) ([u] @ ds) rest"
    using r by (intro picks_Seq_skip [OF r]) auto
  then show ?thesis by (simp add: cat_def)
qed

text \<open>A local time \<open>Mon dd hh:mm:ss\<close> with two digits each.\<close>

definition dtg_ok :: "bytes \<Rightarrow> bool" where
  "dtg_ok u \<longleftrightarrow> (\<exists>a b c d1 d2 h1 h2 m1 m2 s1 s2.
     u = [a, b, c, CHR '' '', d1, d2, CHR '' '', h1, h2, CHR '':'', m1, m2, CHR '':'', s1, s2] \<and>
     a \<in> set ''ADFJMNOS'' \<and> is_range (CHR ''a'') (CHR ''z'') b \<and> is_range (CHR ''a'') (CHR ''z'') c \<and>
     list_all is_digit [d1, d2, h2, m2, s2] \<and> is_range (CHR ''0'') (CHR ''2'') h1 \<and>
     is_range (CHR ''0'') (CHR ''5'') m1 \<and> is_range (CHR ''0'') (CHR ''5'') s1)"

lemma picks_Rep1:
  "p c \<Longrightarrow> picks (Rep p 0 (Some 1)) (c # s) [] s"
  using picks_Rep [where u = "[c]" and p = p and m = 0 and M = "Some 1" and rest = s] by simp

lemma picks_Rep2:
  "p c \<Longrightarrow> p d \<Longrightarrow> m \<le> 2 \<Longrightarrow> picks (Rep p m (Some 2)) (c # d # s) [] s"
  using picks_Rep [where u = "[c, d]" and p = p and m = m and M = "Some 2" and rest = s] by simp

lemma picks_colon: "picks (lit '':'') (CHR '':'' # s) [] s"
  using picks_lit [of "'':''" s] by simp

lemma picks_dtg:
  assumes "dtg_ok u"
  shows "picks (Cap watchguard_dtg) (u @ rest) [u] rest"
proof (rule picks_Cap)
  from assms obtain a b c d1 d2 h1 h2 m1 m2 s1 s2 where
    u: "u = [a, b, c, CHR '' '', d1, d2, CHR '' '', h1, h2, CHR '':'', m1, m2, CHR '':'', s1, s2]"
    and ok: "a \<in> set ''ADFJMNOS''" "is_range (CHR ''a'') (CHR ''z'') b" "is_range (CHR ''a'') (CHR ''z'') c"
    "is_digit d1" "is_digit d2" "is_digit h2" "is_digit m2" "is_digit s2" "is_range (CHR ''0'') (CHR ''2'') h1"
    "is_range (CHR ''0'') (CHR ''5'') m1" "is_range (CHR ''0'') (CHR ''5'') s1"
    by (auto simp: dtg_ok_def)
  note c = picks_cat_Cons
  note secs = c [OF picks_Rep1 [of "is_range (CHR ''0'') (CHR ''5'')", OF ok(11)]
      c [OF picks_Cls [of is_digit, OF ok(8)] picks_cat_Nil]]
  note mins = c [OF picks_Rep1 [of "is_range (CHR ''0'') (CHR ''5'')", OF ok(10)]
      c [OF picks_Cls [of is_digit, OF ok(7)] c [OF picks_colon secs]]]
  note hours = c [OF picks_Cls [of "is_range (CHR ''0'') (CHR ''2'')", OF ok(9)]
      c [OF picks_Cls [of is_digit, OF ok(6)] c [OF picks_colon mins]]]
  note days = c [OF picks_space c [OF picks_Rep2 [of is_digit, OF ok(4,5)] c [OF picks_space hours]]]
  note all = c [OF picks_Cls [of "\<lambda>c. c \<in> set ''ADFJMNOS''", OF ok(1)]
      c [OF picks_Rep2 [of "is_range (CHR ''a'') (CHR ''z'')", OF ok(2,3)] days]]
  from all [of 2 1 rest] show "picks watchguard_dtg (u @ rest) [] rest"
    by (simp add: watchguard_dtg_def u)
qed

definition watchguard_line :: "bytes \<Rightarrow> bytes \<Rightarrow> bytes \<Rightarrow> bytes \<Rightarrow> bytes \<Rightarrow> bytes \<Rightarrow> bytes \<Rightarrow> bytes \<Rightarrow>
    bytes \<Rightarrow> bytes \<Rightarrow> bytes \<Rightarrow> bytes" where
  "watchguard_line pri dtg model serial utc compo mid disp src dst msg =
     ''<'' @ pri @ ''>'' @ dtg @ '' '' @ model @ '' '' @ serial @ '' '' @ ''('' @ utc @ '')'' @ '' '' @ compo @
     '' '' @ ''msg_id=\"'' @ mid @ ''\"'' @ '' '' @ disp @ '' '' @ src @ '' '' @ dst @ '' '' @ msg"

definition msg_id_ok :: "bytes \<Rightarrow> bool" where
  "msg_id_ok u \<longleftrightarrow> u \<noteq> [] \<and> list_all (\<lambda>c. is_digit c \<or> c = CHR ''-'') u"

lemma picks_msg_id:
  assumes "msg_id_ok u"
  shows "picks (Cap (Rep (\<lambda>c. is_digit c \<or> c = CHR ''-'') 1 None)) (u @ CHR ''\"'' # s) [u] (CHR ''\"'' # s)"
  using assms
  by (intro picks_Cap picks_Rep) (auto simp: msg_id_ok_def list_all_iff Suc_le_eq is_digit_def)

lemma picks_watchguard:
  assumes "pri_ok pri" and "dtg_ok dtg" and "field_ok model" and "field_ok serial" and "field_ok utc"
    and "field_ok compo" and "msg_id_ok mid" and "field_ok disp" and "field_ok src" and "field_ok dst"
    and "msg \<noteq> []"
  shows "picks Watchguard_Init (watchguard_line pri dtg model serial utc compo mid disp src dst msg)
    [pri, dtg, model, serial, utc, compo, mid, disp, src, dst, msg] []"
proof -
  have fld: "picks (cat (re_field # rs)) (u @ CHR '' '' # s) (u # ds) rest"
    if "field_ok u" "picks (cat rs) (CHR '' '' # s) ds rest" for u rs s ds rest
    using picks_cat_Cons [OF picks_field that(2)] that(1) by (simp add: field_ok_def)
  note sp = picks_cat_Cons [OF picks_space]
  note end' = sp [OF picks_cat_Cons [OF picks_msg [OF assms(11)] picks_cat_Nil]]
  note tail = sp [OF fld [OF assms(8) sp [OF fld [OF assms(9) sp [OF fld [OF assms(10) end']]]]]]
  note quote = picks_cat_Cons [OF picks_lit [of "''\"''", simplified] tail]
  note mid' = picks_cat_Cons [OF picks_msg_id [OF assms(7)] quote]
  note compo' = sp [OF fld [OF assms(6) sp [OF picks_cat_Cons [OF picks_lit [of "''msg_id=\"''"] mid']]]]
  note utc' = picks_cat_Cons [OF picks_lit [of "''(''", simplified] picks_paren_field [OF assms(5) compo']]
  note names = sp [OF fld [OF assms(3) sp [OF fld [OF assms(4) sp [OF utc']]]]]
  have pri: "list_all is_digit pri" "1 \<le> length pri" "length pri \<le> 3"
    using assms(1) by (simp_all add: pri_ok_def)
  note all = picks_cat_Cons [OF picks_pieces(1) picks_cat_Cons [OF picks_pri [OF pri]
      picks_cat_Cons [OF picks_pieces(2) picks_cat_Cons [OF picks_dtg [OF assms(2)] names]]]]
  from all show ?thesis by (simp add: Watchguard_Init_def watchguard_line_def)
qed

section \<open>The handler\<close>

lemma NewParser_valid: "ValidFormat f \<Longrightarrow> \<exists>p. NewParser f = Inr p \<and>
    (Parser p = RFC5424 RFC5424_Init \<or> Parser p = Watchguard Watchguard_Init)"
  by (auto simp: NewParser_def ValidFormat_def supportedFormats_def)

lemma ValidFormat_iff: "ValidFormat f \<longleftrightarrow> (\<exists>p. NewParser f = Inr p)"
  using NewParser_valid [of f] by (auto simp: NewParser_def)

lemma NewParser_simps:
  "NewParser RFC5424Name = Inr \<lparr>Fmt = RFC5424Standard, Raw = [], Res = [], Parser = RFC5424 RFC5424_Init\<rparr>"
  "NewParser RFC5424Standard = Inr \<lparr>Fmt = RFC5424Standard, Raw = [], Res = [], Parser = RFC5424 RFC5424_Init\<rparr>"
  "NewParser WatchguardName = Inr \<lparr>Fmt = WatchguardFirebox, Raw = [], Res = [], Parser = Watchguard Watchguard_Init\<rparr>"
  "NewParser WatchguardFirebox = Inr \<lparr>Fmt = WatchguardFirebox, Raw = [], Res = [], Parser = Watchguard Watchguard_Init\<rparr>"
  by (simp_all add: NewParser_def ValidFormat_def supportedFormats_def)

lemma LogHandler_Parse_line:
  assumes "pri_ok pri" and "is_digit ver" and "field_ok ts" and "field_ok host" and "field_ok app"
    and "pid_ok pid" and "is_id mid" and "msg \<noteq> []" and P: "Parser p = RFC5424 RFC5424_Init"
  shows "LogHandler_Parse p (rfc5424_line pri ver ts host app pid mid msg) =
    (p\<lparr>Raw := rfc5424_line pri ver ts host app pid mid msg,
       Res := [(''priority'', GInt (int (dec_val pri))), (''version'', GInt (int (digit_val ver))),
         (''timestamp'', GStr ts), (''host'', GStr host), (''app'', GStr app),
         (''pid'', GInt (if pid = ''-'' then 0 else int (dec_val pid))),
         (''message_id'', GStr mid), (''message'', GStr msg)]\<rparr>, True)"
proof -
  let ?l = "rfc5424_line pri ver ts host app pid mid msg"
  have m: "find_string_submatch RFC5424_Init ?l = Some (?l # [pri, [ver], ts, host, app, pid, mid, msg])"
    using find_string_submatch_picks [OF picks_rfc5424 [OF assms(1-8)]] by simp
  have pri: "atoi_val pri = int (dec_val pri)"
    using assms(1) by (intro atoi_val_digits) (auto simp: pri_ok_def)
  have ver: "atoi_val [ver] = int (digit_val ver)"
    using atoi_val_digits [of "[ver]"] dec_val_snoc [of "[]" ver] assms(2) by simp
  have pid: "atoi_val pid = int (dec_val pid)" if "pid \<noteq> ''-''"
    using assms(6) that by (intro atoi_val_digits) (auto simp: pid_ok_def)
  show ?thesis
    unfolding LogHandler_Parse_def Let_def
    using P m pri ver pid by (simp add: RFC5424_Parse_def rfc5424_fields_def)
qed

lemma LogParser_Parse_timestamp:
  "LogParser_Parse lp raw [] = (res, stat) \<Longrightarrow>
    res = [] \<or> (\<exists>ts. map_of res ''timestamp'' = Some (GStr ts))"
  by (cases lp) (auto simp: RFC5424_Parse_def Watchguard_Parse_def rfc5424_fields_def
      watchguard_fields_def split: option.splits if_splits)

section \<open>Properties\<close>

text \<open>
  C21. Round trip of the RFC5424 parser. A line \<open><pri>ver ts host app pid msgid msg\<close> with a
  priority of one to three digits, a version digit, non-empty fields without a blank, a process id
  that is \<open>-\<close> or one to five digits, a message id of word characters and dashes and a non-empty
  message is accepted by the handler created for the format \<open>syslog\<close> or \<open>RFC5424\<close>, whatever the
  handler held before, and the map holds exactly the fields, with the numbers converted and a dash
  read as process id 0.
\<close>

theorem rfc5424_roundtrip:
  assumes "pri_ok pri" and "is_digit ver" and "field_ok ts" and "field_ok host" and "field_ok app"
    and "pid_ok pid" and "is_id mid" and "msg \<noteq> []"
    and "NewParser f = Inr p0" and "f = RFC5424Name \<or> f = RFC5424Standard"
    and "p = p0\<lparr>Raw := old_raw, Res := old_res\<rparr>"
  shows "\<exists>p'. LogHandler_Parse p (rfc5424_line pri ver ts host app pid mid msg) = (p', True) \<and>
    Raw p' = rfc5424_line pri ver ts host app pid mid msg \<and>
    Res p' =
      [(''priority'', GInt (int (dec_val pri))), (''version'', GInt (int (digit_val ver))),
       (''timestamp'', GStr ts), (''host'', GStr host), (''app'', GStr app),
       (''pid'', GInt (if pid = ''-'' then 0 else int (dec_val pid))),
       (''message_id'', GStr mid), (''message'', GStr msg)]"
proof -
  have "Parser p = RFC5424 RFC5424_Init"
    using assms(9-11) NewParser_simps(1,2) by auto
  from LogHandler_Parse_line [OF assms(1-8) this] show ?thesis by simp
qed

theorem rfc5424_roundtrip_witness:
  "\<exists>p'. LogHandler_Parse \<lparr>Fmt = RFC5424Standard, Raw = ''x'', Res = [(''a'', GInt 1)],
        Parser = RFC5424 RFC5424_Init\<rparr>
      (rfc5424_line ''134'' (CHR ''1'') ''2003-08-24T05:14:15Z'' ''ubuntu'' ''sshd'' ''1999'' ''-'' ''password accepted'') = (p', True) \<and>
    Raw p' = rfc5424_line ''134'' (CHR ''1'') ''2003-08-24T05:14:15Z'' ''ubuntu'' ''sshd'' ''1999'' ''-'' ''password accepted'' \<and>
    Res p' =
      [(''priority'', GInt (int (dec_val ''134''))), (''version'', GInt (int (digit_val (CHR ''1'')))),
       (''timestamp'', GStr ''2003-08-24T05:14:15Z''), (''host'', GStr ''ubuntu''), (''app'', GStr ''sshd''),
       (''pid'', GInt (if ''1999'' = ''-'' then 0 else int (dec_val ''1999''))),
       (''message_id'', GStr ''-''), (''message'', GStr ''password accepted'')]"
proof (rule rfc5424_roundtrip)
  show "\<lparr>Fmt = RFC5424Standard, Raw = ''x'', Res = [(''a'', GInt 1)], Parser = RFC5424 RFC5424_Init\<rparr> =
      \<lparr>Fmt = RFC5424Standard, Raw = [], Res = [], Parser = RFC5424 RFC5424_Init\<rparr>
        \<lparr>Raw := ''x'', Res := [(''a'', GInt 1)]\<rparr>" by simp
  show "NewParser RFC5424Name =
      Inr \<lparr>Fmt = RFC5424Standard, Raw = [], Res = [], Parser = RFC5424 RFC5424_Init\<rparr>"
    by (rule NewParser_simps)
qed (simp_all add: pri_ok_def field_ok_def pid_ok_def is_id_def is_word_def is_digit_def)

text \<open>
  C22. Exactness of the RFC5424 parser. The parser leaves the result alone and counts the line as
  unparsed exactly when no suffix of the text has the shape of a line (fields separated by single
  blanks of any of the five kinds); otherwise it counts the line as parsed, and the map it builds
  holds the fields of such a suffix.
\<close>

theorem rfc5424_parse_exact:
  "case RFC5424_Parse RFC5424_Init raw result of (res, stat) \<Rightarrow>
     (if \<exists>pre s cs. raw = pre @ s \<and> rfc5424_shape s cs
      then stat = ''rfc5424Parsed'' \<and>
        (\<exists>pre s cs. raw = pre @ s \<and> rfc5424_shape s cs \<and> res = rfc5424_fields (s # cs))
      else stat = ''rfc5424Unparsed'' \<and> res = result)"
proof (cases "find_string_submatch RFC5424_Init raw")
  case None
  then have "\<nexists>pre s cs. raw = pre @ s \<and> rfc5424_shape s cs"
    unfolding find_string_submatch_None no_match_def matches_rfc5424 by (metis append_Nil2)
  with None show ?thesis by (auto simp: RFC5424_Parse_def)
next
  case (Some m)
  then obtain pre s rest cs where "raw = pre @ s @ rest" and "matches RFC5424_Init s rest cs"
    and m: "m = s # cs" by (rule find_string_submatch_Some)
  then have s: "raw = pre @ s" "rfc5424_shape s cs" by (simp_all add: matches_rfc5424)
  then have "length m = 9" using m by (auto elim: rfc5424_shape.cases)
  with Some s m show ?thesis by (auto simp: RFC5424_Parse_def)
qed

text \<open>
  The parser of \<open>rfc5424/reader.go\<close>, with the expression its constructor compiles, is the same function as that of
  \<open>parser/rfc5424.go\<close>, so what is shown of the one holds for the other.
\<close>

lemma rfc5424_parsers_agree:
  "rfc5424_parse compileMatcher raw result = fst (RFC5424_Parse RFC5424_Init raw result)"
  by (simp add: rfc5424_parse_def RFC5424_Parse_def compileMatcher_def RFC5424_Init_def
      rfc5424_fields_def split: option.splits)

text \<open>
  C30. Round trip of the Watchguard parser. A well-formed M200 line (the UTC time in parentheses,
  the message id quoted, every field non-empty and without a blank) is accepted by the handler
  created for \<open>M200\<close> or \<open>Watchguard\<close> and the map holds exactly its eleven fields, the time of the
  event being the text between the parentheses.
\<close>

theorem watchguard_roundtrip:
  assumes "pri_ok pri" and "dtg_ok dtg" and "field_ok model" and "field_ok serial" and "field_ok utc"
    and "field_ok compo" and "msg_id_ok mid" and "field_ok disp" and "field_ok src" and "field_ok dst"
    and "msg \<noteq> []" and "NewParser f = Inr p" and "f = WatchguardName \<or> f = WatchguardFirebox"
  shows "\<exists>p'. LogHandler_Parse p (watchguard_line pri dtg model serial utc compo mid disp src dst msg) = (p', True) \<and>
    Res p' =
      [(''priority'', GInt (int (dec_val pri))), (''local_dtg'', GStr dtg),
       (''model_name'', GStr model), (''serial_no'', GStr serial), (''timestamp'', GStr utc),
       (''component'', GStr compo), (''msg_id'', GStr mid), (''disposition'', GStr disp),
       (''src_intf'', GStr src), (''dst_intf'', GStr dst), (''message'', GStr msg)]"
proof -
  let ?l = "watchguard_line pri dtg model serial utc compo mid disp src dst msg"
  have P: "Parser p = Watchguard Watchguard_Init"
    using assms(12,13) NewParser_simps(3,4) by auto
  have m: "find_string_submatch Watchguard_Init ?l =
      Some (?l # [pri, dtg, model, serial, utc, compo, mid, disp, src, dst, msg])"
    using find_string_submatch_picks [OF picks_watchguard [OF assms(1-11)]] by simp
  have pri: "atoi_val pri = int (dec_val pri)"
    using assms(1) by (intro atoi_val_digits) (auto simp: pri_ok_def)
  show ?thesis
    unfolding LogHandler_Parse_def Let_def
    using P m pri by (simp add: Watchguard_Parse_def watchguard_fields_def)
qed

theorem watchguard_roundtrip_witness:
  "\<exists>p'. LogHandler_Parse \<lparr>Fmt = WatchguardFirebox, Raw = [], Res = [], Parser = Watchguard Watchguard_Init\<rparr>
      (watchguard_line ''140'' ''Nov 28 06:28:24'' ''M200'' ''80B'' ''2018-11-28T11:28:24'' ''firewall:''
        ''3000-0148'' ''Deny'' ''Ext'' ''Trusted'' ''72 tcp'') = (p', True) \<and>
    Res p' =
      [(''priority'', GInt (int (dec_val ''140''))), (''local_dtg'', GStr ''Nov 28 06:28:24''),
       (''model_name'', GStr ''M200''), (''serial_no'', GStr ''80B''), (''timestamp'', GStr ''2018-11-28T11:28:24''),
       (''component'', GStr ''firewall:''), (''msg_id'', GStr ''3000-0148''), (''disposition'', GStr ''Deny''),
       (''src_intf'', GStr ''Ext''), (''dst_intf'', GStr ''Trusted''), (''message'', GStr ''72 tcp'')]"
proof (rule watchguard_roundtrip)
  show "dtg_ok ''Nov 28 06:28:24''"
    by (simp add: dtg_ok_def is_range_def is_digit_def)
  show "NewParser WatchguardName =
      Inr \<lparr>Fmt = WatchguardFirebox, Raw = [], Res = [], Parser = Watchguard Watchguard_Init\<rparr>"
    by (rule NewParser_simps)
qed (simp_all add: pri_ok_def field_ok_def msg_id_ok_def is_digit_def)

end
