(* ===== verification/Event.thy ===== *)
theory Event
  imports Go_Time Log_Parser
begin

text \<open>
  \<open>input/event.go\<close>, \<open>event.go\<close> and the document IDs of \<open>index.go\<close>: events with their memoised
  reference time, the 32-digit hexadecimal document ID made of time and sequence number, and the
  order on IDs that search results are sorted by. A method that panics returns \<^const>\<open>None\<close>.
\<close>

section \<open>Model\<close>

text \<open>
  \<open>Parsed\<close> is \<^const>\<open>None\<close> for a nil map. \<open>referenceTime\<close> is the memo, Go's zero time at first. The
  \<open>ekanite.Event\<close> of \<open>event.go\<close> embeds a pointer to this record and adds methods only.
\<close>

record Event =
  Text :: bytes
  Parsed :: "fields option"
  ReceptionTime :: gtime
  Sequence :: "64 word"
  SourceIP :: string
  referenceTime :: gtime

definition NewEvent :: Event where
  "NewEvent = \<lparr>Text = [], Parsed = None, ReceptionTime = 0, Sequence = 0, SourceIP = [],
     referenceTime = 0\<rparr>"

text \<open>
  \<open>ReferenceTime\<close>: the type assertion \<open>.(string)\<close> panics when the field is missing or no string.
\<close>

definition ReferenceTime :: "Event \<Rightarrow> (Event \<times> gtime) option" where
  "ReferenceTime e =
     (if IsZero (referenceTime e) then
        (case Parsed e of
           None \<Rightarrow> Some (e\<lparr>referenceTime := ReceptionTime e\<rparr>, ReceptionTime e)
         | Some m \<Rightarrow>
             (case map_of m ''timestamp'' of
                Some (GStr s) \<Rightarrow>
                  (case parse_rfc3339 s of
                     None \<Rightarrow> Some (e\<lparr>referenceTime := ReceptionTime e\<rparr>, ReceptionTime e)
                   | Some t \<Rightarrow> Some (e\<lparr>referenceTime := t\<rparr>, t))
              | _ \<Rightarrow> None))
      else Some (e, referenceTime e))"

type_synonym DocID = bytes

fun to_hex :: "nat \<Rightarrow> nat \<Rightarrow> bytes" where
  "to_hex 0 n = []"
| "to_hex (Suc k) n = to_hex k (n div 16) @ [''0123456789abcdef'' ! (n mod 16)]"

text \<open>\<open>fmt.Sprintf("%016x", w)\<close>: a 64-bit number has at most 16 digits.\<close>

definition hex16 :: "64 word \<Rightarrow> bytes" where
  "hex16 w = to_hex 16 (unat w)"

definition ID :: "Event \<Rightarrow> (Event \<times> DocID) option" where
  "ID e = map_option (\<lambda>(e', t). (e', hex16 (UnixNano t) @ hex16 (Sequence e))) (ReferenceTime e)"

text \<open>\<open>Data\<close> is the struct with the field \<open>Message\<close>, the only indexed field.\<close>

record doc_data =
  Message :: bytes

definition Data :: "Event \<Rightarrow> doc_data" where
  "Data e = \<lparr>Message = Text e\<rparr>"

definition Source :: "Event \<Rightarrow> bytes" where
  "Source e = Text e"

subsection \<open>Document IDs (index.go)\<close>

text \<open>\<open>strconv.ParseUint(s, 16, 64)\<close>; \<open>mustParse\<close> panics where it fails.\<close>

definition hex_val :: "byte \<Rightarrow> nat option" where
  "hex_val c =
     (let n = of_char c :: nat
      in if 48 \<le> n \<and> n \<le> 57 then Some (n - 48)
         else if 97 \<le> n \<and> n \<le> 102 then Some (n - 87)
         else if 65 \<le> n \<and> n \<le> 70 then Some (n - 55)
         else None)"

fun hex_digits :: "nat \<Rightarrow> bytes \<Rightarrow> nat option" where
  "hex_digits acc [] = Some acc"
| "hex_digits acc (c # cs) =
     (case hex_val c of None \<Rightarrow> None | Some v \<Rightarrow> hex_digits (16 * acc + v) cs)"

definition mustParse :: "bytes \<Rightarrow> 64 word option" where
  "mustParse s =
     (if s = [] then None
      else (case hex_digits 0 s of
              None \<Rightarrow> None
            | Some n \<Rightarrow> if n < 2 ^ 64 then Some (of_nat n) else None))"

text \<open>The two words of an ID; \<open>x[0:16]\<close> and \<open>x[16:32]\<close> panic on a shorter string.\<close>

definition id_words :: "DocID \<Rightarrow> (64 word \<times> 64 word) option" where
  "id_words x =
     (if length x < 32 then None
      else case (mustParse (take 16 x), mustParse (take 16 (drop 16 x))) of
             (Some m, Some l) \<Rightarrow> Some (m, l)
           | _ \<Rightarrow> None)"

definition DocIDs_Less :: "DocID \<Rightarrow> DocID \<Rightarrow> bool option" where
  "DocIDs_Less x y =
     (case (id_words x, id_words y) of
        (Some (msw0, lsw0), Some (msw1, lsw1)) \<Rightarrow>
          Some (if msw0 = msw1 then lsw0 < lsw1 else msw0 < msw1)
      | _ \<Rightarrow> None)"

section \<open>Reference times\<close>

lemma ReferenceTime_memo:
  assumes "ReferenceTime e = Some (e', t)"
  shows "ReferenceTime e' = Some (e', t)" and "Text e' = Text e" and "Sequence e' = Sequence e"
    and "Parsed e' = Parsed e" and "ReceptionTime e' = ReceptionTime e"
  using assms by (auto simp: ReferenceTime_def split: if_splits option.splits gval.splits)

section \<open>Hexadecimal numbers\<close>

lemma length_to_hex [simp]: "length (to_hex k n) = k"
  by (induction k arbitrary: n) auto

lemma hex_val_digit: "n < 16 \<Longrightarrow> hex_val (''0123456789abcdef'' ! n) = Some n"
proof -
  assume "n < 16"
  then have "n \<in> set [0..<16]" by simp
  moreover have "list_all (\<lambda>n. hex_val (''0123456789abcdef'' ! n) = Some n) [0..<16]" by code_simp
  ultimately show ?thesis by (simp add: list_all_iff del: upt.simps)
qed

lemma hex_digits_append:
  "hex_digits acc (xs @ ys) = Option.bind (hex_digits acc xs) (\<lambda>n. hex_digits n ys)"
  by (induction xs arbitrary: acc) (auto split: option.splits)

lemma hex_digits_to_hex: "hex_digits acc (to_hex k n) = Some (acc * 16 ^ k + n mod 16 ^ k)"
proof (induction k arbitrary: n acc)
  case (Suc k)
  have "n mod (16 ^ k * 16) = 16 * (n div 16 mod 16 ^ k) + n mod 16"
    by (metis mod_mult2_eq mult.commute add.commute)
  with Suc show ?case
    by (simp add: hex_digits_append hex_val_digit algebra_simps)
qed simp

lemma unat_less64: "unat (w :: 64 word) < 2 ^ 64"
  by (rule order_less_le_trans [OF unsigned_less]) simp

lemma length_hex16 [simp]: "length (hex16 w) = 16"
  by (simp add: hex16_def)

lemma mustParse_hex16 [simp]: "mustParse (hex16 w) = Some w"
proof -
  have "unat w < 16 ^ 16" using unat_less64 [of w] by simp
  moreover have "hex16 w \<noteq> []" by (simp flip: length_greater_0_conv)
  ultimately show ?thesis
    using unat_less64 [of w] by (simp add: mustParse_def hex16_def hex_digits_to_hex)
qed

lemma id_words_hex [simp]: "id_words (hex16 m @ hex16 l) = Some (m, l)"
  by (simp add: id_words_def)

lemma DocIDs_Less_hex:
  "DocIDs_Less (hex16 m0 @ hex16 l0) (hex16 m1 @ hex16 l1) =
     Some (m0 < m1 \<or> m0 = m1 \<and> l0 < l1)"
  by (auto simp: DocIDs_Less_def)

section \<open>The order of IDs against the order of time\<close>

text \<open>The instants whose \<open>UnixNano\<close> is a non-negative 64-bit number: 1970 to April 2262.\<close>

definition in_range :: "gtime \<Rightarrow> bool" where
  "in_range t \<longleftrightarrow> unix_epoch \<le> t \<and> t - unix_epoch < 2 ^ 63"

lemma uint_UnixNano_mod: "uint (UnixNano t) = (t - unix_epoch) mod 2 ^ 64"
  unfolding UnixNano_def by (subst uint_word_of_int) simp

lemma uint_UnixNano: "in_range t \<Longrightarrow> uint (UnixNano t) = t - unix_epoch"
  by (simp add: in_range_def uint_UnixNano_mod)

lemma UnixNano_less: "in_range t \<Longrightarrow> in_range u \<Longrightarrow> UnixNano t < UnixNano u \<longleftrightarrow> t < u"
  by (simp add: word_less_def uint_UnixNano)

lemma UnixNano_eq: "in_range t \<Longrightarrow> in_range u \<Longrightarrow> UnixNano t = UnixNano u \<longleftrightarrow> t = u"
  by (metis uint_UnixNano diff_add_cancel)

section \<open>Properties\<close>

text \<open>
  C31. Reference times. An event whose fields come from a log handler never panics: its reference
  time is the parsed timestamp when that is a valid RFC3339 time and the reception time otherwise;
  the first call memoises it without changing anything else of the event, and every later call
  returns the same time.
\<close>

theorem reference_time_of_parsed:
  assumes "LogHandler_Parse p raw = (p', True)" and "Parsed e = Some (Res p')" and "referenceTime e = 0"
  shows "\<exists>ts e' t. map_of (Res p') ''timestamp'' = Some (GStr ts) \<and>
    ReferenceTime e = Some (e', t) \<and>
    t = (case parse_rfc3339 ts of None \<Rightarrow> ReceptionTime e | Some u \<Rightarrow> u) \<and>
    e' = e\<lparr>referenceTime := t\<rparr> \<and> ReferenceTime e' = Some (e', t)"
proof -
  obtain res stat where r: "LogParser_Parse (Parser p) raw [] = (res, stat)" by fastforce
  with assms(1) have "Res p' = res" and "res \<noteq> []"
    by (auto simp: LogHandler_Parse_def Let_def split: if_splits)
  with LogParser_Parse_timestamp [OF r] obtain ts where
    ts: "map_of (Res p') ''timestamp'' = Some (GStr ts)" by auto
  then have "ReferenceTime e = Some (e\<lparr>referenceTime := t\<rparr>, t)"
    if "t = (case parse_rfc3339 ts of None \<Rightarrow> ReceptionTime e | Some u \<Rightarrow> u)" for t
    using that assms(2,3) by (auto simp: ReferenceTime_def IsZero_def split: option.splits)
  with ts show ?thesis using ReferenceTime_memo(1) by blast
qed

theorem reference_time_of_parsed_witness:
  "\<exists>p' e' t. LogHandler_Parse \<lparr>Fmt = RFC5424Standard, Raw = [], Res = [], Parser = RFC5424 RFC5424_Init\<rparr>
      (rfc5424_line ''1'' (CHR ''1'') ''1970-01-01T00:00:01Z'' ''h'' ''a'' ''-'' ''-'' ''m'') = (p', True) \<and>
    ReferenceTime (NewEvent\<lparr>Parsed := Some (Res p')\<rparr>) = Some (e', t) \<and>
    t = unix_epoch + ns_per_sec"
proof -
  let ?p = "\<lparr>Fmt = RFC5424Standard, Raw = [], Res = [], Parser = RFC5424 RFC5424_Init\<rparr>"
  let ?l = "rfc5424_line ''1'' (CHR ''1'') ''1970-01-01T00:00:01Z'' ''h'' ''a'' ''-'' ''-'' ''m''"
  obtain p' where p': "LogHandler_Parse ?p ?l = (p', True)"
    and ts: "map_of (Res p') ''timestamp'' = Some (GStr ''1970-01-01T00:00:01Z'')"
    using LogHandler_Parse_line [of "''1''" "CHR ''1''" "''1970-01-01T00:00:01Z''" "''h''" "''a''" "''-''" "''-''" "''m''" ?p]
    by (simp add: pri_ok_def field_ok_def pid_ok_def is_id_def is_word_def is_digit_def)
  have t: "parse_rfc3339 ''1970-01-01T00:00:01Z'' = Some (unix_epoch + ns_per_sec)" by code_simp
  from reference_time_of_parsed [OF p', of "NewEvent\<lparr>Parsed := Some (Res p')\<rparr>"] t ts p'
  show ?thesis by (simp add: NewEvent_def)
qed

text \<open>
  C23. Document IDs. The ID of an event is 32 bytes long and determines the 64-bit time and the
  sequence number; comparing two IDs never panics; and for events from 1970 to 2262 the order of
  the IDs is exactly the order of their reference times, and of their sequence numbers where the
  times agree.
\<close>

theorem docid_order:
  assumes "ID e = Some (e', x)" and "ReferenceTime e = Some (e', t)" and "in_range t"
    and "ID f = Some (f', y)" and "ReferenceTime f = Some (f', u)" and "in_range u"
  shows "length x = 32 \<and> id_words x = Some (UnixNano t, Sequence e) \<and>
    DocIDs_Less x y = Some (t < u \<or> t = u \<and> Sequence e < Sequence f) \<and>
    (x = y \<longleftrightarrow> t = u \<and> Sequence e = Sequence f)"
proof -
  from assms have x: "x = hex16 (UnixNano t) @ hex16 (Sequence e)"
    and y: "y = hex16 (UnixNano u) @ hex16 (Sequence f)" by (auto simp: ID_def)
  have "x = y \<longleftrightarrow> UnixNano t = UnixNano u \<and> Sequence e = Sequence f"
    unfolding x y by (metis Pair_inject id_words_hex option.inject)
  with assms(3,6) show ?thesis
    unfolding x y DocIDs_Less_hex by (simp add: UnixNano_less UnixNano_eq)
qed

theorem docid_order_witness:
  "length (hex16 1 @ hex16 7) = 32 \<and> id_words (hex16 1 @ hex16 7) = Some (UnixNano (unix_epoch + 1), 7) \<and>
   DocIDs_Less (hex16 1 @ hex16 7) (hex16 2 @ hex16 3) = Some True"
proof -
  let ?e = "NewEvent\<lparr>ReceptionTime := unix_epoch + 1, Sequence := 7\<rparr>"
  let ?f = "NewEvent\<lparr>ReceptionTime := unix_epoch + 2, Sequence := 3\<rparr>"
  have "ReferenceTime ?e = Some (?e\<lparr>referenceTime := unix_epoch + 1\<rparr>, unix_epoch + 1)"
    "ReferenceTime ?f = Some (?f\<lparr>referenceTime := unix_epoch + 2\<rparr>, unix_epoch + 2)"
    by (simp_all add: ReferenceTime_def NewEvent_def IsZero_def)
  moreover from this have "ID ?e = Some (?e\<lparr>referenceTime := unix_epoch + 1\<rparr>, hex16 1 @ hex16 7)"
    "ID ?f = Some (?f\<lparr>referenceTime := unix_epoch + 2\<rparr>, hex16 2 @ hex16 3)"
    by (simp_all add: ID_def UnixNano_def)
  moreover have "in_range (unix_epoch + 1)" "in_range (unix_epoch + 2)" by (simp_all add: in_range_def)
  ultimately show ?thesis using docid_order [of ?e _ _ _ ?f] by simp
qed

text \<open>
  Before 1970 the order of IDs is not the order of time: the nanoseconds are negative and are
  formatted as an unsigned number, so an event of 1969 sorts after every event of 1970 to 2262.
\<close>

theorem docid_order_before_1970:
  assumes "unix_epoch - 2 ^ 63 \<le> t" and "t < unix_epoch" and "in_range u"
  shows "DocIDs_Less (hex16 (UnixNano u) @ hex16 l) (hex16 (UnixNano t) @ hex16 k) = Some True"
proof -
  have "uint (UnixNano t) = (t - unix_epoch + 2 ^ 64) mod 2 ^ 64"
    by (simp add: uint_UnixNano_mod)
  also have "\<dots> = t - unix_epoch + 2 ^ 64"
    using assms(1,2) by (intro mod_pos_pos_trivial) simp_all
  finally have "uint (UnixNano u) < uint (UnixNano t)"
    using assms by (simp add: uint_UnixNano in_range_def)
  then show ?thesis by (simp add: DocIDs_Less_hex word_less_def)
qed

theorem docid_order_before_1970_witness:
  "DocIDs_Less (hex16 (UnixNano (unix_epoch + 5)) @ hex16 0) (hex16 (UnixNano (unix_epoch - 1)) @ hex16 0) = Some True"
  by (rule docid_order_before_1970) (simp_all add: in_range_def)

end
