(* ===== verification/Index_Name.thy ===== *)
theory Index_Name
  imports Go_Time
begin

text \<open>
  The layout \<open>indexNameLayout = "20060102_1504"\<close> of \<open>index.go\<close>: \<open>Time.Format\<close> and \<open>time.Parse\<close> with
  it, through the proleptic Gregorian calendar Go uses, and the proof that parsing a formatted time
  gives the time back, cut to the minute. Index directories are named by their start time and store
  their end time in this layout.
\<close>

section \<open>Calendar\<close>

lemma div_succ: "(0::int) < k \<Longrightarrow> y div k = (y - 1) div k + (if k dvd y then 1 else 0)"
proof -
  assume k: "0 < k"
  show ?thesis
  proof (cases "k dvd y")
    case True
    then obtain q where "y = k * q" by blast
    moreover have "(k * q - 1) div k = q - 1"
      using k by (intro int_div_pos_eq [where r = "k - 1"]) (simp_all add: algebra_simps)
    ultimately show ?thesis using k by simp
  next
    case False
    then have "y mod k \<noteq> 0" by (simp add: dvd_eq_mod_eq_0)
    with k have "0 < y mod k" by (simp add: order_less_le)
    moreover have "y mod k < k" using k by simp
    ultimately have "(y - 1) div k = y div k"
      by (intro int_div_pos_eq [where r = "y mod k - 1"]) simp_all
    with False show ?thesis by simp
  qed
qed

lemma leap_count:
  assumes "b \<Longrightarrow> a" and "c \<Longrightarrow> b"
  shows "365 + (if a then 1 else 0) - (if b then 1 else 0) + (if c then 1 else 0) =
    (if a \<and> (\<not> b \<or> c) then 366 else 365 :: int)"
  using assms by (cases a; cases b; cases c) simp_all

lemma days_before_year_Suc:
  "days_before_year (y + 1) = days_before_year y + (if is_leap y then 366 else 365)"
proof -
  have d: "4 dvd y" if "100 dvd y" using that by (rule dvd_trans [rotated]) simp
  have e: "100 dvd y" if "400 dvd y" using that by (rule dvd_trans [rotated]) simp
  have l: "is_leap y \<longleftrightarrow> 4 dvd y \<and> (\<not> 100 dvd y \<or> 400 dvd y)"
    by (simp add: is_leap_def dvd_eq_mod_eq_0)
  define p q r where "p = (if 4 dvd y then 1 else 0 :: int)" and "q = (if 100 dvd y then 1 else 0 :: int)"
    and "r = (if 400 dvd y then 1 else 0 :: int)"
  have "y div 4 = (y - 1) div 4 + p" "y div 100 = (y - 1) div 100 + q" "y div 400 = (y - 1) div 400 + r"
    unfolding p_def q_def r_def by (rule div_succ, simp)+
  moreover have "365 * y + (a + p) - (b + q) + (c + r) = 365 * (y - 1) + a - b + c + 365 + p - q + r" for a b c
    by (simp add: right_diff_distrib)
  ultimately have "days_before_year (y + 1) = days_before_year y + 365 + p - q + r"
    unfolding days_before_year_def by (simp only: add_diff_cancel_right')
  moreover have "365 + p - q + r = (if is_leap y then 366 else 365)"
    using leap_count [of "100 dvd y" "4 dvd y" "400 dvd y", OF d e] unfolding p_def q_def r_def l .
  ultimately show ?thesis by simp
qed

lemma days_before_year_less: "days_before_year y < days_before_year (y + 1)"
  by (simp add: days_before_year_Suc)

function year_from :: "int \<Rightarrow> int \<Rightarrow> int" where
  "year_from y n = (if days_before_year (y + 1) \<le> n then year_from (y + 1) n else y)"
  by pat_completeness auto
termination
  by (relation "measure (\<lambda>(y, n). nat (n - days_before_year y))") (auto simp: days_before_year_Suc split: if_splits)

declare year_from.simps [simp del]

text \<open>The year of day number \<open>n\<close>, counted from January 1 of year 1.\<close>

definition year_of :: "int \<Rightarrow> int" where
  "year_of n = year_from (if 0 \<le> n then n div 366 + 1 else n div 365 - 1) n"

fun month_from :: "int \<Rightarrow> int list \<Rightarrow> int \<Rightarrow> int \<times> int" where
  "month_from y [] r = (0, 0)"
| "month_from y (m # ms) r = (if r < days_in m y then (m, r + 1) else month_from y ms (r - days_in m y))"

definition months :: "int list" where
  "months = [1, 2, 3, 4, 5, 6, 7, 8, 9, 10, 11, 12]"

definition civil :: "int \<Rightarrow> int \<times> int \<times> int" where
  "civil n = (let y = year_of n; (m, d) = month_from y months (n - days_before_year y) in (y, m, d))"

lemma year_from_spec:
  assumes "days_before_year y \<le> n"
  shows "days_before_year (year_from y n) \<le> n \<and> n < days_before_year (year_from y n + 1)"
  using assms
proof (induction y n rule: year_from.induct)
  case (1 y n)
  then show ?case by (subst year_from.simps) (auto simp: year_from.simps [of y n])
qed

lemma year_of_spec: "days_before_year (year_of n) \<le> n" "n < days_before_year (year_of n + 1)"
proof -
  have "days_before_year (if 0 \<le> n then n div 366 + 1 else n div 365 - 1) \<le> n"
    by (auto simp: days_before_year_def)
  then show "days_before_year (year_of n) \<le> n" "n < days_before_year (year_of n + 1)"
    using year_from_spec unfolding year_of_def by blast+
qed

lemma days_before_year_mono: "y \<le> z \<Longrightarrow> days_before_year y \<le> days_before_year z"
proof (induction z rule: int_ge_induct)
  case (step z)
  then show ?case using days_before_year_less [of z] by linarith
qed simp

lemma year_of_range:
  assumes "days_before_year a \<le> n" and "n < days_before_year b"
  shows "a \<le> year_of n" and "year_of n < b"
proof -
  show "a \<le> year_of n"
    using days_before_year_mono [of "year_of n + 1" a] year_of_spec(2) [of n] assms(1) by linarith
  show "year_of n < b"
    using days_before_year_mono [of b "year_of n"] year_of_spec(1) [of n] assms(2) by linarith
qed

lemma days_before_month_Suc:
  "1 \<le> m \<Longrightarrow> days_before_month (m + 1) y = days_before_month m y + days_in m y"
proof -
  assume m: "1 \<le> m"
  then have "[1..<nat (m + 1)] = [1..<nat m] @ [nat m]" by (simp add: nat_add_distrib)
  with m show ?thesis by (simp add: days_before_month_def)
qed

lemma days_before_month_mono:
  assumes "1 \<le> a" and "a \<le> b"
  shows "days_before_month a y \<le> days_before_month b y"
  using assms(2)
proof (induction b rule: int_ge_induct)
  case (step b)
  have "0 \<le> days_in b y" by (simp add: days_in_def)
  with step assms(1) days_before_month_Suc [of b y] show ?case by linarith
qed simp

lemma month_from_spec:
  assumes "month_from y [a..b] r = (m, d)" and "1 \<le> a" and "0 \<le> r"
    and "r < days_before_month (b + 1) y - days_before_month a y"
  shows "a \<le> m \<and> m \<le> b \<and> 1 \<le> d \<and> d \<le> days_in m y \<and> days_before_month m y + d - 1 = days_before_month a y + r"
  using assms
proof (induction "nat (b + 1 - a)" arbitrary: a r)
  case 0
  then have "b + 1 \<le> a" by simp
  with 0 have "[a..b] = []" by simp
  with 0 have False
  proof (cases "1 \<le> b + 1")
    case True
    with \<open>b + 1 \<le> a\<close> 0 days_before_month_mono [of "b + 1" a y] show ?thesis by linarith
  next
    case False
    then have "days_before_month (b + 1) y = 0" by (simp add: days_before_month_def)
    moreover have "0 \<le> days_before_month a y"
      using days_before_month_mono [of 1 a y] 0 by (simp add: days_before_month_def)
    ultimately show ?thesis using 0 by linarith
  qed
  then show ?case ..
next
  case (Suc k)
  then have ab: "a \<le> b" and l: "[a..b] = a # [a + 1..b]" by (simp_all add: upto_rec1)
  show ?case
  proof (cases "r < days_in a y")
    case True
    with Suc.prems l ab show ?thesis by auto
  next
    case False
    with Suc.prems(1) l have "month_from y [a + 1..b] (r - days_in a y) = (m, d)" by simp
    moreover have "k = nat (b + 1 - (a + 1))" using Suc.hyps(2) by simp
    ultimately show ?thesis
      using Suc.hyps(1) [of "a + 1" "r - days_in a y"] Suc.prems(2-4) False
      by (simp add: days_before_month_Suc [OF Suc.prems(2)])
  qed
qed

lemma months_upto: "months = [1..12]"
  by (simp add: months_def upto_rec1)

lemma days_of_year: "days_before_month 13 y = (if is_leap y then 366 else 365)"
  by (simp add: days_before_month_def days_in_def upt_conv_Cons)

lemma civil_spec:
  assumes "civil n = (y, m, d)"
  shows "y = year_of n" and "1 \<le> m" and "m \<le> 12" and "1 \<le> d" and "d \<le> days_in m y"
    and "days_before_year y + days_before_month m y + (d - 1) = n"
proof -
  let ?r = "n - days_before_year (year_of n)"
  from assms have y: "y = year_of n" and md: "month_from (year_of n) [1..12] ?r = (m, d)"
    by (auto simp: civil_def Let_def months_upto split: prod.splits)
  have "days_before_month 1 (year_of n) = 0" by (simp add: days_before_month_def)
  moreover have "0 \<le> ?r" and "?r < days_before_month 13 (year_of n)"
    using year_of_spec [of n] by (simp_all add: days_of_year days_before_year_Suc)
  ultimately have "1 \<le> m \<and> m \<le> 12 \<and> 1 \<le> d \<and> d \<le> days_in m (year_of n) \<and>
      days_before_month m (year_of n) + d - 1 = ?r"
    using month_from_spec [OF md] by simp
  with y show "y = year_of n" "1 \<le> m" "m \<le> 12" "1 \<le> d" "d \<le> days_in m y"
    "days_before_year y + days_before_month m y + (d - 1) = n" by auto
qed

section \<open>Format and Parse with the layout of index names\<close>

definition ns_per_min :: int where "ns_per_min = 60 * ns_per_sec"
definition ns_per_day :: int where "ns_per_day = 86400 * ns_per_sec"

lemma ns_pos: "0 < ns_per_min" "0 < ns_per_day" "0 < ns_per_sec"
  by (simp_all add: ns_per_min_def ns_per_day_def ns_per_sec_def)

text \<open>\<open>appendInt\<close> of package \<open>time\<close>: zero-padded to a width, a sign before the padding.\<close>

definition append_int :: "int \<Rightarrow> nat \<Rightarrow> bytes" where
  "append_int n width =
     (let ds = itoa (nat \<bar>n\<bar>)
      in (if n < 0 then ''-'' else []) @ replicate (width - length ds) (CHR ''0'') @ ds)"

definition format_index_name :: "gtime \<Rightarrow> bytes" where
  "format_index_name t =
     (case civil (t div ns_per_day) of
        (y, m, d) \<Rightarrow>
          let mins = t mod ns_per_day div ns_per_min
          in append_int y 4 @ append_int m 2 @ append_int d 2 @ ''_'' @
             append_int (mins div 60) 2 @ append_int (mins mod 60) 2)"

definition parse_index_name :: "bytes \<Rightarrow> gtime option" where
  "parse_index_name s0 =
     Option.bind (parse_year s0) (\<lambda>(y, s).
     Option.bind (getnum s True) (\<lambda>(mo, s). if mo < 1 \<or> 12 < mo then None else
     Option.bind (getnum s True) (\<lambda>(d, s).
     Option.bind (skip (CHR ''_'') s) (\<lambda>s.
     Option.bind (getnum s False) (\<lambda>(h, s). if 24 \<le> h then None else
     Option.bind (getnum s True) (\<lambda>(mi, s). if 60 \<le> mi then None
       else if s \<noteq> [] then None
       else if d < 1 \<or> days_in mo y < d then None
       else Some (date_ns y mo d h mi 0 0)))))))"

lemma itoa_length: "n < 10 ^ k \<Longrightarrow> 0 < k \<Longrightarrow> length (itoa n) \<le> k"
proof (induction k arbitrary: n)
  case (Suc k)
  show ?case
  proof (cases "n < 10")
    case False
    with Suc.prems have "0 < k" by (cases k) auto
    moreover have "n div 10 < 10 ^ k" using Suc.prems(1) by simp
    ultimately show ?thesis using Suc.IH [of "n div 10"] False by (simp add: itoa.simps [of n])
  qed (simp add: itoa.simps [of n])
qed simp

lemma dec_val_zeros: "dec_val (replicate k (CHR ''0'') @ s) = dec_val s"
  by (induction k) (simp_all add: dec_val_def digit_val_def)

lemma append_int_digits:
  assumes "0 \<le> n" and "n < 10 ^ w" and "0 < w"
  shows "length (append_int n w) = w" and "list_all is_digit (append_int n w)"
    and "int (dec_val (append_int n w)) = n"
proof -
  have "nat n < 10 ^ w" using assms(1,2) by (simp add: nat_less_iff)
  then have "length (itoa (nat n)) \<le> w" using assms(3) itoa_length by blast
  then show "length (append_int n w) = w" using assms(1) by (simp add: append_int_def Let_def)
  show "list_all is_digit (append_int n w)"
    using assms(1) itoa_digits by (auto simp: append_int_def Let_def list_all_iff is_digit_def)
  show "int (dec_val (append_int n w)) = n"
    using assms(1) by (simp add: append_int_def Let_def dec_val_zeros)
qed

lemma parse_year_append_int:
  assumes "0 \<le> y" and "y \<le> 9999"
  shows "parse_year (append_int y 4 @ s) = Some (y, s)"
  using append_int_digits [of y 4] assms by (simp add: parse_year_def)

lemma getnum_append_int:
  assumes "0 \<le> n" and "n < 100"
  shows "getnum (append_int n 2 @ s) fixed = Some (n, s)"
proof -
  note a = append_int_digits [of n 2]
  obtain c d where cd: "append_int n 2 = [c, d]"
    using a(1) assms by (auto simp: numeral_2_eq_2 length_Suc_conv)
  have "dec_val [c, d] = 10 * digit_val c + digit_val d" by (simp add: dec_val_def)
  with a(2,3) cd assms show ?thesis by simp
qed

lemma date_ns_civil:
  assumes "civil (t div ns_per_day) = (y, m, d)" and "mins = t mod ns_per_day div ns_per_min"
  shows "date_ns y m d (mins div 60) (mins mod 60) 0 0 = t - t mod ns_per_min"
proof -
  have day: "ns_per_day = 1440 * ns_per_min" by (simp add: ns_per_day_def ns_per_min_def)
  have "date_ns y m d (mins div 60) (mins mod 60) 0 0 =
      (t div ns_per_day * 86400 + mins div 60 * 3600 + mins mod 60 * 60 + 0) * ns_per_sec + 0"
    unfolding date_ns_def civil_spec(6) [OF assms(1)] ..
  also have "mins div 60 * 3600 = (mins - mins mod 60) * 60"
    by (simp add: minus_mod_eq_div_mult)
  also have "(t div ns_per_day * 86400 + (mins - mins mod 60) * 60 + mins mod 60 * 60 + 0) * ns_per_sec + 0 =
      (t div ns_per_day * 86400 + mins * 60) * ns_per_sec"
    by (simp add: algebra_simps)
  also have "\<dots> = t div ns_per_day * ns_per_day + mins * ns_per_min"
    by (simp add: ns_per_day_def ns_per_min_def algebra_simps)
  also have "mins * ns_per_min = t mod ns_per_day - t mod ns_per_day mod ns_per_min"
    unfolding assms(2) by (simp add: minus_mod_eq_div_mult)
  also have "t mod ns_per_day mod ns_per_min = t mod ns_per_min"
    by (rule mod_mod_cancel) (simp add: day)
  also have "t div ns_per_day * ns_per_day + (t mod ns_per_day - t mod ns_per_min) = t - t mod ns_per_min"
    by simp
  finally show ?thesis .
qed

text \<open>The times of years 0 to 9999.\<close>

definition four_digit_year :: "gtime \<Rightarrow> bool" where
  "four_digit_year t \<longleftrightarrow> date_ns 0 1 1 0 0 0 0 \<le> t \<and> t < date_ns 10000 1 1 0 0 0 0"

lemma four_digit_year_of:
  assumes "four_digit_year t"
  shows "0 \<le> year_of (t div ns_per_day)" and "year_of (t div ns_per_day) \<le> 9999"
proof -
  have m: "days_before_month 1 y = 0" for y by (simp add: days_before_month_def)
  from assms have "days_before_year 0 * ns_per_day \<le> t" "t < days_before_year 10000 * ns_per_day"
    by (simp_all add: four_digit_year_def date_ns_def m ns_per_day_def)
  then have "days_before_year 0 \<le> t div ns_per_day" "t div ns_per_day < days_before_year 10000"
    using ns_pos(2) by (simp_all add: pos_le_div_mult pos_div_less_mult)
  then show "0 \<le> year_of (t div ns_per_day)" "year_of (t div ns_per_day) \<le> 9999"
    using year_of_range [of 0 "t div ns_per_day" 10000] by simp_all
qed

lemma parse_format_index_name:
  assumes "four_digit_year t"
  shows "parse_index_name (format_index_name t) = Some (t - t mod ns_per_min)"
proof -
  obtain y m d where c: "civil (t div ns_per_day) = (y, m, d)" by (metis surj_pair)
  note cs = civil_spec [OF c]
  define mins where "mins = t mod ns_per_day div ns_per_min"
  have y: "0 \<le> y" "y \<le> 9999" using four_digit_year_of [OF assms] cs(1) by simp_all
  have d31: "d < 100" using cs(5) by (simp add: days_in_def split: if_splits)
  have "0 \<le> mins" using ns_pos by (simp add: mins_def pos_imp_zdiv_nonneg_iff)
  moreover have "mins < 1440"
    unfolding mins_def using ns_pos pos_mod_bound [OF ns_pos(2), of t]
    by (simp add: ns_per_day_def ns_per_min_def pos_div_less_mult)
  ultimately have hm: "0 \<le> mins div 60" "mins div 60 < 24" "0 \<le> mins mod 60" "mins mod 60 < 60"
    by (simp_all add: pos_imp_zdiv_nonneg_iff pos_div_less_mult)
  have f: "format_index_name t = append_int y 4 @ append_int m 2 @ append_int d 2 @ ''_'' @
      append_int (mins div 60) 2 @ append_int (mins mod 60) 2"
    by (simp add: format_index_name_def c mins_def Let_def)
  have g: "getnum (append_int (mins mod 60) 2) True = Some (mins mod 60, [])"
    using getnum_append_int [of "mins mod 60" "[]"] hm by simp
  show ?thesis
    unfolding f parse_index_name_def
    using y cs(2-5) d31 hm g date_ns_civil [OF c mins_def]
    by (simp add: parse_year_append_int getnum_append_int skip_def)
qed

end
