(* ===== verification/Go_Sort.thy ===== *)
theory Go_Sort
  imports Prelude "HOL-Library.Multiset"
begin

text \<open>
  Go's \<open>sort.Sort\<close>. Its documentation promises a permutation that is sorted when \<open>Less\<close> is a strict
  weak order, and nothing about equal elements; the locale \<open>sort_contract\<close> states exactly that and its
  clients use nothing else. \<open>go_sort\<close>, the instance the model computes with, is insertion sort, which
  is what \<open>sort.Sort\<close> runs on up to twelve elements.
\<close>

definition strict_weak :: "('a \<Rightarrow> 'a \<Rightarrow> bool) \<Rightarrow> 'a set \<Rightarrow> bool" where
  "strict_weak lt A \<longleftrightarrow>
     (\<forall>x\<in>A. \<forall>y\<in>A. lt x y \<longrightarrow> \<not> lt y x) \<and>
     (\<forall>x\<in>A. \<forall>y\<in>A. \<forall>z\<in>A. lt x z \<longrightarrow> lt x y \<or> lt y z)"

abbreviation in_order :: "('a \<Rightarrow> 'a \<Rightarrow> bool) \<Rightarrow> 'a list \<Rightarrow> bool" where
  "in_order lt \<equiv> sorted_wrt (\<lambda>x y. \<not> lt y x)"

lemma strict_weakI:
  assumes "\<And>x y. x \<in> A \<Longrightarrow> y \<in> A \<Longrightarrow> lt x y \<longleftrightarrow> f x < (f y :: 'b :: linorder)"
  shows "strict_weak lt A"
  using assms by (auto simp: strict_weak_def)

lemma strict_weak_mono: "strict_weak lt A \<Longrightarrow> B \<subseteq> A \<Longrightarrow> strict_weak lt B"
  unfolding strict_weak_def by (meson subset_iff)

locale sort_contract =
  fixes srt :: "('a \<Rightarrow> 'a \<Rightarrow> bool) \<Rightarrow> 'a list \<Rightarrow> 'a list"
  assumes permutes: "mset (srt lt xs) = mset xs"
    and orders: "strict_weak lt (set xs) \<Longrightarrow> in_order lt (srt lt xs)"
begin

lemma set_srt [simp]: "set (srt lt xs) = set xs"
  using permutes by (metis set_mset_mset)

lemma length_srt [simp]: "length (srt lt xs) = length xs"
  using permutes by (metis size_mset)

lemma distinct_srt [simp]: "distinct (srt lt xs) = distinct xs"
  using permutes by (metis mset_eq_imp_distinct_iff)

text \<open>Sorting by a key that tells all elements apart gives strictly ascending keys.\<close>

lemma srt_ascending:
  assumes "\<And>x y. x \<in> set xs \<Longrightarrow> y \<in> set xs \<Longrightarrow> lt x y \<longleftrightarrow> f x < (f y :: 'b :: linorder)"
    and "distinct xs" and "inj_on f (set xs)"
  shows "sorted_wrt (\<lambda>x y. f x < f y) (srt lt xs)"
proof -
  have "in_order lt (srt lt xs)" using strict_weakI [of "set xs" lt f] assms(1) by (intro orders) blast
  moreover have "distinct (srt lt xs)" using assms(2) by simp
  ultimately have "sorted_wrt (\<lambda>x y. \<not> lt y x \<and> x \<noteq> y) (srt lt xs)"
    by (simp add: sorted_wrt_iff_nth_less distinct_conv_nth)
  then show ?thesis
    by (rule sorted_wrt_mono_rel [rotated])
      (metis assms(1,3) inj_on_def linorder_less_linear set_srt)
qed

end

fun insert_by :: "('a \<Rightarrow> 'a \<Rightarrow> bool) \<Rightarrow> 'a \<Rightarrow> 'a list \<Rightarrow> 'a list" where
  "insert_by lt x [] = [x]"
| "insert_by lt x (y # ys) = (if lt x y then x # y # ys else y # insert_by lt x ys)"

definition go_sort :: "('a \<Rightarrow> 'a \<Rightarrow> bool) \<Rightarrow> 'a list \<Rightarrow> 'a list" where
  "go_sort lt xs = foldl (\<lambda>ys x. insert_by lt x ys) [] xs"

lemma mset_insert_by [simp]: "mset (insert_by lt x ys) = add_mset x (mset ys)"
  by (induction ys) auto

lemma set_insert_by [simp]: "set (insert_by lt x ys) = insert x (set ys)"
  by (induction ys) auto

lemma mset_foldl_insert: "mset (foldl (\<lambda>ys x. insert_by lt x ys) ys xs) = mset xs + mset ys"
  by (induction xs arbitrary: ys) auto

lemma in_order_insert_by:
  assumes "strict_weak lt (insert x (set ys))" and "in_order lt ys"
  shows "in_order lt (insert_by lt x ys)"
  using assms
proof (induction ys)
  case (Cons y ys)
  have sw: "strict_weak lt (insert x (set ys))"
    using Cons.prems(1) by (rule strict_weak_mono) auto
  have mem: "x \<in> insert x (set (y # ys))" "y \<in> insert x (set (y # ys))" by simp_all
  have asym: "lt x y \<Longrightarrow> \<not> lt y x"
    using Cons.prems(1) mem unfolding strict_weak_def by simp
  have neg: "\<not> lt z x" if "z \<in> set ys" "lt x y" "\<not> lt z y" for z
  proof -
    have "z \<in> insert x (set (y # ys))" using that(1) by simp
    then have "lt z x \<longrightarrow> lt z y \<or> lt y x" using Cons.prems(1) mem unfolding strict_weak_def by blast
    then show ?thesis using that asym by blast
  qed
  show ?case using Cons.IH [OF sw] Cons.prems(2) asym neg by auto
qed simp

lemma in_order_foldl_insert:
  assumes "strict_weak lt (set xs \<union> set ys)" and "in_order lt ys"
  shows "in_order lt (foldl (\<lambda>ys x. insert_by lt x ys) ys xs)"
  using assms
proof (induction xs arbitrary: ys)
  case (Cons x xs)
  have "in_order lt (insert_by lt x ys)"
    using Cons.prems by (intro in_order_insert_by) (auto intro: strict_weak_mono)
  moreover have "strict_weak lt (set xs \<union> set (insert_by lt x ys))"
    using Cons.prems(1) by (simp add: Un_commute)
  ultimately show ?case using Cons.IH by simp
qed simp

interpretation gs: sort_contract go_sort
proof
  show "mset (go_sort lt xs) = mset xs" for lt :: "'a \<Rightarrow> 'a \<Rightarrow> bool" and xs
    by (simp add: go_sort_def mset_foldl_insert)
  show "in_order lt (go_sort lt xs)" if "strict_weak lt (set xs)" for lt :: "'a \<Rightarrow> 'a \<Rightarrow> bool" and xs
    using that by (simp add: go_sort_def in_order_foldl_insert)
qed

end
