(* ===== verification/Storage.thy ===== *)
theory Storage
  imports Event Index_Name Go_Sort "HOL-Library.Sublist"
begin

text \<open>
  What the index is built on. The file system, as the program uses package \<open>os\<close>: a list of nodes,
  each call failing where the environment says so (\<open>fault\<close>). The search library bleve, which is not
  part of this repository, is a parameter: the record \<open>bleve\<close> of the calls the program makes; the
  predicate \<open>bleve_works\<close> states what its documentation promises of them. The shard (\<open>Shard\<close> of
  \<open>index.go\<close>) is the only client of both. A bleve index is identified by the path it is stored at;
  a handle (\<open>s.b\<close>) is that path, \<^const>\<open>None\<close> being nil, and \<open>stores\<close> holds the state behind it. An
  operation that panics returns \<^const>\<open>None\<close>.
\<close>

section \<open>File system\<close>

type_synonym path = "bytes list"

datatype node = Dir | File bytes

datatype syscall = Stat | MkdirAll | Create | WriteString | Open | ReadString | Readdir | RemoveAll

datatype go_error =
    NotExist path | OsError syscall path | BleveError string
  | ShardCheckFailed | BleveNewFailed string | BleveOpenFailed string
  | TooManyShards | IndexExists path
  | IndexAccess path | IndexNotDir path | BadStartTime | EndTimeOpen go_error | EndTimeRead go_error
  | BadEndTime bytes | ShardOpenFailed go_error
  | EngineOpenFailed go_error | EngineIndexFailed path go_error

definition IsNotExist :: "go_error option \<Rightarrow> bool" where
  "IsNotExist err = (case err of Some (NotExist _) \<Rightarrow> True | _ \<Rightarrow> False)"

definition Join :: "path \<Rightarrow> bytes \<Rightarrow> path" where
  "Join p n = p @ [n]"

section \<open>bleve\<close>

datatype field_kind = TextField | DateTimeField

record FieldMapping =
  kind :: field_kind
  Store :: bool
  IncludeInAll :: bool
  IncludeTermVectors :: bool

record IndexMapping =
  tokenizers :: "(string \<times> (string \<times> string) list) list"
  analyzers :: "(string \<times> (string \<times> string list) list) list"
  DefaultAnalyzer :: string
  DefaultMapping :: "(string \<times> FieldMapping) list"

datatype batch_op = IndexOp DocID doc_data | InternalOp bytes bytes

text \<open>
  The calls of bleve: adding a tokenizer or an analyzer to a mapping, \<open>New\<close>, \<open>Open\<close> (given what is
  stored at the path), \<open>Close\<close>, \<open>Batch.Index\<close>, \<open>Index.Batch\<close>, \<open>DocCount\<close>, \<open>GetInternal\<close>, and
  \<open>Search\<close> of an alias over several indexes with a query string and a number of hits.
\<close>

record 'b bleve =
  bl_AddTokenizer :: "string \<Rightarrow> (string \<times> string) list \<Rightarrow> string option"
  bl_AddAnalyzer :: "string \<Rightarrow> (string \<times> string list) list \<Rightarrow> string option"
  bl_New :: "path \<Rightarrow> IndexMapping \<Rightarrow> string + 'b"
  bl_Open :: "path \<Rightarrow> 'b option \<Rightarrow> string + 'b"
  bl_Close :: "'b \<Rightarrow> 'b \<times> string option"
  bl_BatchIndex :: "DocID \<Rightarrow> doc_data \<Rightarrow> string option"
  bl_Batch :: "'b \<Rightarrow> batch_op list \<Rightarrow> 'b \<times> string option"
  bl_DocCount :: "'b \<Rightarrow> string + 64 word"
  bl_GetInternal :: "'b \<Rightarrow> bytes \<Rightarrow> string + bytes"
  bl_Search :: "'b list \<Rightarrow> bytes \<Rightarrow> nat \<Rightarrow> string + DocID list"

record 'b env =
  fault :: "syscall \<Rightarrow> path \<Rightarrow> bool"
  bleve :: "'b bleve"

record 'b world =
  nodes :: "(path \<times> node) list"
  stores :: "path \<Rightarrow> 'b option"

section \<open>Package os\<close>

definition set_node :: "path \<Rightarrow> node \<Rightarrow> (path \<times> node) list \<Rightarrow> (path \<times> node) list" where
  "set_node p nd ns = filter (\<lambda>(q, _). q \<noteq> p) ns @ [(p, nd)]"

definition os_Stat :: "'b env \<Rightarrow> 'b world \<Rightarrow> path \<Rightarrow> go_error + node" where
  "os_Stat env w p =
     (if fault env Stat p then Inl (OsError Stat p)
      else case map_of (nodes w) p of None \<Rightarrow> Inl (NotExist p) | Some nd \<Rightarrow> Inr nd)"

fun mkdirs :: "path list \<Rightarrow> (path \<times> node) list \<Rightarrow> (path \<times> node) list option" where
  "mkdirs [] ns = Some ns"
| "mkdirs (p # ps) ns =
     (case map_of ns p of
        Some (File _) \<Rightarrow> None
      | Some Dir \<Rightarrow> mkdirs ps ns
      | None \<Rightarrow> mkdirs ps (set_node p Dir ns))"

definition os_MkdirAll :: "'b env \<Rightarrow> 'b world \<Rightarrow> path \<Rightarrow> 'b world \<times> go_error option" where
  "os_MkdirAll env w p =
     (if fault env MkdirAll p then (w, Some (OsError MkdirAll p))
      else case mkdirs (map (\<lambda>k. take k p) [1..<Suc (length p)]) (nodes w) of
             None \<Rightarrow> (w, Some (OsError MkdirAll p))
           | Some ns \<Rightarrow> (w\<lparr>nodes := ns\<rparr>, None))"

text \<open>\<open>os.Create\<close> truncates an existing file; the directory must exist.\<close>

definition os_Create :: "'b env \<Rightarrow> 'b world \<Rightarrow> path \<Rightarrow> 'b world \<times> go_error option" where
  "os_Create env w p =
     (if fault env Create p \<or> map_of (nodes w) p = Some Dir \<or> map_of (nodes w) (butlast p) \<noteq> Some Dir
      then (w, Some (OsError Create p))
      else (w\<lparr>nodes := set_node p (File []) (nodes w)\<rparr>, None))"

definition file_WriteString :: "'b env \<Rightarrow> 'b world \<Rightarrow> path \<Rightarrow> bytes \<Rightarrow> 'b world \<times> go_error option" where
  "file_WriteString env w p s =
     (case map_of (nodes w) p of
        Some (File c) \<Rightarrow>
          if fault env WriteString p then (w, Some (OsError WriteString p))
          else (w\<lparr>nodes := set_node p (File (c @ s)) (nodes w)\<rparr>, None)
      | _ \<Rightarrow> (w, Some (OsError WriteString p)))"

text \<open>\<open>os.Open\<close>, and \<open>ReadString\<close> of a reader on the file: the text up to and including the newline.\<close>

definition os_Open :: "'b env \<Rightarrow> 'b world \<Rightarrow> path \<Rightarrow> go_error + node" where
  "os_Open env w p =
     (if fault env Open p then Inl (OsError Open p)
      else case map_of (nodes w) p of None \<Rightarrow> Inl (NotExist p) | Some nd \<Rightarrow> Inr nd)"

definition read_line_of :: "'b env \<Rightarrow> path \<Rightarrow> node \<Rightarrow> go_error + bytes" where
  "read_line_of env p nd =
     (case nd of
        Dir \<Rightarrow> Inl (OsError ReadString p)
      | File c \<Rightarrow>
          if fault env ReadString p then Inl (OsError ReadString p)
          else Inr (if LF \<in> set c then takeWhile (\<lambda>x. x \<noteq> LF) c @ [LF] else c))"

text \<open>\<open>Readdir(0)\<close>: the entries of a directory, in the order of the listing.\<close>

definition entries :: "(path \<times> node) list \<Rightarrow> path \<Rightarrow> (bytes \<times> node) list" where
  "entries ns p = map (\<lambda>(q, nd). (last q, nd)) (filter (\<lambda>(q, _). q \<noteq> [] \<and> butlast q = p) ns)"

definition file_Readdir :: "'b env \<Rightarrow> 'b world \<Rightarrow> path \<Rightarrow> node \<Rightarrow> go_error + (bytes \<times> node) list" where
  "file_Readdir env w p nd =
     (if fault env Readdir p \<or> nd \<noteq> Dir then Inl (OsError Readdir p) else Inr (entries (nodes w) p))"

definition os_RemoveAll :: "'b env \<Rightarrow> 'b world \<Rightarrow> path \<Rightarrow> 'b world \<times> go_error option" where
  "os_RemoveAll env w p =
     (if fault env RemoveAll p then (w, Some (OsError RemoveAll p))
      else (w\<lparr>nodes := filter (\<lambda>(q, _). \<not> prefix p q) (nodes w),
             stores := (\<lambda>q. if prefix p q then None else stores w q)\<rparr>, None))"

section \<open>Shards (index.go)\<close>

text \<open>What \<open>Document\<close>, the interface, delivers of a document.\<close>

record Document =
  doc_id :: DocID
  data :: doc_data
  source :: bytes

record Shard =
  sh_path :: path
  sh_b :: "path option"

definition NewShard :: "path \<Rightarrow> Shard" where
  "NewShard p = \<lparr>sh_path = p, sh_b = None\<rparr>"

definition buildIndexMapping :: "'b env \<Rightarrow> go_error + IndexMapping" where
  "buildIndexMapping env =
     (let tk = [(''regexp'', ''[^'' @ [CHR 0x5C] @ ''W_]+''), (''type'', ''regexp'')];
          an = [(''type'', [''custom'']), (''char_filters'', []), (''tokenizer'', [''ekanite_tk'']),
                (''token_filters'', [''to_lower''])];
          simpleJustIndexed = \<lparr>kind = TextField, Store = False, IncludeInAll = True, IncludeTermVectors = False\<rparr>;
          timeJustIndexed = \<lparr>kind = DateTimeField, Store = False, IncludeInAll = False, IncludeTermVectors = False\<rparr>
      in case bl_AddTokenizer (bleve env) ''ekanite_tk'' tk of
           Some e \<Rightarrow> Inl (BleveError e)
         | None \<Rightarrow>
             (case bl_AddAnalyzer (bleve env) ''ekanite'' an of
                Some e \<Rightarrow> Inl (BleveError e)
              | None \<Rightarrow>
                  Inr \<lparr>tokenizers = [(''ekanite_tk'', tk)], analyzers = [(''ekanite'', an)],
                       DefaultAnalyzer = ''ekanite'',
                       DefaultMapping = [(''Message'', simpleJustIndexed), (''ReferenceTime'', timeJustIndexed),
                         (''ReceptionTime'', timeJustIndexed)]\<rparr>))"

definition Shard_Open :: "'b env \<Rightarrow> 'b world \<Rightarrow> Shard \<Rightarrow> 'b world \<times> (go_error + Shard)" where
  "Shard_Open env w s =
     (let p = sh_path s; st = os_Stat env w p; err = (case st of Inl e \<Rightarrow> Some e | Inr _ \<Rightarrow> None)
      in if err \<noteq> None \<and> \<not> IsNotExist err then (w, Inl ShardCheckFailed)
         else if IsNotExist err then
           (case buildIndexMapping env of
              Inl e \<Rightarrow> (w, Inl e)
            | Inr m \<Rightarrow>
                (case bl_New (bleve env) p m of
                   Inl e \<Rightarrow> (w, Inl (BleveNewFailed e))
                 | Inr bx \<Rightarrow>
                     (w\<lparr>nodes := set_node p Dir (nodes w), stores := (stores w)(p \<mapsto> bx)\<rparr>,
                      Inr (s\<lparr>sh_b := Some p\<rparr>))))
         else
           (case bl_Open (bleve env) p (stores w p) of
              Inl e \<Rightarrow> (w, Inl (BleveOpenFailed e))
            | Inr bx \<Rightarrow> (w\<lparr>stores := (stores w)(p \<mapsto> bx)\<rparr>, Inr (s\<lparr>sh_b := Some p\<rparr>))))"

definition deref :: "'b world \<Rightarrow> path option \<Rightarrow> 'b option" where
  "deref w h = Option.bind h (stores w)"

definition Shard_Close :: "'b env \<Rightarrow> 'b world \<Rightarrow> Shard \<Rightarrow> ('b world \<times> go_error option) option" where
  "Shard_Close env w s =
     (case sh_b s of
        None \<Rightarrow> None
      | Some p \<Rightarrow>
          (case stores w p of
             None \<Rightarrow> None
           | Some bx \<Rightarrow>
               (case bl_Close (bleve env) bx of
                  (bx', e) \<Rightarrow> Some (w\<lparr>stores := (stores w)(p \<mapsto> bx')\<rparr>, map_option BleveError e))))"

text \<open>The batch of \<open>Shard.Index\<close>: for each document its data under the ID and its source beside it.\<close>

fun batch_of :: "'b env \<Rightarrow> Document list \<Rightarrow> go_error + batch_op list" where
  "batch_of env [] = Inr []"
| "batch_of env (d # ds) =
     (case bl_BatchIndex (bleve env) (doc_id d) (data d) of
        Some e \<Rightarrow> Inl (BleveError e)
      | None \<Rightarrow>
          (case batch_of env ds of
             Inl e \<Rightarrow> Inl e
           | Inr ops \<Rightarrow> Inr (IndexOp (doc_id d) (data d) # InternalOp (doc_id d) (source d) # ops)))"

definition shard_step :: "'b env \<Rightarrow> 'b \<Rightarrow> Document list \<Rightarrow> 'b \<times> go_error option" where
  "shard_step env bx ds =
     (case batch_of env ds of
        Inl e \<Rightarrow> (bx, Some e)
      | Inr ops \<Rightarrow> (case bl_Batch (bleve env) bx ops of (bx', e) \<Rightarrow> (bx', map_option BleveError e)))"

definition Shard_Index :: "'b env \<Rightarrow> 'b world \<Rightarrow> Shard \<Rightarrow> Document list \<Rightarrow> ('b world \<times> go_error option) option" where
  "Shard_Index env w s ds =
     (case sh_b s of
        None \<Rightarrow> None
      | Some p \<Rightarrow>
          (case stores w p of
             None \<Rightarrow> None
           | Some bx \<Rightarrow>
               (case shard_step env bx ds of
                  (bx', e) \<Rightarrow> Some (w\<lparr>stores := (stores w)(p \<mapsto> bx')\<rparr>, e))))"

definition Shard_Total :: "'b env \<Rightarrow> 'b world \<Rightarrow> Shard \<Rightarrow> (go_error + 64 word) option" where
  "Shard_Total env w s = map_option (\<lambda>bx. map_sum BleveError id (bl_DocCount (bleve env) bx)) (deref w (sh_b s))"

definition Shard_Document :: "'b env \<Rightarrow> 'b world \<Rightarrow> Shard \<Rightarrow> DocID \<Rightarrow> (go_error + bytes) option" where
  "Shard_Document env w s i =
     map_option (\<lambda>bx. map_sum BleveError id (bl_GetInternal (bleve env) bx i)) (deref w (sh_b s))"

section \<open>What bleve promises\<close>

text \<open>
  A view of a bleve index: the indexed documents by ID, the internal values by key, whether the index
  is open; and which documents a query string matches.
\<close>

record 'b view =
  docs_of :: "'b \<Rightarrow> DocID \<rightharpoonup> doc_data"
  ints_of :: "'b \<Rightarrow> bytes \<rightharpoonup> bytes"
  is_open :: "'b \<Rightarrow> bool"
  matches :: "bytes \<Rightarrow> doc_data \<Rightarrow> bool"

fun apply_docs :: "batch_op list \<Rightarrow> (DocID \<rightharpoonup> doc_data) \<Rightarrow> (DocID \<rightharpoonup> doc_data)" where
  "apply_docs [] m = m"
| "apply_docs (IndexOp i d # ops) m = apply_docs ops (m(i \<mapsto> d))"
| "apply_docs (InternalOp k v # ops) m = apply_docs ops m"

fun apply_ints :: "batch_op list \<Rightarrow> (bytes \<rightharpoonup> bytes) \<Rightarrow> (bytes \<rightharpoonup> bytes)" where
  "apply_ints [] m = m"
| "apply_ints (IndexOp i d # ops) m = apply_ints ops m"
| "apply_ints (InternalOp k v # ops) m = apply_ints ops (m(k \<mapsto> v))"

definition found :: "'b view \<Rightarrow> 'b list \<Rightarrow> bytes \<Rightarrow> DocID set" where
  "found V bs q = {i. \<exists>b\<in>set bs. \<exists>d. docs_of V b i = Some d \<and> matches V q d}"

definition disjoint_docs :: "'b view \<Rightarrow> 'b list \<Rightarrow> bool" where
  "disjoint_docs V bs \<longleftrightarrow>
     (\<forall>x<length bs. \<forall>y<length bs. x \<noteq> y \<longrightarrow> dom (docs_of V (bs ! x)) \<inter> dom (docs_of V (bs ! y)) = {})"

text \<open>
  bleve without failures: a new index is empty and open; a batch applies its operations in order; the
  document count, internal values and searches reflect what is stored. A search over indexes with
  different documents returns different IDs of matching documents, all of them if there are at most
  as many as were asked for.
\<close>

definition bleve_works :: "'b bleve \<Rightarrow> 'b view \<Rightarrow> bool" where
  "bleve_works B V \<longleftrightarrow>
     (\<forall>n c. bl_AddTokenizer B n c = None) \<and> (\<forall>n c. bl_AddAnalyzer B n c = None) \<and>
     (\<forall>p m. \<exists>b. bl_New B p m = Inr b \<and> is_open V b \<and> docs_of V b = Map.empty \<and> ints_of V b = Map.empty) \<and>
     (\<forall>i d. bl_BatchIndex B i d = None) \<and>
     (\<forall>b ops. is_open V b \<longrightarrow>
        (\<exists>b'. bl_Batch B b ops = (b', None) \<and> is_open V b' \<and>
           docs_of V b' = apply_docs ops (docs_of V b) \<and> ints_of V b' = apply_ints ops (ints_of V b))) \<and>
     (\<forall>b. is_open V b \<longrightarrow> finite (dom (docs_of V b)) \<and> bl_DocCount B b = Inr (of_nat (card (dom (docs_of V b))))) \<and>
     (\<forall>b k. is_open V b \<longrightarrow> bl_GetInternal B b k = Inr (case ints_of V b k of None \<Rightarrow> [] | Some v \<Rightarrow> v)) \<and>
     (\<forall>bs q n. (\<forall>b\<in>set bs. is_open V b) \<and> disjoint_docs V bs \<longrightarrow>
        (\<exists>hits. bl_Search B bs q n = Inr hits \<and> distinct hits \<and> set hits \<subseteq> found V bs q \<and>
           length hits = min n (card (found V bs q))))"

lemma bleve_worksD:
  assumes "bleve_works B V"
  shows "bl_AddTokenizer B n c = None" and "bl_AddAnalyzer B n c' = None" and "bl_BatchIndex B i d = None"
    and "\<exists>b. bl_New B p m = Inr b \<and> is_open V b \<and> docs_of V b = Map.empty \<and> ints_of V b = Map.empty"
    and "is_open V b \<Longrightarrow> \<exists>b'. bl_Batch B b ops = (b', None) \<and> is_open V b' \<and>
           docs_of V b' = apply_docs ops (docs_of V b) \<and> ints_of V b' = apply_ints ops (ints_of V b)"
    and "is_open V b \<Longrightarrow> finite (dom (docs_of V b))"
    and "is_open V b \<Longrightarrow> bl_DocCount B b = Inr (of_nat (card (dom (docs_of V b))))"
    and "is_open V b \<Longrightarrow> bl_GetInternal B b k = Inr (case ints_of V b k of None \<Rightarrow> [] | Some v \<Rightarrow> v)"
    and "\<lbrakk>\<forall>b\<in>set bs. is_open V b; disjoint_docs V bs\<rbrakk> \<Longrightarrow>
        \<exists>hits. bl_Search B bs q k' = Inr hits \<and> distinct hits \<and> set hits \<subseteq> found V bs q \<and>
           length hits = min k' (card (found V bs q))"
  using assms unfolding bleve_works_def by simp_all

subsection \<open>Batches of documents\<close>

text \<open>The documents of a batch by ID; of two with the same ID the later one counts.\<close>

definition doc_map :: "Document list \<Rightarrow> DocID \<rightharpoonup> Document" where
  "doc_map ds = map_of (rev (map (\<lambda>d. (doc_id d, d)) ds))"

lemma doc_map_simps [simp]:
  "doc_map [] = Map.empty" "doc_map (d # ds) = [doc_id d \<mapsto> d] ++ doc_map ds"
  by (simp_all add: doc_map_def)

lemma doc_map_None: "doc_map ds i = None \<longleftrightarrow> i \<notin> doc_id ` set ds"
  by (simp add: doc_map_def map_of_eq_None_iff image_image)

lemma doc_map_Some: "doc_map ds i = Some d \<Longrightarrow> d \<in> set ds \<and> doc_id d = i"
  by (auto simp: doc_map_def dest!: map_of_SomeD)

lemma doc_map_distinct: "distinct (map doc_id ds) \<Longrightarrow> d \<in> set ds \<Longrightarrow> doc_map ds (doc_id d) = Some d"
  by (simp add: doc_map_def rev_map [symmetric] comp_def image_iff)

lemma doc_map_filter: "P i \<Longrightarrow> doc_map (filter (\<lambda>d. P (doc_id d)) ds) i = doc_map ds i"
  by (induction ds) (auto simp: map_add_def split: option.splits)

lemma batch_of_works:
  assumes "bleve_works (bleve env) V"
  shows "\<exists>ops. batch_of env ds = Inr ops \<and>
    (\<forall>m. apply_docs ops m = m ++ (map_option data \<circ> doc_map ds)) \<and>
    (\<forall>m. apply_ints ops m = m ++ (map_option source \<circ> doc_map ds))"
proof (induction ds)
  case Nil
  then show ?case by (simp add: comp_def map_add_def)
next
  case (Cons d ds)
  then obtain ops where ops: "batch_of env ds = Inr ops"
    "\<And>m. apply_docs ops m = m ++ (map_option data \<circ> doc_map ds)"
    "\<And>m. apply_ints ops m = m ++ (map_option source \<circ> doc_map ds)" by blast
  let ?ops = "IndexOp (doc_id d) (data d) # InternalOp (doc_id d) (source d) # ops"
  have "batch_of env (d # ds) = Inr ?ops" using ops(1) assms by (simp add: bleve_worksD(3))
  moreover have "apply_docs ?ops m = m ++ (map_option data \<circ> doc_map (d # ds))" for m
    by (auto simp: ops(2) map_add_def fun_eq_iff split: option.splits)
  moreover have "apply_ints ?ops m = m ++ (map_option source \<circ> doc_map (d # ds))" for m
    by (auto simp: ops(3) map_add_def fun_eq_iff split: option.splits)
  ultimately show ?case by blast
qed

lemma shard_step_works:
  assumes "bleve_works (bleve env) V" and "is_open V b"
  shows "\<exists>b'. shard_step env b ds = (b', None) \<and> is_open V b' \<and>
    docs_of V b' = docs_of V b ++ (map_option data \<circ> doc_map ds) \<and>
    ints_of V b' = ints_of V b ++ (map_option source \<circ> doc_map ds)"
proof -
  from batch_of_works [OF assms(1)] obtain ops where ops: "batch_of env ds = Inr ops"
    "\<And>m. apply_docs ops m = m ++ (map_option data \<circ> doc_map ds)"
    "\<And>m. apply_ints ops m = m ++ (map_option source \<circ> doc_map ds)" by blast
  from bleve_worksD(5) [OF assms, of ops] ops show ?thesis by (auto simp: shard_step_def)
qed

subsection \<open>bleve in memory\<close>

text \<open>
  An instance of the contract, to evaluate the model with: association lists, and a query that
  matches the documents whose message contains it.
\<close>

record mem_index =
  m_docs :: "(DocID \<times> doc_data) list"
  m_ints :: "(bytes \<times> bytes) list"
  m_open :: bool

definition mem_view :: "mem_index view" where
  "mem_view = \<lparr>docs_of = (\<lambda>b. map_of (m_docs b)), ints_of = (\<lambda>b. map_of (m_ints b)), is_open = m_open,
     matches = (\<lambda>q d. sublist q (Message d))\<rparr>"

fun mem_op :: "mem_index \<Rightarrow> batch_op \<Rightarrow> mem_index" where
  "mem_op b (IndexOp i d) = b\<lparr>m_docs := (i, d) # m_docs b\<rparr>"
| "mem_op b (InternalOp k v) = b\<lparr>m_ints := (k, v) # m_ints b\<rparr>"

definition mem_hits :: "mem_index \<Rightarrow> bytes \<Rightarrow> DocID list" where
  "mem_hits b q = filter (\<lambda>i. case map_of (m_docs b) i of None \<Rightarrow> False | Some d \<Rightarrow> sublist q (Message d))
     (remdups (map fst (m_docs b)))"

definition mem_bleve :: "mem_index bleve" where
  "mem_bleve = \<lparr>bl_AddTokenizer = (\<lambda>_ _. None), bl_AddAnalyzer = (\<lambda>_ _. None),
     bl_New = (\<lambda>_ _. Inr \<lparr>m_docs = [], m_ints = [], m_open = True\<rparr>),
     bl_Open = (\<lambda>_ b. case b of None \<Rightarrow> Inl ''no index'' | Some x \<Rightarrow> if m_open x then Inl ''in use'' else Inr (x\<lparr>m_open := True\<rparr>)),
     bl_Close = (\<lambda>b. (b\<lparr>m_open := False\<rparr>, None)),
     bl_BatchIndex = (\<lambda>_ _. None),
     bl_Batch = (\<lambda>b ops. (foldl mem_op b ops, None)),
     bl_DocCount = (\<lambda>b. Inr (of_nat (length (remdups (map fst (m_docs b)))))),
     bl_GetInternal = (\<lambda>b k. Inr (case map_of (m_ints b) k of None \<Rightarrow> [] | Some v \<Rightarrow> v)),
     bl_Search = (\<lambda>bs q n. Inr (take n (remdups (concat (map (\<lambda>b. mem_hits b q) bs)))))\<rparr>"

lemma mem_ops:
  "m_open (foldl mem_op b ops) = m_open b"
  "map_of (m_docs (foldl mem_op b ops)) = apply_docs ops (map_of (m_docs b))"
  "map_of (m_ints (foldl mem_op b ops)) = apply_ints ops (map_of (m_ints b))"
proof (induction ops arbitrary: b)
  case (Cons x ops)
  { case 1 then show ?case using Cons by (cases x) (simp_all add: fun_upd_def) }
  { case 2 then show ?case using Cons by (cases x) (simp_all add: fun_upd_def) }
  { case 3 then show ?case using Cons by (cases x) (simp_all add: fun_upd_def) }
qed simp_all

lemma card_dom_remdups: "card (dom (map_of xs)) = length (remdups (map fst xs))"
  by (metis dom_map_of_conv_image_fst length_remdups_card_conv list.set_map)

lemma set_mem_hits: "set (mem_hits b q) = {i. \<exists>d. map_of (m_docs b) i = Some d \<and> sublist q (Message d)}"
  by (auto simp: mem_hits_def split: option.splits dest: map_of_SomeD intro: rev_image_eqI)

lemma mem_bleve_works: "bleve_works mem_bleve mem_view"
proof -
  have s: "\<exists>hits. take n (remdups (concat (map (\<lambda>b. mem_hits b q) bs))) = hits \<and> distinct hits \<and>
      set hits \<subseteq> found mem_view bs q \<and> length hits = min n (card (found mem_view bs q))" for bs q n
  proof -
    let ?h = "remdups (concat (map (\<lambda>b. mem_hits b q) bs))"
    have h: "set ?h = found mem_view bs q"
      by (auto simp: found_def set_mem_hits mem_view_def)
    then have "length ?h = card (found mem_view bs q)" by (metis distinct_card distinct_remdups)
    with h show ?thesis
      by (metis distinct_remdups distinct_take length_take min.commute set_take_subset)
  qed
  show ?thesis
    unfolding bleve_works_def using s
    by (simp add: mem_bleve_def mem_view_def mem_ops card_dom_remdups finite_dom_map_of)
qed

end
