(* ===== verification/Index_Store.thy ===== *)
theory Index_Store
  imports Storage
begin

text \<open>
  \<open>Index\<close> of \<open>index.go\<close>: a group of shards for one range of time. Documents are routed to shards by
  the FNV-1a hash of their ID. Shows that indexing a batch, whatever the order in which the
  goroutines of the shards run, stores each document where \<open>Document\<close> looks for it, that searches
  return ascending IDs of matching documents, and that an index on disk opens with the time range
  and the shards it was created with.
\<close>

section \<open>Model\<close>

abbreviation (input) maxSearchHitSize :: nat where "maxSearchHitSize \<equiv> 10000"
abbreviation (input) maxShardCount :: int where "maxShardCount \<equiv> 9999"
abbreviation (input) endTimeFileName :: bytes where "endTimeFileName \<equiv> ''endtime''"

record Index =
  ipath :: path
  startTime :: gtime
  endTime :: gtime
  Shards :: "Shard list"
  Alias :: "path option list"

definition Indexes_Less :: "Index \<Rightarrow> Index \<Rightarrow> bool" where
  "Indexes_Less u v \<longleftrightarrow> endTime v < endTime u \<or> startTime v < startTime u"

fun open_shards :: "'b env \<Rightarrow> 'b world \<Rightarrow> path list \<Rightarrow> 'b world \<times> (go_error + Shard list)" where
  "open_shards env w [] = (w, Inr [])"
| "open_shards env w (p # ps) =
     (case Shard_Open env w (NewShard p) of
        (w1, Inl e) \<Rightarrow> (w1, Inl e)
      | (w1, Inr s) \<Rightarrow>
          (case open_shards env w1 ps of
             (w2, Inl e) \<Rightarrow> (w2, Inl e)
           | (w2, Inr ss) \<Rightarrow> (w2, Inr (s # ss))))"

definition shard_name :: "nat \<Rightarrow> bytes" where
  "shard_name n = append_int (int n) 4"

text \<open>
  \<open>NewIndex\<close>. The test for an existing index is written as in the source, where it never holds; a
  negative number of shards panics in \<open>make\<close>.
\<close>

definition NewIndex :: "'b env \<Rightarrow> 'b world \<Rightarrow> path \<Rightarrow> gtime \<Rightarrow> gtime \<Rightarrow> int \<Rightarrow>
    ('b world \<times> (go_error + Index)) option" where
  "NewIndex env w path start end numShards =
     (let indexPath = Join path (format_index_name start);
          durationPath = Join indexPath endTimeFileName;
          err = (case os_Stat env w indexPath of Inl e \<Rightarrow> Some e | Inr _ \<Rightarrow> None)
      in if maxShardCount < numShards then Some (w, Inl TooManyShards)
         else if err = None \<and> IsNotExist err then Some (w, Inl (IndexExists indexPath))
         else
           (case os_MkdirAll env w indexPath of
              (w1, Some e) \<Rightarrow> Some (w1, Inl e)
            | (w1, None) \<Rightarrow>
                (case os_Create env w1 durationPath of
                   (w2, Some e) \<Rightarrow> Some (w2, Inl e)
                 | (w2, None) \<Rightarrow>
                     (case file_WriteString env w2 durationPath (format_index_name end) of
                        (w3, Some e) \<Rightarrow> Some (w3, Inl e)
                      | (w3, None) \<Rightarrow>
                          if numShards < 0 then None
                          else
                            (case open_shards env w3 (map (\<lambda>n. Join indexPath (shard_name n)) [0..<nat numShards]) of
                               (w4, Inl e) \<Rightarrow> Some (w4, Inl e)
                             | (w4, Inr shards) \<Rightarrow>
                                 Some (w4, Inr \<lparr>ipath = indexPath, startTime = start, endTime = end,
                                   Shards = shards, Alias = map sh_b shards\<rparr>))))))"

text \<open>\<open>sort.Strings\<close>: Go compares strings byte by byte.\<close>

fun str_less :: "bytes \<Rightarrow> bytes \<Rightarrow> bool" where
  "str_less _ [] = False"
| "str_less [] (_ # _) = True"
| "str_less (a # s) (b # t) =
     (of_char a < (of_char b :: nat) \<or> a = b \<and> str_less s t)"

definition listShards :: "'b env \<Rightarrow> 'b world \<Rightarrow> path \<Rightarrow> go_error + bytes list" where
  "listShards env w path =
     (case os_Open env w path of
        Inl e \<Rightarrow> Inl e
      | Inr d \<Rightarrow>
          (case file_Readdir env w path d of
             Inl e \<Rightarrow> Inl e
           | Inr fis \<Rightarrow>
               Inr (go_sort str_less
                 (map fst (filter (\<lambda>(name, nd). \<not> (nd \<noteq> Dir \<or> has_prefix name ''.'')) fis)))))"

definition OpenIndex :: "'b env \<Rightarrow> 'b world \<Rightarrow> path \<Rightarrow> 'b world \<times> (go_error + Index)" where
  "OpenIndex env w path =
     (case os_Stat env w path of
        Inl _ \<Rightarrow> (w, Inl (IndexAccess path))
      | Inr fi \<Rightarrow>
          if fi \<noteq> Dir then (w, Inl (IndexNotDir path))
          else
            (case parse_index_name (last path) of
               None \<Rightarrow> (w, Inl BadStartTime)
             | Some start \<Rightarrow>
                 (case os_Open env w (Join path endTimeFileName) of
                    Inl e \<Rightarrow> (w, Inl (EndTimeOpen e))
                  | Inr f \<Rightarrow>
                      (case read_line_of env (Join path endTimeFileName) f of
                         Inl e \<Rightarrow> (w, Inl (EndTimeRead e))
                       | Inr s \<Rightarrow>
                           (case parse_index_name s of
                              None \<Rightarrow> (w, Inl (BadEndTime s))
                            | Some end \<Rightarrow>
                                (case listShards env w path of
                                   Inl e \<Rightarrow> (w, Inl e)
                                 | Inr names \<Rightarrow>
                                     (case open_shards env w (map (Join path) names) of
                                        (w1, Inl e) \<Rightarrow> (w1, Inl (ShardOpenFailed e))
                                      | (w1, Inr shards) \<Rightarrow>
                                          (w1, Inr \<lparr>ipath = path, startTime = start, endTime = end,
                                            Shards = shards, Alias = map sh_b shards\<rparr>))))))))"

definition Expired :: "Index \<Rightarrow> gtime \<Rightarrow> duration \<Rightarrow> bool" where
  "Expired i t r \<longleftrightarrow> endTime i + r < t"

definition Contains :: "Index \<Rightarrow> gtime \<Rightarrow> bool" where
  "Contains i t \<longleftrightarrow> (t = startTime i \<or> startTime i < t) \<and> t < endTime i"

text \<open>\<open>Index.Total\<close>: the sum wraps like Go's \<open>uint64\<close>.\<close>

fun sum_totals :: "'b env \<Rightarrow> 'b world \<Rightarrow> Shard list \<Rightarrow> 64 word \<Rightarrow> (go_error + 64 word) option" where
  "sum_totals env w [] acc = Some (Inr acc)"
| "sum_totals env w (s # ss) acc =
     (case Shard_Total env w s of
        None \<Rightarrow> None
      | Some (Inl e) \<Rightarrow> Some (Inl e)
      | Some (Inr t) \<Rightarrow> sum_totals env w ss (acc + t))"

definition Index_Total :: "'b env \<Rightarrow> 'b world \<Rightarrow> Index \<Rightarrow> (go_error + 64 word) option" where
  "Index_Total env w i = sum_totals env w (Shards i) 0"

text \<open>\<open>hash/fnv\<close>: 32-bit FNV-1a.\<close>

definition fnv32a :: "bytes \<Rightarrow> 32 word" where
  "fnv32a s = foldl (\<lambda>h c. xor h (of_nat (of_char c)) * 16777619) 2166136261 s"

text \<open>\<open>Index.Shard\<close>: the position of the shard; the remainder by zero panics.\<close>

definition Index_Shard :: "Index \<Rightarrow> DocID \<Rightarrow> nat option" where
  "Index_Shard i docId =
     (let n = of_nat (length (Shards i)) :: 32 word
      in if n = 0 then None else Some (unat (fnv32a docId mod n)))"

text \<open>
  \<open>Index.Index\<close>: the batches per shard, and the loop over them. The map has the shards as keys,
  here their positions. Goroutines for different shards share no data; that the order does not
  matter is proved below. Errors of \<open>Shard.Index\<close> are dropped, as in the source.
\<close>

definition add_to :: "'k \<Rightarrow> 'a \<Rightarrow> ('k \<times> 'a list) list \<Rightarrow> ('k \<times> 'a list) list" where
  "add_to k x m =
     (if k \<in> fst ` set m then map (\<lambda>(k', xs). (k', if k' = k then xs @ [x] else xs)) m
      else m @ [(k, [x])])"

fun shard_batches :: "Index \<Rightarrow> Document list \<Rightarrow> (nat \<times> Document list) list \<Rightarrow> (nat \<times> Document list) list option" where
  "shard_batches i [] m = Some m"
| "shard_batches i (d # ds) m =
     (case Index_Shard i (doc_id d) of
        None \<Rightarrow> None
      | Some k \<Rightarrow> shard_batches i ds (add_to k d m))"

fun run_batches :: "'b env \<Rightarrow> 'b world \<Rightarrow> Index \<Rightarrow> (nat \<times> Document list) list \<Rightarrow> 'b world option" where
  "run_batches env w i [] = Some w"
| "run_batches env w i ((k, b) # bs) =
     (case Shard_Index env w (Shards i ! k) b of
        None \<Rightarrow> None
      | Some (w1, _) \<Rightarrow> run_batches env w1 i bs)"

definition Index_Index :: "'b env \<Rightarrow> 'b world \<Rightarrow> Index \<Rightarrow> Document list \<Rightarrow> ('b world \<times> go_error option) option" where
  "Index_Index env w i ds =
     (case shard_batches i ds [] of
        None \<Rightarrow> None
      | Some bs \<Rightarrow> map_option (\<lambda>w1. (w1, None)) (run_batches env w i bs))"

text \<open>
  \<open>sort.Sort\<close> on document IDs: every element is compared when there are at least two, so an ID that
  does not parse panics there.
\<close>

definition id_less :: "DocID \<Rightarrow> DocID \<Rightarrow> bool" where
  "id_less x y = (DocIDs_Less x y = Some True)"

definition sort_ids :: "DocID list \<Rightarrow> DocID list option" where
  "sort_ids ids =
     (if 2 \<le> length ids \<and> \<not> list_all (\<lambda>x. id_words x \<noteq> None) ids then None
      else Some (go_sort id_less ids))"

definition Index_Search :: "'b env \<Rightarrow> 'b world \<Rightarrow> Index \<Rightarrow> bytes \<Rightarrow> (go_error + DocID list) option" where
  "Index_Search env w i q =
     (case those (map (deref w) (Alias i)) of
        None \<Rightarrow> None
      | Some bs \<Rightarrow>
          (case bl_Search (bleve env) bs q maxSearchHitSize of
             Inl e \<Rightarrow> Some (Inl (BleveError e))
           | Inr hits \<Rightarrow> map_option Inr (sort_ids hits)))"

definition Index_Document :: "'b env \<Rightarrow> 'b world \<Rightarrow> Index \<Rightarrow> DocID \<Rightarrow> (go_error + bytes) option" where
  "Index_Document env w i docId =
     (case Index_Shard i docId of
        None \<Rightarrow> None
      | Some k \<Rightarrow> Shard_Document env w (Shards i ! k) docId)"

fun close_shards :: "'b env \<Rightarrow> 'b world \<Rightarrow> Shard list \<Rightarrow> ('b world \<times> go_error option) option" where
  "close_shards env w [] = Some (w, None)"
| "close_shards env w (s # ss) =
     (case Shard_Close env w s of
        None \<Rightarrow> None
      | Some (w1, Some e) \<Rightarrow> Some (w1, Some e)
      | Some (w1, None) \<Rightarrow> close_shards env w1 ss)"

definition Index_Close :: "'b env \<Rightarrow> 'b world \<Rightarrow> Index \<Rightarrow> ('b world \<times> go_error option) option" where
  "Index_Close env w i = close_shards env w (Shards i)"

definition DeleteIndex :: "'b env \<Rightarrow> 'b world \<Rightarrow> Index \<Rightarrow> ('b world \<times> go_error option) option" where
  "DeleteIndex env w i =
     (case Index_Close env w i of
        None \<Rightarrow> None
      | Some (w1, _) \<Rightarrow> Some (os_RemoveAll env w1 (ipath i)))"

section \<open>Routing\<close>

lemma Index_Shard_less: "Index_Shard i x = Some k \<Longrightarrow> k < length (Shards i)"
proof -
  assume "Index_Shard i x = Some k"
  then have n: "(of_nat (length (Shards i)) :: 32 word) \<noteq> 0"
    and k: "k = unat (fnv32a x mod of_nat (length (Shards i)))"
    by (auto simp: Index_Shard_def Let_def split: if_splits)
  have "k < unat (of_nat (length (Shards i)) :: 32 word)"
    unfolding k unat_mod using n by (simp add: unat_gt_0)
  also have "\<dots> \<le> length (Shards i)" by (simp add: unat_of_nat)
  finally show ?thesis .
qed

lemma Index_Shard_total:
  assumes "Shards i \<noteq> []" and "length (Shards i) < 2 ^ 32"
  shows "\<exists>k. Index_Shard i x = Some k"
proof -
  have "(of_nat (length (Shards i)) :: 32 word) \<noteq> 0"
    using assms by (auto simp: word_of_nat_eq_0_iff dest: dvd_imp_le)
  then show ?thesis by (simp add: Index_Shard_def)
qed

lemma add_to_spec:
  assumes "distinct (map fst m)"
  shows "distinct (map fst (add_to k x m))"
    and "map_of (add_to k x m) j =
      (if j = k then Some ((case map_of m k of None \<Rightarrow> [] | Some xs \<Rightarrow> xs) @ [x]) else map_of m j)"
proof -
  have f: "map_of (map (\<lambda>(k', xs). (k', if k' = k then xs @ [x] else xs)) m) j =
      (if j = k then map_option (\<lambda>xs. xs @ [x]) (map_of m k) else map_of m j)"
    by (induction m) auto
  have k: "k \<in> fst ` set m \<longleftrightarrow> map_of m k \<noteq> None" by (simp add: map_of_eq_None_iff)
  show "distinct (map fst (add_to k x m))"
    using assms by (auto simp: add_to_def comp_def case_prod_unfold)
  show "map_of (add_to k x m) j =
      (if j = k then Some ((case map_of m k of None \<Rightarrow> [] | Some xs \<Rightarrow> xs) @ [x]) else map_of m j)"
    using k f by (auto simp: add_to_def map_add_def split: option.splits)
qed

lemma shard_batches_spec:
  assumes "shard_batches i ds m = Some bs" and "distinct (map fst m)"
  shows "distinct (map fst bs) \<and>
    (\<forall>k. map_of bs k =
      (let new = filter (\<lambda>d. Index_Shard i (doc_id d) = Some k) ds
       in case map_of m k of None \<Rightarrow> if new = [] then None else Some new | Some xs \<Rightarrow> Some (xs @ new)))"
  using assms
proof (induction ds arbitrary: m)
  case Nil
  then show ?case by (auto split: option.splits)
next
  case (Cons d ds)
  from Cons.prems(1) obtain k where k: "Index_Shard i (doc_id d) = Some k"
    and b: "shard_batches i ds (add_to k d m) = Some bs" by (auto split: option.splits)
  from Cons.IH [OF b add_to_spec(1) [OF Cons.prems(2)]] show ?case
    by (auto simp: add_to_spec(2) [OF Cons.prems(2)] k Let_def split: option.splits)
qed

lemma shard_batches_total:
  assumes "\<forall>d\<in>set ds. \<exists>k. Index_Shard i (doc_id d) = Some k"
  shows "\<exists>bs. shard_batches i ds m = Some bs"
  using assms by (induction ds arbitrary: m) fastforce+

section \<open>The batches of the shards\<close>

abbreviation shard_path :: "Index \<Rightarrow> nat \<Rightarrow> path" where
  "shard_path i k \<equiv> sh_path (Shards i ! k)"

text \<open>The handles of an index: the shards are open, on different paths below that of the index.\<close>

definition idx_shape :: "Index \<Rightarrow> bool" where
  "idx_shape i \<longleftrightarrow> Shards i \<noteq> [] \<and> length (Shards i) < 2 ^ 32 \<and> distinct (map sh_path (Shards i)) \<and>
     (\<forall>s\<in>set (Shards i). sh_b s = Some (sh_path s) \<and> prefix (ipath i) (sh_path s)) \<and>
     Alias i = map sh_b (Shards i)"

definition live :: "'b world \<Rightarrow> Index \<Rightarrow> bool" where
  "live w i \<longleftrightarrow> idx_shape i \<and> (\<forall>k<length (Shards i). stores w (shard_path i k) \<noteq> None)"

lemma idx_shapeD:
  assumes "idx_shape i" and "k < length (Shards i)"
  shows "sh_b (Shards i ! k) = Some (shard_path i k)" and "prefix (ipath i) (shard_path i k)"
    and "j < length (Shards i) \<Longrightarrow> shard_path i j = shard_path i k \<longleftrightarrow> j = k"
  using assms by (auto simp: idx_shape_def distinct_conv_nth)

definition paths_of :: "Index \<Rightarrow> (nat \<times> Document list) list \<Rightarrow> (path \<times> Document list) list" where
  "paths_of i bs = map (\<lambda>(k, b). (shard_path i k, b)) bs"

definition after_batches :: "'b env \<Rightarrow> (path \<rightharpoonup> 'b) \<Rightarrow> (path \<rightharpoonup> Document list) \<Rightarrow> path \<rightharpoonup> 'b" where
  "after_batches env st bm p =
     (case bm p of None \<Rightarrow> st p | Some b \<Rightarrow> map_option (\<lambda>bx. fst (shard_step env bx b)) (st p))"

lemma live_update: "live w i \<Longrightarrow> live (w\<lparr>stores := (stores w)(p \<mapsto> b)\<rparr>) i"
  by (simp add: live_def)

lemma paths_of_fresh:
  assumes "idx_shape i" and "k < length (Shards i)" and "\<forall>(j, b)\<in>set bs. j < length (Shards i)"
    and "k \<notin> fst ` set bs"
  shows "map_of (paths_of i bs) (shard_path i k) = None"
  using assms(3,4) idx_shapeD(3) [OF assms(1,2)]
  by (force simp: paths_of_def map_of_eq_None_iff image_iff)

lemma run_batches_eq:
  assumes "live w i" and "distinct (map fst bs)" and "\<forall>(k, b)\<in>set bs. k < length (Shards i)"
  shows "run_batches env w i bs = Some (w\<lparr>stores := after_batches env (stores w) (map_of (paths_of i bs))\<rparr>)"
  using assms
proof (induction bs arbitrary: w)
  case Nil
  then show ?case by (simp add: after_batches_def paths_of_def)
next
  case (Cons x bs)
  obtain k b where x: "x = (k, b)" by (cases x)
  have k: "k < length (Shards i)" using Cons.prems(3) x by simp
  have sh: "idx_shape i" using Cons.prems(1) by (simp add: live_def)
  obtain bx where bx: "stores w (shard_path i k) = Some bx"
    using Cons.prems(1) k by (auto simp: live_def)
  let ?w = "w\<lparr>stores := (stores w)(shard_path i k \<mapsto> fst (shard_step env bx b))\<rparr>"
  have step: "Shard_Index env w (Shards i ! k) b = Some (?w, snd (shard_step env bx b))"
    using bx idx_shapeD(1) [OF sh k] by (simp add: Shard_Index_def case_prod_unfold)
  have fresh: "map_of (paths_of i bs) (shard_path i k) = None"
    using Cons.prems(2,3) x by (intro paths_of_fresh [OF sh k]) auto
  have "run_batches env ?w i bs = Some (?w\<lparr>stores := after_batches env (stores ?w) (map_of (paths_of i bs))\<rparr>)"
    using Cons.prems by (intro Cons.IH live_update) auto
  moreover have "after_batches env (stores ?w) (map_of (paths_of i bs)) =
      after_batches env (stores w) (map_of (paths_of i (x # bs)))"
    using fresh bx by (auto simp: after_batches_def paths_of_def x fun_eq_iff split: option.splits)
  ultimately show ?case by (simp add: x step)
qed

lemma distinct_paths_of:
  assumes "idx_shape i" and "distinct (map fst bs)" and "\<forall>(k, b)\<in>set bs. k < length (Shards i)"
  shows "distinct (map fst (paths_of i bs))"
proof -
  have "inj_on (shard_path i) (fst ` set bs)"
    using assms(3) idx_shapeD(3) [OF assms(1)] by (fastforce simp: inj_on_def)
  then show ?thesis
    using assms(2) by (simp add: paths_of_def comp_def case_prod_unfold distinct_map inj_on_def)
qed

lemma map_of_paths:
  assumes "idx_shape i" and "k < length (Shards i)" and "\<forall>(j, b)\<in>set bs. j < length (Shards i)"
  shows "map_of (paths_of i bs) (shard_path i k) = map_of bs k"
  using assms(3)
proof (induction bs)
  case (Cons x bs)
  obtain j b where x: "x = (j, b)" by (cases x)
  with Cons.prems have "j < length (Shards i)" by simp
  with idx_shapeD(3) [OF assms(1,2)] have "shard_path i j = shard_path i k \<longleftrightarrow> j = k" by blast
  with Cons x show ?case by (simp add: paths_of_def) metis
qed (simp add: paths_of_def)

lemma paths_of_other:
  assumes "\<forall>(j, b)\<in>set bs. j < length (Shards i)" and "p \<notin> sh_path ` set (Shards i)"
  shows "map_of (paths_of i bs) p = None"
  using assms by (force simp: paths_of_def map_of_eq_None_iff)

section \<open>The documents of an index\<close>

definition lookup_doc :: "'b view \<Rightarrow> 'b world \<Rightarrow> Index \<Rightarrow> DocID \<rightharpoonup> doc_data \<times> bytes" where
  "lookup_doc V w i x =
     (case Index_Shard i x of
        None \<Rightarrow> None
      | Some k \<Rightarrow>
          (case stores w (shard_path i k) of
             None \<Rightarrow> None
           | Some b \<Rightarrow>
               (case (docs_of V b x, ints_of V b x) of (Some d, Some s) \<Rightarrow> Some (d, s) | _ \<Rightarrow> None)))"

text \<open>Each shard holds, with data and source, only documents routed to it.\<close>

definition shard_ok :: "'b view \<Rightarrow> Index \<Rightarrow> nat \<Rightarrow> 'b \<Rightarrow> bool" where
  "shard_ok V i k b \<longleftrightarrow> is_open V b \<and> dom (docs_of V b) = dom (ints_of V b) \<and>
     (\<forall>x\<in>dom (docs_of V b). Index_Shard i x = Some k)"

definition idx_ok :: "'b view \<Rightarrow> 'b world \<Rightarrow> Index \<Rightarrow> bool" where
  "idx_ok V w i \<longleftrightarrow> idx_shape i \<and>
     (\<forall>k<length (Shards i). \<exists>b. stores w (shard_path i k) = Some b \<and> shard_ok V i k b)"

lemma idx_ok_live: "idx_ok V w i \<Longrightarrow> live w i"
  by (auto simp: idx_ok_def live_def)

lemma idx_ok_Shard: "idx_ok V w i \<Longrightarrow> \<exists>k. Index_Shard i x = Some k"
  by (intro Index_Shard_total) (auto simp: idx_ok_def idx_shape_def)

lemma idx_ok_frame:
  assumes "idx_ok V w i" and "\<forall>p\<in>sh_path ` set (Shards i). stores w' p = stores w p"
  shows "idx_ok V w' i" and "lookup_doc V w' i = lookup_doc V w i"
proof -
  have eq: "stores w' (shard_path i k) = stores w (shard_path i k)" if "k < length (Shards i)" for k
    using assms(2) that by auto
  then show "idx_ok V w' i" using assms(1) by (simp add: idx_ok_def)
  show "lookup_doc V w' i = lookup_doc V w i"
    using eq Index_Shard_less by (auto simp: lookup_doc_def fun_eq_iff split: option.splits)
qed

lemma shard_ok_step:
  assumes "bleve_works (bleve env) V" and "shard_ok V i k b"
    and "\<forall>d\<in>set ds. Index_Shard i (doc_id d) = Some k"
  shows "shard_ok V i k (fst (shard_step env b ds))"
proof -
  from shard_step_works [OF assms(1), of b ds] assms(2) obtain b' where
    b': "shard_step env b ds = (b', None)" "is_open V b'"
      "docs_of V b' = docs_of V b ++ (map_option data \<circ> doc_map ds)"
      "ints_of V b' = ints_of V b ++ (map_option source \<circ> doc_map ds)"
    by (auto simp: shard_ok_def)
  have dom: "dom (map_option f \<circ> doc_map ds) = doc_id ` set ds" for f :: "Document \<Rightarrow> 'x"
    using doc_map_None [of ds] by (simp add: dom_def set_eq_iff)
  have "dom (docs_of V b') = dom (docs_of V b) \<union> doc_id ` set ds"
    and "dom (ints_of V b') = dom (ints_of V b) \<union> doc_id ` set ds"
    unfolding b'(3,4) dom_map_add dom by blast+
  then show ?thesis
    using assms(2,3) b'(1,2) unfolding shard_ok_def by (simp add: ball_Un)
qed

text \<open>What \<open>Index\<close> adds to an index.\<close>

definition doc_entry :: "Document list \<Rightarrow> DocID \<rightharpoonup> doc_data \<times> bytes" where
  "doc_entry ds = map_option (\<lambda>d. (data d, source d)) \<circ> doc_map ds"

lemma Index_Index_stores:
  assumes "live w i"
  shows "\<exists>bs. shard_batches i ds [] = Some bs \<and> distinct (map fst bs) \<and>
    (\<forall>(k, b)\<in>set bs. k < length (Shards i)) \<and>
    (\<forall>k. map_of bs k = (let new = filter (\<lambda>d. Index_Shard i (doc_id d) = Some k) ds
       in if new = [] then None else Some new)) \<and>
    Index_Index env w i ds = Some (w\<lparr>stores := after_batches env (stores w) (map_of (paths_of i bs))\<rparr>, None)"
proof -
  have "\<forall>d\<in>set ds. \<exists>k. Index_Shard i (doc_id d) = Some k"
    using assms by (auto simp: live_def idx_shape_def intro!: Index_Shard_total)
  from shard_batches_total [OF this] obtain bs where bs: "shard_batches i ds [] = Some bs" by blast
  from shard_batches_spec [OF bs] have d: "distinct (map fst bs)"
    and m: "\<forall>k. map_of bs k = (let new = filter (\<lambda>d. Index_Shard i (doc_id d) = Some k) ds
       in if new = [] then None else Some new)" by simp_all
  have "k < length (Shards i)" if "(k, b) \<in> set bs" for k b
  proof -
    have "map_of bs k = Some b" using d that by simp
    with m [rule_format, of k] have "filter (\<lambda>d. Index_Shard i (doc_id d) = Some k) ds \<noteq> []"
      by (auto simp: Let_def)
    then show ?thesis using Index_Shard_less by (auto simp: filter_empty_conv)
  qed
  then have l: "\<forall>(k, b)\<in>set bs. k < length (Shards i)" by blast
  from run_batches_eq [OF assms d l] bs d m l show ?thesis by (simp add: Index_Index_def)
qed

lemma Index_Index_shard:
  assumes "bleve_works (bleve env) V" and "idx_ok V w i" and "Index_Index env w i ds = Some (w', e)"
    and "k < length (Shards i)" and "stores w (shard_path i k) = Some b"
  shows "\<exists>b'. stores w' (shard_path i k) = Some b' \<and> shard_ok V i k b' \<and>
    (\<forall>x. Index_Shard i x = Some k \<longrightarrow>
       docs_of V b' x = (docs_of V b ++ (map_option data \<circ> doc_map ds)) x \<and>
       ints_of V b' x = (ints_of V b ++ (map_option source \<circ> doc_map ds)) x)"
proof -
  let ?new = "filter (\<lambda>d. Index_Shard i (doc_id d) = Some k) ds"
  from Index_Index_stores [OF idx_ok_live [OF assms(2)], of ds env] assms(3) obtain bs where
    l: "\<forall>(k, b)\<in>set bs. k < length (Shards i)"
    and m: "map_of bs k = (if ?new = [] then None else Some ?new)"
    and w': "w' = w\<lparr>stores := after_batches env (stores w) (map_of (paths_of i bs))\<rparr>"
    by (auto simp: Let_def)
  have sh: "idx_shape i" and ok: "shard_ok V i k b" using assms(2,4,5) by (auto simp: idx_ok_def)
  have st: "stores w' (shard_path i k) = Some (if ?new = [] then b else fst (shard_step env b ?new))"
    using map_of_paths [OF sh assms(4) l] m assms(5) by (simp add: w' after_batches_def)
  have dm: "doc_map ?new x = doc_map ds x" if "Index_Shard i x = Some k" for x
    using doc_map_filter [of "\<lambda>x. Index_Shard i x = Some k" x ds] that by simp
  show ?thesis
  proof (cases "?new = []")
    case True
    then have "doc_map ds x = None" if "Index_Shard i x = Some k" for x
      using dm [OF that] by simp
    with True st ok show ?thesis by (auto simp: map_add_def)
  next
    case False
    from shard_step_works [OF assms(1), of b ?new] ok obtain b' where
      b': "shard_step env b ?new = (b', None)"
        "docs_of V b' = docs_of V b ++ (map_option data \<circ> doc_map ?new)"
        "ints_of V b' = ints_of V b ++ (map_option source \<circ> doc_map ?new)" by (auto simp: shard_ok_def)
    have "shard_ok V i k b'"
      using shard_ok_step [OF assms(1) ok, of ?new] b'(1) by simp
    moreover have "stores w' (shard_path i k) = Some b'" unfolding st b'(1) using False by simp
    ultimately show ?thesis using b'(2,3) dm by (auto simp: map_add_def)
  qed
qed

lemma Index_Index_ok:
  assumes "bleve_works (bleve env) V" and "idx_ok V w i"
  shows "\<exists>w'. Index_Index env w i ds = Some (w', None) \<and> idx_ok V w' i \<and> nodes w' = nodes w \<and>
    lookup_doc V w' i = lookup_doc V w i ++ doc_entry ds \<and>
    (\<forall>p. p \<notin> sh_path ` set (Shards i) \<longrightarrow> stores w' p = stores w p)"
proof -
  from Index_Index_stores [OF idx_ok_live [OF assms(2)], of ds env] obtain bs w' where
    l: "\<forall>(k, b)\<in>set bs. k < length (Shards i)"
    and ii: "Index_Index env w i ds = Some (w', None)"
    and w': "w' = w\<lparr>stores := after_batches env (stores w) (map_of (paths_of i bs))\<rparr>" by blast
  have sh: "\<exists>b b'. stores w (shard_path i k) = Some b \<and> stores w' (shard_path i k) = Some b' \<and> shard_ok V i k b \<and>
      shard_ok V i k b' \<and> (\<forall>x. Index_Shard i x = Some k \<longrightarrow>
       docs_of V b' x = (docs_of V b ++ (map_option data \<circ> doc_map ds)) x \<and>
       ints_of V b' x = (ints_of V b ++ (map_option source \<circ> doc_map ds)) x)" if "k < length (Shards i)" for k
    using Index_Index_shard [OF assms ii that] assms(2) that by (auto simp: idx_ok_def)
  have "idx_ok V w' i" using assms(2) sh unfolding idx_ok_def by metis
  moreover have "lookup_doc V w' i x = (lookup_doc V w i ++ doc_entry ds) x" for x
  proof -
    obtain k where k: "Index_Shard i x = Some k" using idx_ok_Shard [OF assms(2)] by blast
    from sh [OF Index_Shard_less [OF k]] obtain b b' where
      b: "stores w (shard_path i k) = Some b" "stores w' (shard_path i k) = Some b'" "shard_ok V i k b"
      and x: "docs_of V b' x = (docs_of V b ++ (map_option data \<circ> doc_map ds)) x"
        "ints_of V b' x = (ints_of V b ++ (map_option source \<circ> doc_map ds)) x" using k by blast
    have "docs_of V b x = None \<longleftrightarrow> ints_of V b x = None" using b(3) by (auto simp: shard_ok_def)
    then show ?thesis
      using b k x by (auto simp: lookup_doc_def doc_entry_def map_add_def split: option.splits)
  qed
  moreover have "stores w' p = stores w p" if "p \<notin> sh_path ` set (Shards i)" for p
    using paths_of_other [OF l that] by (simp add: w' after_batches_def)
  ultimately show ?thesis using ii w' by (auto simp: fun_eq_iff)
qed

lemma Index_Document_ok:
  assumes "bleve_works (bleve env) V" and "idx_ok V w i"
  shows "Index_Document env w i x = Some (Inr (case lookup_doc V w i x of None \<Rightarrow> [] | Some (d, s) \<Rightarrow> s))"
proof -
  obtain k where k: "Index_Shard i x = Some k" using idx_ok_Shard [OF assms(2)] by blast
  note kl = Index_Shard_less [OF k]
  from assms(2) kl obtain b where b: "stores w (shard_path i k) = Some b" "shard_ok V i k b"
    by (auto simp: idx_ok_def)
  have sb: "sh_b (Shards i ! k) = Some (shard_path i k)"
    using assms(2) kl by (auto simp: idx_ok_def dest: idx_shapeD(1))
  have "docs_of V b x = None \<longleftrightarrow> ints_of V b x = None" using b(2) by (auto simp: shard_ok_def)
  then show ?thesis
    using k b sb bleve_worksD(8) [OF assms(1), of b x]
    by (auto simp: Index_Document_def Shard_Document_def deref_def lookup_doc_def shard_ok_def split: option.splits)
qed

section \<open>Search and totals\<close>

lemma those_map_Some: "those (map Some ys) = Some ys"
  by (induction ys) simp_all

definition stored :: "'b world \<Rightarrow> Index \<Rightarrow> 'b list" where
  "stored w i = map (\<lambda>k. the (stores w (shard_path i k))) [0..<length (Shards i)]"

lemma stored_nth:
  assumes "idx_ok V w i" and "k < length (Shards i)"
  shows "stores w (shard_path i k) = Some (stored w i ! k)" and "shard_ok V i k (stored w i ! k)"
    and "length (stored w i) = length (Shards i)"
  using assms by (auto simp: idx_ok_def stored_def)

lemma Alias_stored:
  assumes "idx_ok V w i"
  shows "those (map (deref w) (Alias i)) = Some (stored w i)"
proof -
  have sh: "idx_shape i" using assms by (simp add: idx_ok_def)
  then have "map (deref w) (Alias i) = map (deref w \<circ> sh_b) (Shards i)" by (simp add: idx_shape_def)
  also have "\<dots> = map Some (stored w i)"
    using stored_nth [OF assms] idx_shapeD(1) [OF sh]
    by (intro nth_equalityI) (auto simp: deref_def stored_def)
  finally show ?thesis by (simp add: those_map_Some)
qed

lemma lookup_doc_stored:
  assumes "idx_ok V w i" and "Index_Shard i x = Some k"
  shows "lookup_doc V w i x = (case (docs_of V (stored w i ! k) x, ints_of V (stored w i ! k) x) of
    (Some d, Some s) \<Rightarrow> Some (d, s) | _ \<Rightarrow> None)"
  using stored_nth(1) [OF assms(1) Index_Shard_less [OF assms(2)]] assms(2) by (simp add: lookup_doc_def)

lemma lookup_doc_iff:
  assumes "idx_ok V w i"
  shows "(\<exists>s. lookup_doc V w i x = Some (d, s)) \<longleftrightarrow> (\<exists>b\<in>set (stored w i). docs_of V b x = Some d)"
proof
  assume "\<exists>s. lookup_doc V w i x = Some (d, s)"
  moreover obtain k where k: "Index_Shard i x = Some k" using idx_ok_Shard [OF assms] by blast
  ultimately have "docs_of V (stored w i ! k) x = Some d"
    by (auto simp: lookup_doc_stored [OF assms k] split: option.splits)
  moreover have "stored w i ! k \<in> set (stored w i)"
    using Index_Shard_less [OF k] stored_nth(3) [OF assms Index_Shard_less [OF k]] by simp
  ultimately show "\<exists>b\<in>set (stored w i). docs_of V b x = Some d" by blast
next
  assume "\<exists>b\<in>set (stored w i). docs_of V b x = Some d"
  then obtain k where k: "k < length (Shards i)" "docs_of V (stored w i ! k) x = Some d"
    by (auto simp: in_set_conv_nth stored_def)
  from stored_nth(2) [OF assms k(1)] k(2) have "Index_Shard i x = Some k" "ints_of V (stored w i ! k) x \<noteq> None"
    by (auto simp: shard_ok_def dom_def)
  then show "\<exists>s. lookup_doc V w i x = Some (d, s)"
    using k(2) by (auto simp: lookup_doc_stored [OF assms])
qed

lemma stored_disjoint: "idx_ok V w i \<Longrightarrow> disjoint_docs V (stored w i)"
proof -
  assume ok: "idx_ok V w i"
  have "j = k" if "j < length (Shards i)" "k < length (Shards i)"
    "x \<in> dom (docs_of V (stored w i ! j))" "x \<in> dom (docs_of V (stored w i ! k))" for j k x
    using stored_nth(2) [OF ok that(1)] stored_nth(2) [OF ok that(2)] that(3,4)
    unfolding shard_ok_def by (metis option.inject)
  then show ?thesis by (auto simp: disjoint_docs_def stored_def)
qed

lemma stored_open: "idx_ok V w i \<Longrightarrow> b \<in> set (stored w i) \<Longrightarrow> is_open V b"
proof -
  assume ok: "idx_ok V w i" and "b \<in> set (stored w i)"
  then obtain k where "k < length (Shards i)" "b = stored w i ! k"
    by (auto simp: in_set_conv_nth stored_def)
  with stored_nth(2) [OF ok] show ?thesis by (simp add: shard_ok_def)
qed

definition matching :: "'b view \<Rightarrow> 'b world \<Rightarrow> Index \<Rightarrow> bytes \<Rightarrow> DocID set" where
  "matching V w i q = {x. \<exists>d s. lookup_doc V w i x = Some (d, s) \<and> matches V q d}"

lemma found_stored: "idx_ok V w i \<Longrightarrow> found V (stored w i) q = matching V w i q"
  using lookup_doc_iff unfolding found_def matching_def by (fastforce simp: set_eq_iff)

subsection \<open>Sorting IDs\<close>

definition valid_id :: "DocID \<Rightarrow> bool" where
  "valid_id x \<longleftrightarrow> (\<exists>m l. x = hex16 m @ hex16 l)"

definition id_key :: "DocID \<Rightarrow> nat" where
  "id_key x = (case id_words x of None \<Rightarrow> 0 | Some (m, l) \<Rightarrow> unat m * 2 ^ 64 + unat l)"

lemma id_key_hex: "id_key (hex16 m @ hex16 l) = unat m * 2 ^ 64 + unat l"
  by (simp add: id_key_def)

lemma pair_key_less:
  assumes "l < N" and "l' < (N :: nat)"
  shows "m * N + l < m' * N + l' \<longleftrightarrow> m < m' \<or> m = m' \<and> l < l'"
proof (cases m m' rule: linorder_cases)
  case less
  then have "Suc m * N \<le> m' * N" by (intro mult_le_mono1) simp
  with less assms show ?thesis by simp
next
  case greater
  then have "Suc m' * N \<le> m * N" by (intro mult_le_mono1) simp
  with greater assms show ?thesis by simp
qed simp

lemma id_less_key:
  assumes "valid_id x" and "valid_id y"
  shows "id_less x y \<longleftrightarrow> id_key x < id_key y" and "id_key x = id_key y \<longleftrightarrow> x = y"
proof -
  obtain m l where x: "x = hex16 m @ hex16 l" using assms(1) by (auto simp: valid_id_def)
  obtain m' l' where y: "y = hex16 m' @ hex16 l'" using assms(2) by (auto simp: valid_id_def)
  have less: "id_key (hex16 a @ hex16 b) < id_key (hex16 c @ hex16 d) \<longleftrightarrow> a < c \<or> a = c \<and> b < d" for a b c d
    unfolding id_key_hex pair_key_less [OF unat_less64 unat_less64] by (simp only: word_less_nat_alt word_unat_eq_iff)
  show "id_less x y \<longleftrightarrow> id_key x < id_key y"
    unfolding x y less id_less_def DocIDs_Less_hex by simp
  show "id_key x = id_key y \<longleftrightarrow> x = y"
    using less [of m l m' l'] less [of m' l' m l] unfolding x y by (metis linorder_neq_iff)
qed

lemma sort_ids_valid:
  assumes "\<forall>x\<in>set ids. valid_id x" and "distinct ids"
  shows "\<exists>out. sort_ids ids = Some out \<and> set out = set ids \<and> length out = length ids \<and>
    sorted_wrt (\<lambda>x y. id_key x < id_key y) out"
proof -
  have "list_all (\<lambda>x. id_words x \<noteq> None) ids"
    using assms(1) by (auto simp: list_all_iff valid_id_def)
  moreover have "sorted_wrt (\<lambda>x y. id_key x < id_key y) (go_sort id_less ids)"
    using assms id_less_key by (intro gs.srt_ascending) (auto simp: inj_on_def)
  ultimately show ?thesis by (simp add: sort_ids_def)
qed

lemma Index_Search_ok:
  assumes "bleve_works (bleve env) V" and "idx_ok V w i" and "\<forall>x\<in>dom (lookup_doc V w i). valid_id x"
  shows "\<exists>ids. Index_Search env w i q = Some (Inr ids) \<and> sorted_wrt (\<lambda>x y. id_key x < id_key y) ids \<and>
    set ids \<subseteq> matching V w i q \<and> length ids = min maxSearchHitSize (card (matching V w i q))"
proof -
  from bleve_worksD(9) [OF assms(1), of "stored w i" q maxSearchHitSize] stored_open [OF assms(2)]
    stored_disjoint [OF assms(2)] obtain hits where
    h: "bl_Search (bleve env) (stored w i) q maxSearchHitSize = Inr hits" "distinct hits"
      "set hits \<subseteq> matching V w i q" "length hits = min maxSearchHitSize (card (matching V w i q))"
    by (auto simp: found_stored [OF assms(2)])
  have "\<forall>x\<in>set hits. valid_id x" using h(3) assms(3) by (auto simp: matching_def)
  from sort_ids_valid [OF this h(2)] h Alias_stored [OF assms(2)] show ?thesis
    by (auto simp: Index_Search_def)
qed

subsection \<open>Totals\<close>

lemma finite_matching: "bleve_works (bleve env) V \<Longrightarrow> idx_ok V w i \<Longrightarrow> finite (dom (lookup_doc V w i))"
proof -
  assume a: "bleve_works (bleve env) V" "idx_ok V w i"
  have "dom (lookup_doc V w i) = (\<Union>b\<in>set (stored w i). dom (docs_of V b))"
    using lookup_doc_iff [OF a(2)] by (fastforce simp: dom_def)
  then show ?thesis using bleve_worksD(6) [OF a(1)] stored_open [OF a(2)] by simp
qed

lemma sum_totals_ok:
  assumes "bleve_works (bleve env) V"
    and "\<forall>s\<in>set ss. \<exists>b. deref w (sh_b s) = Some b \<and> is_open V b"
  shows "sum_totals env w ss acc =
    Some (Inr (acc + of_nat (sum_list (map (\<lambda>s. card (dom (docs_of V (the (deref w (sh_b s)))))) ss))))"
  using assms(2)
proof (induction ss arbitrary: acc)
  case (Cons s ss)
  then obtain b where "deref w (sh_b s) = Some b" "is_open V b" by auto
  with Cons bleve_worksD(7) [OF assms(1), of b] show ?case by (simp add: Shard_Total_def add.assoc)
qed simp

lemma Index_Total_ok:
  assumes "bleve_works (bleve env) V" and "idx_ok V w i"
  shows "Index_Total env w i = Some (Inr (of_nat (card (dom (lookup_doc V w i)))))"
proof -
  let ?n = "length (Shards i)"
  let ?D = "\<lambda>k. dom (docs_of V (stored w i ! k))"
  have sh: "idx_shape i" using assms(2) by (simp add: idx_ok_def)
  have d: "deref w (sh_b (Shards i ! k)) = Some (stored w i ! k)" if "k < ?n" for k
    using stored_nth(1) [OF assms(2) that] idx_shapeD(1) [OF sh that] by (simp add: deref_def)
  have op: "is_open V (stored w i ! k)" if "k < ?n" for k
    using stored_nth(2) [OF assms(2) that] by (simp add: shard_ok_def)
  have hd: "\<forall>s\<in>set (Shards i). \<exists>b. deref w (sh_b s) = Some b \<and> is_open V b"
    using d op by (metis in_set_conv_nth)
  have "map (\<lambda>s. card (dom (docs_of V (the (deref w (sh_b s)))))) (Shards i) = map (\<lambda>k. card (?D k)) [0..<?n]"
    using d by (intro nth_equalityI) auto
  then have "Index_Total env w i = Some (Inr (of_nat (\<Sum>k<?n. card (?D k))))"
    using sum_totals_ok [OF assms(1) hd, of 0]
    by (simp add: Index_Total_def interv_sum_list_conv_sum_set_nat atLeast0LessThan)
  also have "(\<Sum>k<?n. card (?D k)) = card (\<Union>k<?n. ?D k)"
    using stored_disjoint [OF assms(2)] stored_nth(3) [OF assms(2)] bleve_worksD(6) [OF assms(1) op]
    by (intro card_UN_disjoint [symmetric]) (auto simp: disjoint_docs_def stored_def)
  also have "(\<Union>k<?n. ?D k) = dom (lookup_doc V w i)"
    using lookup_doc_iff [OF assms(2)] by (fastforce simp: dom_def in_set_conv_nth stored_def)
  finally show ?thesis .
qed

section \<open>The index as a document store\<close>

text \<open>
  The contract the engine relies on: an index that is in order accepts a batch, afterwards holds
  exactly its old documents overridden by those of the batch, answers lookups from what it holds,
  and leaves the indexes that are apart from it alone.
\<close>

fun put_all :: "('w \<Rightarrow> 'i \<Rightarrow> Document list \<Rightarrow> ('w \<times> go_error option) option) \<Rightarrow> 'w \<Rightarrow>
    ('i \<times> Document list) list \<Rightarrow> 'w option" where
  "put_all put w [] = Some w"
| "put_all put w ((i, ds) # subs) =
     (case put w i ds of None \<Rightarrow> None | Some (w1, _) \<Rightarrow> put_all put w1 subs)"

locale doc_store =
  fixes ok :: "'w \<Rightarrow> 'i \<Rightarrow> bool"
    and lookup :: "'w \<Rightarrow> 'i \<Rightarrow> DocID \<rightharpoonup> doc_data \<times> bytes"
    and put :: "'w \<Rightarrow> 'i \<Rightarrow> Document list \<Rightarrow> ('w \<times> go_error option) option"
    and get :: "'w \<Rightarrow> 'i \<Rightarrow> DocID \<Rightarrow> (go_error + bytes) option"
    and apart :: "'i \<Rightarrow> 'i \<Rightarrow> bool"
  assumes put_ok: "ok w i \<Longrightarrow>
      \<exists>w'. put w i ds = Some (w', None) \<and> ok w' i \<and> lookup w' i = lookup w i ++ doc_entry ds"
    and put_frame: "\<lbrakk>ok w i; ok w j; apart i j; put w i ds = Some (w', e)\<rbrakk> \<Longrightarrow>
      ok w' j \<and> lookup w' j = lookup w j"
    and get_lookup: "ok w i \<Longrightarrow> get w i x = Some (Inr (case lookup w i x of None \<Rightarrow> [] | Some (d, s) \<Rightarrow> s))"
begin

text \<open>A document put under a fresh choice of ID is what \<open>get\<close> returns.\<close>

lemma put_get:
  assumes "ok w i" and "put w i ds = Some (w', e)" and "distinct (map doc_id ds)" and "d \<in> set ds"
  shows "get w' i (doc_id d) = Some (Inr (source d))"
proof -
  from put_ok [OF assms(1), of ds] assms(2) have "ok w' i" and l: "lookup w' i = lookup w i ++ doc_entry ds" by auto
  then show ?thesis
    using get_lookup [of w' i "doc_id d"] doc_map_distinct [OF assms(3,4)]
    by (simp add: doc_entry_def map_add_def)
qed

lemma put_get_other:
  assumes "ok w i" and "put w i ds = Some (w', e)" and "x \<notin> doc_id ` set ds"
  shows "get w' i x = get w i x"
proof -
  from put_ok [OF assms(1), of ds] assms(2) have "ok w' i" and l: "lookup w' i = lookup w i ++ doc_entry ds" by auto
  moreover have "lookup w' i x = lookup w i x"
    using assms(3) doc_map_None [of ds x] by (simp add: l doc_entry_def map_add_def)
  ultimately show ?thesis using get_lookup assms(1) by simp
qed

lemma put_all_ok:
  assumes "\<forall>j\<in>A. ok w j" and "\<forall>i\<in>A. \<forall>j\<in>A. i \<noteq> j \<longrightarrow> apart i j"
    and "fst ` set subs \<subseteq> A" and "distinct (map fst subs)"
  shows "\<exists>w'. put_all put w subs = Some w' \<and> (\<forall>j\<in>A. ok w' j \<and>
    lookup w' j = lookup w j ++ (case map_of subs j of None \<Rightarrow> Map.empty | Some ds \<Rightarrow> doc_entry ds))"
  using assms(1,3,4)
proof (induction subs arbitrary: w)
  case Nil
  then show ?case by simp
next
  case (Cons x subs)
  obtain i ds where x: "x = (i, ds)" by (cases x)
  have i: "i \<in> A" "ok w i" using Cons.prems x by auto
  from put_ok [OF i(2)] obtain w1 where w1: "put w i ds = Some (w1, None)" "ok w1 i"
    "lookup w1 i = lookup w i ++ doc_entry ds" by blast
  have fr: "ok w1 j \<and> lookup w1 j = lookup w j" if "j \<in> A" "j \<noteq> i" for j
    using put_frame [OF i(2) _ _ w1(1)] assms(2) Cons.prems(1) i(1) that by metis
  then have "\<forall>j\<in>A. ok w1 j" using w1(2) by metis
  with Cons.IH [of w1] Cons.prems x obtain w' where w': "put_all put w1 subs = Some w'"
    "\<forall>j\<in>A. ok w' j \<and> lookup w' j = lookup w1 j ++ (case map_of subs j of None \<Rightarrow> Map.empty | Some ds \<Rightarrow> doc_entry ds)"
    by auto
  have "map_of subs i = None" using Cons.prems(3) x by (simp add: map_of_eq_None_iff)
  with w' w1 fr x show ?case by auto
qed

end

definition apart :: "Index \<Rightarrow> Index \<Rightarrow> bool" where
  "apart i j \<longleftrightarrow> sh_path ` set (Shards i) \<inter> sh_path ` set (Shards j) = {}"

interpretation ix: doc_store "\<lambda>w i. bleve_works (bleve env) V \<and> idx_ok V w i" "lookup_doc V" "Index_Index env"
  "Index_Document env" apart for env :: "'b env" and V :: "'b view"
proof (unfold_locales, goal_cases)
  case (1 w i ds)
  then show ?case using Index_Index_ok [of env V w i ds] by blast
next
  case (2 w i j ds w' e)
  then have "\<forall>p. p \<notin> sh_path ` set (Shards i) \<longrightarrow> stores w' p = stores w p"
    using Index_Index_ok [of env V w i ds] by auto
  with 2(3) have st: "\<forall>p\<in>sh_path ` set (Shards j). stores w' p = stores w p"
    unfolding apart_def by blast
  from 2 idx_ok_frame [OF _ st] show ?case by blast
next
  case (3 w i x)
  then show ?case using Index_Document_ok by blast
qed

section \<open>Properties\<close>

text \<open>An index of one shard in memory, to evaluate the properties on.\<close>

definition mem_env :: "mem_index env" where
  "mem_env = \<lparr>fault = (\<lambda>_ _. False), bleve = mem_bleve\<rparr>"

definition mem_world :: "path \<Rightarrow> mem_index world" where
  "mem_world p = \<lparr>nodes = [], stores = [p \<mapsto> \<lparr>m_docs = [], m_ints = [], m_open = True\<rparr>]\<rparr>"

definition one_shard :: "path \<Rightarrow> gtime \<Rightarrow> gtime \<Rightarrow> Index" where
  "one_shard p s e = \<lparr>ipath = p, startTime = s, endTime = e,
     Shards = [\<lparr>sh_path = p @ [''0000''], sh_b = Some (p @ [''0000''])\<rparr>], Alias = [Some (p @ [''0000''])]\<rparr>"

lemma one_shard_ok: "idx_ok mem_view (mem_world (p @ [''0000''])) (one_shard p s e)"
  by (simp add: idx_ok_def idx_shape_def one_shard_def mem_world_def shard_ok_def mem_view_def)

lemma mem_env_works: "bleve_works (bleve mem_env) mem_view"
  using mem_bleve_works by (simp add: mem_env_def)

text \<open>
  C14. Indexing and retrieving. Indexing a batch of documents with different IDs in an index that is in
  order succeeds and keeps the index in order; afterwards the source of every document of the batch
  is what \<open>Document\<close> returns for its ID, every other ID returns what it returned before, and \<open>Total\<close>
  is the number of documents held, those of the batch included (modulo \<open>2 ^ 64\<close>).
\<close>

theorem index_then_document:
  assumes "bleve_works (bleve env) V" and "idx_ok V w i" and "distinct (map doc_id ds)"
  shows "\<exists>w'. Index_Index env w i ds = Some (w', None) \<and> idx_ok V w' i \<and>
    (\<forall>d\<in>set ds. Index_Document env w' i (doc_id d) = Some (Inr (source d))) \<and>
    (\<forall>x. x \<notin> doc_id ` set ds \<longrightarrow> Index_Document env w' i x = Index_Document env w i x) \<and>
    Index_Total env w' i = Some (Inr (of_nat (card (dom (lookup_doc V w i) \<union> doc_id ` set ds))))"
proof -
  from Index_Index_ok [OF assms(1,2)] obtain w' where w': "Index_Index env w i ds = Some (w', None)" "idx_ok V w' i"
    "lookup_doc V w' i = lookup_doc V w i ++ doc_entry ds" by blast
  have "dom (doc_entry ds) = doc_id ` set ds"
    using doc_map_None [of ds] by (auto simp: doc_entry_def dom_def)
  with w'(3) have "dom (lookup_doc V w' i) = dom (lookup_doc V w i) \<union> doc_id ` set ds"
    by (auto simp: Un_commute)
  with Index_Total_ok [OF assms(1) w'(2)] w' ix.put_get [OF _ w'(1) assms(3), of V]
    ix.put_get_other [OF _ w'(1), of V] assms(1,2) show ?thesis by auto
qed

theorem index_then_document_witness:
  "\<exists>w'. Index_Index mem_env (mem_world [''i'', ''0000'']) (one_shard [''i''] 0 1)
      [\<lparr>doc_id = ''a'', data = \<lparr>Message = ''m''\<rparr>, source = ''m''\<rparr>] = Some (w', None) \<and>
    Index_Document mem_env w' (one_shard [''i''] 0 1) ''a'' = Some (Inr ''m'')"
  using index_then_document [OF mem_env_works one_shard_ok [of "[''i'']" 0 1],
      of "[\<lparr>doc_id = ''a'', data = \<lparr>Message = ''m''\<rparr>, source = ''m''\<rparr>]"] by auto

text \<open>
  C15. The order of the goroutines does not matter. Whatever bleve does, errors included, indexing the
  shard batches of an index with its handles open, in any order of the shards (the iteration order
  of a Go map), ends in the same state.
\<close>

theorem index_any_order:
  assumes "live w i" and "shard_batches i ds [] = Some bs" and "mset bs' = mset bs"
  shows "run_batches env w i bs' = run_batches env w i bs \<and> run_batches env w i bs \<noteq> None"
proof -
  from Index_Index_stores [OF assms(1), of ds] assms(2) have d: "distinct (map fst bs)"
    and l: "\<forall>(k, b)\<in>set bs. k < length (Shards i)" by auto
  have set: "set bs' = set bs" using assms(3) by (metis set_mset_mset)
  have d': "distinct (map fst bs')" using d assms(3) by (metis mset_eq_imp_distinct_iff mset_map)
  have sh: "idx_shape i" using assms(1) by (simp add: live_def)
  have "map_of (paths_of i bs') = map_of (paths_of i bs)"
    using distinct_paths_of [OF sh d l] distinct_paths_of [OF sh d'] l set
    by (simp add: map_of_inject_set) (simp add: paths_of_def)
  then show ?thesis
    using run_batches_eq [OF assms(1) d l, of env] run_batches_eq [OF assms(1) d', of env] l set by simp
qed

definition two_shards :: Index where
  "two_shards = \<lparr>ipath = [''i''], startTime = 0, endTime = 1,
     Shards = [\<lparr>sh_path = [''i'', ''0000''], sh_b = Some [''i'', ''0000'']\<rparr>,
               \<lparr>sh_path = [''i'', ''0001''], sh_b = Some [''i'', ''0001'']\<rparr>],
     Alias = [Some [''i'', ''0000''], Some [''i'', ''0001'']]\<rparr>"

definition two_world :: "mem_index world" where
  "two_world = \<lparr>nodes = [], stores = [[''i'', ''0000''] \<mapsto> \<lparr>m_docs = [], m_ints = [], m_open = True\<rparr>,
     [''i'', ''0001''] \<mapsto> \<lparr>m_docs = [], m_ints = [], m_open = True\<rparr>]\<rparr>"

definition doc :: "DocID \<Rightarrow> bytes \<Rightarrow> Document" where
  "doc x m = \<lparr>doc_id = x, data = \<lparr>Message = m\<rparr>, source = m\<rparr>"

lemma two_shards_live: "live two_world two_shards"
  by (simp add: live_def idx_shape_def two_shards_def two_world_def less_Suc_eq nth_Cons')

lemma two_shards_route: "Index_Shard two_shards ''a'' = Some 0" "Index_Shard two_shards ''b'' = Some 1"
  by (code_simp+)

theorem index_any_order_witness:
  "run_batches mem_env two_world two_shards [(1, [doc ''b'' ''y'']), (0, [doc ''a'' ''x''])] =
   run_batches mem_env two_world two_shards [(0, [doc ''a'' ''x'']), (1, [doc ''b'' ''y''])] \<and>
   run_batches mem_env two_world two_shards [(0, [doc ''a'' ''x'']), (1, [doc ''b'' ''y''])] \<noteq> None"
  by (rule index_any_order [OF two_shards_live, of "[doc ''a'' ''x'', doc ''b'' ''y'']"])
    (simp_all add: two_shards_route doc_def add_to_def)

text \<open>
  Searching. On an index that is in order, whose documents have IDs of events, \<open>Search\<close> returns IDs
  of matching documents in strictly ascending order: all of them when there are at most
  \<open>maxSearchHitSize\<close>, and exactly that many otherwise.
\<close>

theorem index_search_sorted:
  assumes "bleve_works (bleve env) V" and "idx_ok V w i" and "\<forall>x\<in>dom (lookup_doc V w i). valid_id x"
  shows "\<exists>ids. Index_Search env w i q = Some (Inr ids) \<and>
    sorted_wrt (\<lambda>x y. DocIDs_Less x y = Some True) ids \<and> set ids \<subseteq> matching V w i q \<and>
    length ids = min maxSearchHitSize (card (matching V w i q)) \<and>
    (card (matching V w i q) \<le> maxSearchHitSize \<longrightarrow> set ids = matching V w i q)"
proof -
  from Index_Search_ok [OF assms] obtain ids where i: "Index_Search env w i q = Some (Inr ids)"
    "sorted_wrt (\<lambda>x y. id_key x < id_key y) ids" "set ids \<subseteq> matching V w i q"
    "length ids = min maxSearchHitSize (card (matching V w i q))" by blast
  have v: "valid_id x" if "x \<in> set ids" for x using that i(3) assms(3) by (auto simp: matching_def)
  have "sorted_wrt (\<lambda>x y. DocIDs_Less x y = Some True) ids"
    using i(2) by (rule sorted_wrt_mono_rel [rotated]) (use v id_less_key(1) in \<open>auto simp: id_less_def\<close>)
  moreover have "finite (matching V w i q)"
    using finite_matching [OF assms(1,2)] by (rule finite_subset [rotated]) (auto simp: matching_def)
  moreover have "distinct ids"
    using i(2) by (auto simp: distinct_conv_nth sorted_wrt_iff_nth_less) (metis nat_neq_iff)
  ultimately show ?thesis using i by (auto simp: card_subset_eq distinct_card)
qed

theorem index_search_sorted_witness:
  "\<exists>ids. Index_Search mem_env (mem_world [''i'', ''0000'']) (one_shard [''i''] 0 1) ''q'' = Some (Inr ids) \<and>
    set ids \<subseteq> matching mem_view (mem_world [''i'', ''0000'']) (one_shard [''i''] 0 1) ''q''"
proof -
  have "dom (lookup_doc mem_view (mem_world [''i'', ''0000'']) (one_shard [''i''] 0 1)) = {}"
    by (auto simp: lookup_doc_def mem_view_def mem_world_def split: option.splits if_splits)
  then show ?thesis
    using index_search_sorted [OF mem_env_works one_shard_ok [of "[''i'']" 0 1], of "''q''"] by auto
qed

text \<open>
  Failures of the store are not reported. \<open>Index\<close> returns nil, whatever the shards report: when
  every batch fails and leaves its shard unchanged, all documents of the call are lost and the
  caller is told that they were indexed.
\<close>

theorem index_errors_dropped:
  assumes "live w i" and "\<And>bx ops. \<exists>e. bl_Batch (bleve env) bx ops = (bx, Some e)"
  shows "\<exists>w'. Index_Index env w i ds = Some (w', None) \<and> stores w' = stores w"
proof -
  have "fst (shard_step env bx b) = bx" for bx b
    using assms(2) [of bx] by (auto simp: shard_step_def split: sum.splits prod.splits) (metis prod.inject)
  then have "after_batches env (stores w) m = stores w" for m
    by (auto simp: after_batches_def fun_eq_iff option.map_ident split: option.splits)
  with Index_Index_stores [OF assms(1), of ds env] show ?thesis by auto
qed

theorem index_errors_dropped_witness:
  "\<exists>w'. Index_Index \<lparr>fault = (\<lambda>_ _. False), bleve = mem_bleve\<lparr>bl_Batch := (\<lambda>b _. (b, Some ''disk full''))\<rparr>\<rparr>
      two_world two_shards [doc ''a'' ''x''] = Some (w', None) \<and> stores w' = stores two_world"
  by (rule index_errors_dropped [OF two_shards_live]) simp

end
