(* ===== verification/Index_Disk.thy ===== *)
theory Index_Disk
  imports Index_Store
begin

text \<open>
  An index on disk: \<open>NewIndex\<close> in a directory that has no such index, and \<open>OpenIndex\<close> on what it
  left, whatever the order in which the directory lists its entries.
\<close>

section \<open>Shard names\<close>

lemma digit_val_less_iff:
  "is_digit a \<Longrightarrow> is_digit b \<Longrightarrow> of_char a < (of_char b :: nat) \<longleftrightarrow> digit_val a < digit_val b"
  by (auto simp: is_digit_def digit_val_def)

lemma digit_val_eq_iff: "is_digit a \<Longrightarrow> is_digit b \<Longrightarrow> digit_val a = digit_val b \<longleftrightarrow> a = b"
proof -
  assume "is_digit a" "is_digit b"
  then have "digit_val a = digit_val b \<longleftrightarrow> (of_char a :: nat) = of_char b"
    unfolding is_digit_def digit_val_def by (intro eq_diff_iff) simp_all
  then show ?thesis by simp
qed

lemma str_less_digits:
  assumes "length s = length t" and "list_all is_digit s" and "list_all is_digit t"
  shows "str_less s t \<longleftrightarrow> dec_val s < dec_val t"
  using assms
proof (induction s t rule: list_induct2)
  case (Cons a s b t)
  then have "dec_val s < 10 ^ length s" "dec_val t < 10 ^ length s"
    using dec_val_bound [of s] dec_val_bound [of t] by simp_all
  with Cons show ?case
    using digit_val_less_iff [of a b] digit_val_eq_iff [of a b]
    by (simp add: dec_val_Cons pair_key_less)
qed simp

lemma shard_name_digits:
  assumes "n < 10000"
  shows "length (shard_name n) = 4" and "list_all is_digit (shard_name n)" and "dec_val (shard_name n) = n"
  using append_int_digits [of "int n" 4] assms by (simp_all add: shard_name_def)

lemma shard_name_less:
  "m < 10000 \<Longrightarrow> n < 10000 \<Longrightarrow> str_less (shard_name m) (shard_name n) \<longleftrightarrow> m < n"
  using str_less_digits [of "shard_name m" "shard_name n"] by (simp add: shard_name_digits)

lemma shard_name_inj: "inj_on shard_name {..<10000}"
  by (rule inj_on_inverseI [where g = dec_val]) (simp add: shard_name_digits)

lemma shard_name_no_dot: "n < 10000 \<Longrightarrow> \<not> has_prefix (shard_name n) ''.''"
proof -
  assume n: "n < 10000"
  then obtain c s where s: "shard_name n = c # s" using shard_name_digits(1) [OF n] by (cases "shard_name n") auto
  with shard_name_digits(2) [OF n] have "is_digit c" by simp
  then have "c \<noteq> CHR ''.''" by (auto simp: is_digit_def)
  then show ?thesis by (simp add: s)
qed

lemma shard_name_no_endtime: "n < 10000 \<Longrightarrow> shard_name n \<noteq> endTimeFileName"
  using shard_name_digits(1) [of n] by auto

text \<open>Sorting the names of the first \<open>n\<close> shards, listed in any order.\<close>

lemma sort_shard_names:
  assumes "mset names = mset (map shard_name [0..<n])" and "n \<le> 10000"
  shows "go_sort str_less names = map shard_name [0..<n]"
proof -
  let ?out = "go_sort str_less names"
  have set: "set names = shard_name ` {..<n}"
    using assms(1) by (metis atLeast0LessThan image_set set_mset_mset set_upt)
  have inj: "inj_on shard_name {..<n}" using assms(2) by (intro inj_on_subset [OF shard_name_inj]) auto
  have d: "distinct names"
    using mset_eq_imp_distinct_iff [OF assms(1)] inj by (simp add: distinct_map atLeast0LessThan)
  have v: "dec_val (shard_name k) = k" if "k < n" for k using shard_name_digits(3) that assms(2) by simp
  have asc: "sorted_wrt (\<lambda>x y. dec_val x < dec_val y) ?out"
  proof (rule gs.srt_ascending)
    show "str_less x y \<longleftrightarrow> dec_val x < dec_val y" if "x \<in> set names" "y \<in> set names" for x y
      using that shard_name_less assms(2) v by (auto simp: set)
    show "inj_on dec_val (set names)" using v by (auto simp: set inj_on_def)
  qed (rule d)
  have key: "map dec_val ?out = [0..<n]"
  proof (rule strict_sorted_equal)
    show "sorted_wrt (<) (map dec_val ?out)" using asc by (simp add: sorted_wrt_map)
    show "sorted_wrt (<) [0..<n]" by (rule sorted_wrt_upt)
    have "dec_val ` shard_name ` {..<n} = {..<n}" using v by (force simp: image_image)
    then show "set (map dec_val ?out) = set [0..<n]" by (simp add: set atLeast0LessThan)
  qed
  have "?out = map shard_name (map dec_val ?out)"
  proof (rule nth_equalityI)
    show "?out ! k = map shard_name (map dec_val ?out) ! k" if "k < length ?out" for k
    proof -
      have "?out ! k \<in> shard_name ` {..<n}" using that set nth_mem [OF that] by simp
      then show ?thesis using that v by auto
    qed
  qed simp
  then show ?thesis by (simp only: key)
qed

section \<open>Nodes\<close>

lemma set_node_fresh: "map_of ns p = None \<Longrightarrow> set_node p nd ns = ns @ [(p, nd)]"
proof -
  assume "map_of ns p = None"
  then have "filter (\<lambda>(q, _). q \<noteq> p) ns = ns" by (intro filter_True) (auto simp: map_of_eq_None_iff image_iff)
  then show ?thesis by (simp add: set_node_def)
qed

lemma map_of_set_node [simp]: "map_of (set_node p nd ns) = (map_of ns)(p \<mapsto> nd)"
proof -
  have "map_of (filter (\<lambda>(q, _). q \<noteq> p) ns) = (map_of ns)(p := None)"
    by (induction ns) (auto simp: fun_eq_iff)
  then show ?thesis by (auto simp: set_node_def map_add_def fun_eq_iff split: option.splits)
qed

lemma distinct_set_node: "distinct (map fst ns) \<Longrightarrow> distinct (map fst (set_node p nd ns))"
proof -
  assume "distinct (map fst ns)"
  then have "distinct (map fst (filter (\<lambda>(q, _). q \<noteq> p) ns))" by (rule distinct_map_filter)
  then show ?thesis by (auto simp: set_node_def)
qed

text \<open>No file is in the way of a directory.\<close>

definition dirs_ok :: "(path \<times> node) list \<Rightarrow> path \<Rightarrow> bool" where
  "dirs_ok ns p \<longleftrightarrow> (\<forall>q. prefix q p \<and> q \<noteq> [] \<longrightarrow> (\<forall>c. map_of ns q \<noteq> Some (File c)))"

lemma mkdirs_ok:
  assumes "\<forall>p\<in>set ps. \<forall>c. map_of ns p \<noteq> Some (File c)" and "distinct (map fst ns)"
  shows "\<exists>ns'. mkdirs ps ns = Some ns' \<and> distinct (map fst ns') \<and> (\<forall>p\<in>set ps. map_of ns' p = Some Dir) \<and>
    (\<forall>p. p \<notin> set ps \<longrightarrow> map_of ns' p = map_of ns p)"
  using assms
proof (induction ps arbitrary: ns)
  case (Cons p ps)
  let ?ns = "case map_of ns p of None \<Rightarrow> set_node p Dir ns | Some _ \<Rightarrow> ns"
  have m: "map_of ?ns = (map_of ns)(p \<mapsto> Dir)"
    using Cons.prems(1) by (auto simp: fun_eq_iff split: option.splits node.splits) (metis list.set_intros(1) node.exhaust)
  have d: "distinct (map fst ?ns)" using Cons.prems(2) distinct_set_node by (auto split: option.splits)
  have "mkdirs (p # ps) ns = mkdirs ps ?ns"
    using Cons.prems(1) by (auto split: option.splits node.splits)
  moreover have "\<forall>q\<in>set ps. \<forall>c. map_of ?ns q \<noteq> Some (File c)" using Cons.prems(1) by (simp add: m)
  from Cons.IH [OF this d] obtain ns' where "mkdirs ps ?ns = Some ns'" "distinct (map fst ns')"
    "\<forall>q\<in>set ps. map_of ns' q = Some Dir" "\<forall>q. q \<notin> set ps \<longrightarrow> map_of ns' q = map_of ?ns q" by blast
  ultimately show ?case by (auto simp: m)
qed simp

definition no_faults :: "'b env \<Rightarrow> bool" where
  "no_faults env \<longleftrightarrow> fault env = (\<lambda>_ _. False)"

lemma MkdirAll_ok:
  assumes "no_faults env" and "dirs_ok (nodes w) p" and "distinct (map fst (nodes w))" and "p \<noteq> []"
  shows "\<exists>ns. os_MkdirAll env w p = (w\<lparr>nodes := ns\<rparr>, None) \<and> distinct (map fst ns) \<and>
    map_of ns p = Some Dir \<and> (\<forall>q. \<not> prefix q p \<or> q = [] \<longrightarrow> map_of ns q = map_of (nodes w) q) \<and>
    (\<forall>q. prefix q p \<and> q \<noteq> [] \<longrightarrow> map_of ns q = Some Dir)"
proof -
  define ps where "ps = map (\<lambda>k. take k p) [1..<Suc (length p)]"
  have set: "q \<in> set ps \<longleftrightarrow> prefix q p \<and> q \<noteq> []" for q
  proof
    assume "q \<in> set ps"
    then show "prefix q p \<and> q \<noteq> []" using assms(4) by (auto simp: ps_def take_is_prefix)
  next
    assume q: "prefix q p \<and> q \<noteq> []"
    then have "q = take (length q) p" "length q \<in> set [1..<Suc (length p)]"
      by (auto simp: prefix_def Suc_le_eq)
    then show "q \<in> set ps" unfolding ps_def by (metis image_eqI list.set_map)
  qed
  have "\<forall>q\<in>set ps. \<forall>c. map_of (nodes w) q \<noteq> Some (File c)"
    using assms(2) set by (simp add: dirs_ok_def)
  from mkdirs_ok [OF this assms(3)] obtain ns where ns: "mkdirs ps (nodes w) = Some ns" "distinct (map fst ns)"
    "\<forall>q\<in>set ps. map_of ns q = Some Dir" "\<forall>q. q \<notin> set ps \<longrightarrow> map_of ns q = map_of (nodes w) q" by blast
  have "os_MkdirAll env w p = (w\<lparr>nodes := ns\<rparr>, None)"
    using assms(1) ns(1) by (simp add: os_MkdirAll_def no_faults_def ps_def del: upt_Suc)
  then show ?thesis using ns(2-4) assms(4) by (intro exI [of _ ns]) (simp add: set)
qed

section \<open>Opening shards\<close>

definition opened :: "path \<Rightarrow> Shard" where
  "opened p = \<lparr>sh_path = p, sh_b = Some p\<rparr>"

lemma opened_simps [simp]: "sh_path (opened p) = p" "sh_b (opened p) = Some p"
  by (simp_all add: opened_def)

definition empty_store :: "'b view \<Rightarrow> 'b \<Rightarrow> bool" where
  "empty_store V b \<longleftrightarrow> is_open V b \<and> docs_of V b = Map.empty \<and> ints_of V b = Map.empty"

definition same_docs :: "'b view \<Rightarrow> 'b \<Rightarrow> 'b \<Rightarrow> bool" where
  "same_docs V b b' \<longleftrightarrow> is_open V b' \<and> docs_of V b' = docs_of V b \<and> ints_of V b' = ints_of V b"

text \<open>
  Opening a stored bleve index that nobody has open gives back what it held. Closing one that is open succeeds and
  loses nothing.
\<close>

definition bleve_reopens :: "'b bleve \<Rightarrow> 'b view \<Rightarrow> bool" where
  "bleve_reopens B V \<longleftrightarrow> (\<forall>p b. \<not> is_open V b \<longrightarrow> (\<exists>b'. bl_Open B p (Some b) = Inr b' \<and> same_docs V b b'))"

definition closed_docs :: "'b view \<Rightarrow> 'b \<Rightarrow> 'b \<Rightarrow> bool" where
  "closed_docs V b b' \<longleftrightarrow> \<not> is_open V b' \<and> docs_of V b' = docs_of V b \<and> ints_of V b' = ints_of V b"

definition bleve_closes :: "'b bleve \<Rightarrow> 'b view \<Rightarrow> bool" where
  "bleve_closes B V \<longleftrightarrow> (\<forall>b. is_open V b \<longrightarrow> (\<exists>b'. bl_Close B b = (b', None) \<and> closed_docs V b b'))"

definition shut :: "'b view \<Rightarrow> 'b world \<Rightarrow> path \<Rightarrow> bool" where
  "shut V w p \<longleftrightarrow> (\<exists>b. stores w p = Some b \<and> \<not> is_open V b)"

lemma closed_then_opened: "closed_docs V b b1 \<Longrightarrow> same_docs V b1 b2 \<Longrightarrow> same_docs V b b2"
  by (simp add: closed_docs_def same_docs_def)

lemma Shard_Open_new:
  assumes "no_faults env" and "bleve_works (bleve env) V" and "map_of (nodes w) p = None"
  shows "\<exists>b. Shard_Open env w (NewShard p) =
      (w\<lparr>nodes := nodes w @ [(p, Dir)], stores := (stores w)(p \<mapsto> b)\<rparr>, Inr (opened p)) \<and> empty_store V b"
proof -
  have "os_Stat env w p = Inl (NotExist p)" using assms(1,3) by (simp add: os_Stat_def no_faults_def)
  moreover obtain m where "buildIndexMapping env = Inr m"
    using bleve_worksD(1,2) [OF assms(2)] by (simp add: buildIndexMapping_def Let_def)
  moreover obtain b where "bl_New (bleve env) p m = Inr b" "empty_store V b"
    using bleve_worksD(4) [OF assms(2), of p m] by (auto simp: empty_store_def)
  ultimately show ?thesis
    by (intro exI [of _ b])
      (simp add: Shard_Open_def NewShard_def Let_def IsNotExist_def opened_def set_node_fresh [OF assms(3)])
qed

lemma open_shards_new:
  assumes "no_faults env" and "bleve_works (bleve env) V"
    and "\<forall>p\<in>set ps. map_of (nodes w) p = None" and "distinct ps"
  shows "\<exists>w'. open_shards env w ps = (w', Inr (map opened ps)) \<and>
    nodes w' = nodes w @ map (\<lambda>p. (p, Dir)) ps \<and>
    (\<forall>p\<in>set ps. \<exists>b. stores w' p = Some b \<and> empty_store V b) \<and>
    (\<forall>p. p \<notin> set ps \<longrightarrow> stores w' p = stores w p)"
  using assms(3,4)
proof (induction ps arbitrary: w)
  case (Cons p ps)
  from Shard_Open_new [OF assms(1,2), of w p] Cons.prems(1) obtain b where
    1: "Shard_Open env w (NewShard p) =
      (w\<lparr>nodes := nodes w @ [(p, Dir)], stores := (stores w)(p \<mapsto> b)\<rparr>, Inr (opened p))" "empty_store V b" by auto
  let ?w = "w\<lparr>nodes := nodes w @ [(p, Dir)], stores := (stores w)(p \<mapsto> b)\<rparr>"
  have "\<forall>q\<in>set ps. map_of (nodes ?w) q = None"
    using Cons.prems by (auto simp: map_add_def)
  from Cons.IH [OF this] Cons.prems(2) obtain w' where "open_shards env ?w ps = (w', Inr (map opened ps))"
    "nodes w' = nodes ?w @ map (\<lambda>p. (p, Dir)) ps" "\<forall>q\<in>set ps. \<exists>b. stores w' q = Some b \<and> empty_store V b"
    "\<forall>q. q \<notin> set ps \<longrightarrow> stores w' q = stores ?w q" by auto
  with 1 Cons.prems(2) show ?case by auto
qed simp

lemma Shard_Open_existing:
  assumes "no_faults env" and "bleve_reopens (bleve env) V"
    and "map_of (nodes w) p = Some Dir" and "stores w p = Some b" and "\<not> is_open V b"
  shows "\<exists>b'. Shard_Open env w (NewShard p) = (w\<lparr>stores := (stores w)(p \<mapsto> b')\<rparr>, Inr (opened p)) \<and> same_docs V b b'"
proof -
  have "os_Stat env w p = Inr Dir" using assms(1,3) by (simp add: os_Stat_def no_faults_def)
  moreover obtain b' where "bl_Open (bleve env) p (Some b) = Inr b'" "same_docs V b b'"
    using assms(2,5) unfolding bleve_reopens_def by blast
  ultimately show ?thesis using assms(4)
    by (intro exI [of _ b']) (simp add: Shard_Open_def NewShard_def Let_def IsNotExist_def opened_def)
qed

lemma open_shards_existing:
  assumes "no_faults env" and "bleve_reopens (bleve env) V"
    and "\<forall>p\<in>set ps. map_of (nodes w) p = Some Dir \<and> shut V w p" and "distinct ps"
  shows "\<exists>w'. open_shards env w ps = (w', Inr (map opened ps)) \<and> nodes w' = nodes w \<and>
    (\<forall>p\<in>set ps. \<exists>b'. stores w' p = Some b' \<and> same_docs V (the (stores w p)) b') \<and>
    (\<forall>p. p \<notin> set ps \<longrightarrow> stores w' p = stores w p)"
  using assms(3,4)
proof (induction ps arbitrary: w)
  case (Cons p ps)
  then obtain b where b: "stores w p = Some b" "\<not> is_open V b" by (auto simp: shut_def)
  from Shard_Open_existing [OF assms(1,2) _ b] Cons.prems(1) obtain b' where
    1: "Shard_Open env w (NewShard p) = (w\<lparr>stores := (stores w)(p \<mapsto> b')\<rparr>, Inr (opened p))" "same_docs V b b'" by auto
  let ?w = "w\<lparr>stores := (stores w)(p \<mapsto> b')\<rparr>"
  have "\<forall>q\<in>set ps. map_of (nodes ?w) q = Some Dir \<and> shut V ?w q" using Cons.prems by (auto simp: shut_def)
  from Cons.IH [OF this] Cons.prems(2) obtain w' where "open_shards env ?w ps = (w', Inr (map opened ps))"
    "nodes w' = nodes ?w" and s: "\<forall>q\<in>set ps. \<exists>b'. stores w' q = Some b' \<and> same_docs V (the (stores ?w q)) b'"
    "\<forall>q. q \<notin> set ps \<longrightarrow> stores w' q = stores ?w q" by auto
  moreover have "\<forall>q\<in>set ps. stores ?w q = stores w q" "p \<notin> set ps" using Cons.prems(2) by auto
  ultimately show ?case using 1 b by (auto simp del: fun_upd_apply) (simp_all add: s)
qed simp

text \<open>Opening shards creates nothing but the shards, and never reports an existing index.\<close>

lemma Shard_Open_frame: "q \<noteq> p \<Longrightarrow> map_of (nodes (fst (Shard_Open env w (NewShard p)))) q = map_of (nodes w) q"
  by (auto simp: Shard_Open_def NewShard_def Let_def split: sum.splits)

lemma open_shards_frame:
  "q \<notin> set ps \<Longrightarrow> map_of (nodes (fst (open_shards env w ps))) q = map_of (nodes w) q"
proof (induction ps arbitrary: w)
  case (Cons p ps)
  then show ?case
    using Shard_Open_frame [of q p env w] by (auto split: prod.splits sum.splits) (metis fst_conv)+
qed simp

lemma Shard_Open_error: "snd (Shard_Open env w s) \<noteq> Inl (IndexExists q)"
  by (auto simp: Shard_Open_def buildIndexMapping_def Let_def split: sum.splits option.splits)

lemma open_shards_error: "snd (open_shards env w ps) \<noteq> Inl (IndexExists q)"
proof (induction ps arbitrary: w)
  case (Cons p ps)
  then show ?case
    using Shard_Open_error [of env w "NewShard p" q] by (auto split: prod.splits sum.splits) (metis snd_conv)+
qed simp

section \<open>A new index\<close>

definition shard_paths :: "path \<Rightarrow> nat \<Rightarrow> path list" where
  "shard_paths p n = map (\<lambda>k. p @ [shard_name k]) [0..<n]"

lemma distinct_shard_paths: "n \<le> 10000 \<Longrightarrow> distinct (shard_paths p n)"
  using inj_on_subset [OF shard_name_inj, of "{..<n}"]
  by (auto simp: shard_paths_def distinct_map atLeast0LessThan inj_on_def)

definition index_at :: "path \<Rightarrow> gtime \<Rightarrow> gtime \<Rightarrow> nat \<Rightarrow> Index" where
  "index_at p s e n = \<lparr>ipath = p, startTime = s, endTime = e, Shards = map opened (shard_paths p n),
     Alias = map Some (shard_paths p n)\<rparr>"

lemma index_at_shape: "0 < n \<Longrightarrow> n < 10000 \<Longrightarrow> idx_shape (index_at p s e n)"
  using distinct_shard_paths [of n p]
  by (auto simp: idx_shape_def index_at_def opened_def comp_def) (auto simp: shard_paths_def)

text \<open>Nothing exists at the path or below it.\<close>

definition path_free :: "'b world \<Rightarrow> path \<Rightarrow> bool" where
  "path_free w p \<longleftrightarrow> (\<forall>q. prefix p q \<longrightarrow> map_of (nodes w) q = None)"

text \<open>The files of an index, as \<open>NewIndex\<close> leaves them.\<close>

definition index_files :: "(path \<times> node) list \<Rightarrow> path \<Rightarrow> gtime \<Rightarrow> nat \<Rightarrow> bool" where
  "index_files ns p e n \<longleftrightarrow> distinct (map fst ns) \<and> map_of ns p = Some Dir \<and>
     (\<forall>x nd. map_of ns (p @ [x]) = Some nd \<longleftrightarrow>
        x = endTimeFileName \<and> nd = File (format_index_name e) \<or> x \<in> shard_name ` {..<n} \<and> nd = Dir)"

lemma idx_ok_empty:
  assumes "idx_shape i" and "\<forall>p\<in>sh_path ` set (Shards i). \<exists>b. stores w p = Some b \<and> empty_store V b"
  shows "idx_ok V w i" and "lookup_doc V w i = Map.empty"
proof -
  have b: "\<exists>b. stores w (shard_path i k) = Some b \<and> empty_store V b" if "k < length (Shards i)" for k
    using assms(2) that by auto
  then show "idx_ok V w i"
    using assms(1) unfolding idx_ok_def by (fastforce simp: shard_ok_def empty_store_def)
  show "lookup_doc V w i = Map.empty"
    using b Index_Shard_less by (fastforce simp: lookup_doc_def empty_store_def fun_eq_iff split: option.splits)
qed

lemma path_free_below: "path_free w p \<Longrightarrow> map_of (nodes w) (p @ [x]) = None"
  by (simp add: path_free_def)

text \<open>The directory and the file with the end time, before the shards are opened.\<close>

lemma NewIndex_files:
  assumes "no_faults env" and "dirs_ok (nodes w) p" and "distinct (map fst (nodes w))" and "path_free w p"
    and "p \<noteq> []" and "f = p @ [endTimeFileName]"
  shows "\<exists>w1 w2 w3. os_MkdirAll env w p = (w1, None) \<and> os_Create env w1 f = (w2, None) \<and>
    file_WriteString env w2 f (format_index_name e) = (w3, None) \<and> stores w3 = stores w \<and>
    distinct (map fst (nodes w3)) \<and> map_of (nodes w3) p = Some Dir \<and>
    (\<forall>x. map_of (nodes w3) (p @ [x]) = (if x = endTimeFileName then Some (File (format_index_name e)) else None)) \<and>
    (\<forall>q. \<not> prefix p q \<and> \<not> prefix q p \<longrightarrow> map_of (nodes w3) q = map_of (nodes w) q) \<and>
    (\<forall>q. prefix q p \<and> q \<noteq> [] \<longrightarrow> map_of (nodes w3) q = Some Dir)"
proof -
  from MkdirAll_ok [OF assms(1,2,3,5)] obtain ns where ns: "os_MkdirAll env w p = (w\<lparr>nodes := ns\<rparr>, None)"
    "distinct (map fst ns)" "map_of ns p = Some Dir"
    "\<forall>q. \<not> prefix q p \<or> q = [] \<longrightarrow> map_of ns q = map_of (nodes w) q"
    "\<forall>q. prefix q p \<and> q \<noteq> [] \<longrightarrow> map_of ns q = Some Dir" by blast
  have below: "map_of ns (p @ [x]) = None" for x
    using ns(4) path_free_below [OF assms(4)] by (metis not_Cons_self2 append_Nil2 prefixE same_append_eq append_assoc append_is_Nil_conv)
  let ?w1 = "w\<lparr>nodes := ns\<rparr>" and ?w2 = "w\<lparr>nodes := set_node f (File []) ns\<rparr>"
  let ?w3 = "w\<lparr>nodes := set_node f (File (format_index_name e)) (set_node f (File []) ns)\<rparr>"
  have "os_Create env ?w1 f = (?w2, None)"
    using assms(1) ns(3) below by (simp add: os_Create_def no_faults_def assms(6))
  moreover have "file_WriteString env ?w2 f (format_index_name e) = (?w3, None)"
    using assms(1) by (simp add: file_WriteString_def no_faults_def)
  moreover have "distinct (map fst (nodes ?w3))" using ns(2) distinct_set_node by simp
  moreover have "f \<noteq> q" if "prefix q p" for q using that by (auto simp: assms(6) prefix_def)
  moreover have "map_of (nodes ?w3) q = (if q = f then Some (File (format_index_name e)) else map_of ns q)" for q
    by simp
  ultimately show ?thesis
    using ns below by (intro exI [of _ ?w1] exI [of _ ?w2] exI [of _ ?w3]) (auto simp: assms(6))
qed

lemma NewIndex_ok:
  assumes "no_faults env" and "bleve_works (bleve env) V" and "dirs_ok (nodes w) p"
    and "distinct (map fst (nodes w))" and "path_free w p" and p: "p = Join path (format_index_name s)"
    and "0 < n" and "n < 10000"
  shows "\<exists>w'. NewIndex env w path s e (int n) = Some (w', Inr (index_at p s e n)) \<and>
    idx_ok V w' (index_at p s e n) \<and> lookup_doc V w' (index_at p s e n) = Map.empty \<and>
    index_files (nodes w') p e n \<and>
    (\<forall>q. \<not> prefix p q \<longrightarrow> stores w' q = stores w q) \<and>
    (\<forall>q. \<not> prefix p q \<and> \<not> prefix q p \<longrightarrow> map_of (nodes w') q = map_of (nodes w) q) \<and>
    (\<forall>q. prefix q p \<and> q \<noteq> [] \<longrightarrow> map_of (nodes w') q = Some Dir)"
proof -
  let ?f = "p @ [endTimeFileName]" and ?ps = "shard_paths p n"
  have "p \<noteq> []" by (simp add: p Join_def)
  from NewIndex_files [OF assms(1,3,4,5) this refl] obtain w1 w2 w3 where
    w3: "os_MkdirAll env w p = (w1, None)" "os_Create env w1 ?f = (w2, None)"
      "file_WriteString env w2 ?f (format_index_name e) = (w3, None)" "stores w3 = stores w"
      "distinct (map fst (nodes w3))" "map_of (nodes w3) p = Some Dir"
      "\<forall>x. map_of (nodes w3) (p @ [x]) = (if x = endTimeFileName then Some (File (format_index_name e)) else None)"
      "\<forall>q. \<not> prefix p q \<and> \<not> prefix q p \<longrightarrow> map_of (nodes w3) q = map_of (nodes w) q"
      "\<forall>q. prefix q p \<and> q \<noteq> [] \<longrightarrow> map_of (nodes w3) q = Some Dir" by blast
  have none: "map_of (nodes w3) q = None" if "q \<in> set ?ps" for q
    using that w3(7) shard_name_no_endtime assms(8) by (auto simp: shard_paths_def)
  have d: "distinct ?ps" using distinct_shard_paths assms(8) by simp
  from open_shards_new [OF assms(1,2) _ d, of w3] none obtain w' where
    w': "open_shards env w3 ?ps = (w', Inr (map opened ?ps))" "nodes w' = nodes w3 @ map (\<lambda>p. (p, Dir)) ?ps"
      "\<forall>q\<in>set ?ps. \<exists>b. stores w' q = Some b \<and> empty_store V b"
      "\<forall>q. q \<notin> set ?ps \<longrightarrow> stores w' q = stores w3 q" by blast
  have m: "map_of (nodes w') q = (if q \<in> set ?ps then Some Dir else map_of (nodes w3) q)" for q
  proof -
    have "map_of (map (\<lambda>p. (p, Dir)) ps) q = (if q \<in> set ps then Some Dir else None)" for ps :: "path list"
      by (induction ps) auto
    then show ?thesis using none by (auto simp: w'(2) map_add_def split: option.splits)
  qed
  have in_ps: "q \<in> set ?ps \<longleftrightarrow> (\<exists>k<n. q = p @ [shard_name k])" for q by (auto simp: shard_paths_def)
  have new: "NewIndex env w path s e (int n) = Some (w', Inr (index_at p s e n))"
    using w3(1-3) w'(1) assms(8)
    by (simp add: NewIndex_def Let_def p [symmetric] Join_def [of _ endTimeFileName] IsNotExist_def index_at_def
        opened_def comp_def shard_paths_def Join_def [of p] split: sum.splits)
  have "distinct (map fst (nodes w'))"
    using w3(5) none d by (auto simp: w'(2) comp_def map_of_eq_None_iff)
  moreover have "endTimeFileName \<noteq> shard_name k" if "k < n" for k
    using shard_name_no_endtime [of k] that assms(8) by auto
  ultimately have "index_files (nodes w') p e n"
    using w3(6,7) by (auto simp: index_files_def m in_ps)
  moreover have "idx_ok V w' (index_at p s e n)" "lookup_doc V w' (index_at p s e n) = Map.empty"
    using w'(3) idx_ok_empty [OF index_at_shape [OF assms(7,8), of p s e], of w' V]
    by (auto simp: index_at_def opened_def)
  moreover have "\<not> prefix q p" "prefix p q" if "q \<in> set ?ps" for q using that by (auto simp: in_ps prefix_def)
  ultimately show ?thesis using new w'(4) w3(4,8,9) by (auto simp: m)
qed

section \<open>Opening an index\<close>

lemma listShards_ok:
  assumes "no_faults env" and "index_files (nodes w) p e n" and "n < 10000"
  shows "listShards env w p = Inr (map shard_name [0..<n])"
proof -
  let ?names = "map fst (filter (\<lambda>(name, nd). \<not> (nd \<noteq> Dir \<or> has_prefix name ''.'')) (entries (nodes w) p))"
  have d: "distinct (map fst (nodes w))" and m: "\<And>x nd. map_of (nodes w) (p @ [x]) = Some nd \<longleftrightarrow>
      x = endTimeFileName \<and> nd = File (format_index_name e) \<or> x \<in> shard_name ` {..<n} \<and> nd = Dir"
    using assms(2) by (auto simp: index_files_def)
  have "(x, nd) \<in> set (entries (nodes w) p) \<longleftrightarrow> map_of (nodes w) (p @ [x]) = Some nd" for x nd
    using d by (force simp: entries_def image_iff map_of_eq_Some_iff)
  then have set: "set ?names = shard_name ` {..<n}"
    using shard_name_no_dot assms(3) by (force simp: m image_iff)
  have "distinct (map last (map fst (filter (\<lambda>(q, _). q \<noteq> [] \<and> butlast q = p) (nodes w))))"
  proof -
    have "distinct (map fst (filter (\<lambda>(q, _). q \<noteq> [] \<and> butlast q = p) (nodes w)))"
      using d by (rule distinct_map_filter)
    moreover have "inj_on last {q. q \<noteq> [] \<and> butlast q = p}"
      by (rule inj_onI) (metis (mono_tags, lifting) append_butlast_last_id mem_Collect_eq)
    then have "inj_on last (set (map fst (filter (\<lambda>(q, _). q \<noteq> [] \<and> butlast q = p) (nodes w))))"
      by (rule inj_on_subset) auto
    ultimately show ?thesis unfolding distinct_map [of last] by blast
  qed
  then have "distinct (map fst (entries (nodes w) p))" by (simp add: entries_def comp_def case_prod_unfold)
  then have "distinct ?names" by (rule distinct_map_filter)
  moreover have "distinct (map shard_name [0..<n])"
    using inj_on_subset [OF shard_name_inj, of "{..<n}"] assms(3) by (auto simp: distinct_map atLeast0LessThan)
  ultimately have "mset ?names = mset (map shard_name [0..<n])"
    using set by (metis atLeast0LessThan image_set set_eq_iff_mset_eq_distinct set_upt)
  then have "go_sort str_less ?names = map shard_name [0..<n]"
    using sort_shard_names assms(3) by simp
  moreover have "map_of (nodes w) p = Some Dir" using assms(2) by (simp add: index_files_def)
  ultimately show ?thesis
    using assms(1) by (simp add: listShards_def os_Open_def file_Readdir_def no_faults_def)
qed

lemma append_int_no_LF: "LF \<notin> set (append_int n k)"
  using itoa_digits [of "nat \<bar>n\<bar>"] by (auto simp: append_int_def Let_def list_all_iff)

lemma format_no_LF: "LF \<notin> set (format_index_name t)"
  by (auto simp: format_index_name_def Let_def append_int_no_LF split: prod.splits)

definition to_minute :: "gtime \<Rightarrow> gtime" where
  "to_minute t = t - t mod ns_per_min"

lemma OpenIndex_ok:
  assumes "no_faults env" and "bleve_reopens (bleve env) V" and "index_files (nodes w) p e n" and "n < 10000"
    and "last p = format_index_name s" and "four_digit_year s" and "four_digit_year e"
    and "\<forall>q\<in>set (shard_paths p n). shut V w q"
  shows "\<exists>w'. OpenIndex env w p = (w', Inr (index_at p (to_minute s) (to_minute e) n)) \<and> nodes w' = nodes w \<and>
    (\<forall>q\<in>set (shard_paths p n). \<exists>b'. stores w' q = Some b' \<and> same_docs V (the (stores w q)) b') \<and>
    (\<forall>q. q \<notin> set (shard_paths p n) \<longrightarrow> stores w' q = stores w q)"
proof -
  have m: "map_of (nodes w) p = Some Dir" "map_of (nodes w) (p @ [endTimeFileName]) = Some (File (format_index_name e))"
    "\<And>k. k < n \<Longrightarrow> map_of (nodes w) (p @ [shard_name k]) = Some Dir"
    using assms(3) by (auto simp: index_files_def)
  have sp: "map (\<lambda>k. Join p (shard_name k)) [0..<n] = shard_paths p n" by (simp add: shard_paths_def Join_def)
  have "\<forall>q\<in>set (shard_paths p n). map_of (nodes w) q = Some Dir \<and> shut V w q"
    using m(3) assms(8) by (auto simp: shard_paths_def)
  from open_shards_existing [OF assms(1,2) this distinct_shard_paths] assms(4) obtain w' where
    "open_shards env w (shard_paths p n) = (w', Inr (map opened (shard_paths p n)))" "nodes w' = nodes w"
    "\<forall>q\<in>set (shard_paths p n). \<exists>b'. stores w' q = Some b' \<and> same_docs V (the (stores w q)) b'"
    "\<forall>q. q \<notin> set (shard_paths p n) \<longrightarrow> stores w' q = stores w q" by auto
  moreover have "os_Stat env w p = Inr Dir" "os_Open env w (Join p endTimeFileName) = Inr (File (format_index_name e))"
    "read_line_of env (Join p endTimeFileName) (File (format_index_name e)) = Inr (format_index_name e)"
    using assms(1) m by (simp_all add: os_Stat_def os_Open_def read_line_of_def no_faults_def Join_def format_no_LF)
  ultimately show ?thesis
    using listShards_ok [OF assms(1,3,4)] assms(5) parse_format_index_name [OF assms(6)] parse_format_index_name [OF assms(7)]
    by (simp add: OpenIndex_def sp to_minute_def index_at_def comp_def)
qed

section \<open>Closing an index\<close>

definition open_at :: "'b view \<Rightarrow> 'b world \<Rightarrow> Shard \<Rightarrow> bool" where
  "open_at V w s \<longleftrightarrow> sh_b s = Some (sh_path s) \<and> (\<exists>b. stores w (sh_path s) = Some b \<and> is_open V b)"

text \<open>What is stored at a path is closed in the second world, with what it held in the first.\<close>

definition closed_at :: "'b view \<Rightarrow> 'b world \<Rightarrow> 'b world \<Rightarrow> path \<Rightarrow> bool" where
  "closed_at V w w' p \<longleftrightarrow> (\<exists>b b'. stores w p = Some b \<and> stores w' p = Some b' \<and> closed_docs V b b')"

lemma closed_at_shut: "closed_at V w w' p \<Longrightarrow> shut V w' p"
  by (auto simp: closed_at_def shut_def closed_docs_def)

lemma close_shards_keep:
  assumes "bleve_closes (bleve env) V" and "\<forall>s\<in>set ss. open_at V w s" and "distinct (map sh_path ss)"
  shows "\<exists>w'. close_shards env w ss = Some (w', None) \<and> nodes w' = nodes w \<and> (\<forall>q\<in>sh_path ` set ss. closed_at V w w' q) \<and>
    (\<forall>q. q \<notin> sh_path ` set ss \<longrightarrow> stores w' q = stores w q)"
  using assms(2,3)
proof (induction ss arbitrary: w)
  case (Cons s ss)
  then obtain b where b: "sh_b s = Some (sh_path s)" "stores w (sh_path s) = Some b" "is_open V b" by (auto simp: open_at_def)
  with assms(1) obtain b' where b': "bl_Close (bleve env) b = (b', None)" "closed_docs V b b'"
    unfolding bleve_closes_def by blast
  let ?w = "w\<lparr>stores := (stores w)(sh_path s \<mapsto> b')\<rparr>"
  have 1: "Shard_Close env w s = Some (?w, None)" using b(1,2) b'(1) by (simp add: Shard_Close_def)
  have ne: "sh_path t \<noteq> sh_path s" if "t \<in> set ss" for t using Cons.prems(2) that by (auto simp: image_iff)
  have "open_at V ?w t" if "t \<in> set ss" for t using Cons.prems(1) ne [OF that] that by (simp add: open_at_def)
  with Cons.prems(2) Cons.IH [of ?w] obtain w' where
    w': "close_shards env ?w ss = Some (w', None)" "nodes w' = nodes ?w" "\<forall>q\<in>sh_path ` set ss. closed_at V ?w w' q"
      "\<forall>q. q \<notin> sh_path ` set ss \<longrightarrow> stores w' q = stores ?w q" by auto
  have "closed_at V w w' (sh_path t)" if "t \<in> set ss" for t
  proof -
    have "closed_at V ?w w' (sh_path t)" using w'(3) that by blast
    with ne [OF that] show ?thesis by (simp add: closed_at_def)
  qed
  moreover have "sh_path s \<notin> sh_path ` set ss" using Cons.prems(2) by simp
  then have "closed_at V w w' (sh_path s)" using w'(4) b(2) b'(2) by (simp add: closed_at_def)
  ultimately show ?case using 1 w' by (intro exI [of _ w']) auto
qed simp

lemma Index_Close_ok:
  assumes "bleve_closes (bleve env) V" and "idx_ok V w i"
  shows "\<exists>w'. Index_Close env w i = Some (w', None) \<and> nodes w' = nodes w \<and> (\<forall>q\<in>sh_path ` set (Shards i). closed_at V w w' q) \<and>
    (\<forall>q. q \<notin> sh_path ` set (Shards i) \<longrightarrow> stores w' q = stores w q)"
proof -
  have sh: "idx_shape i" using assms(2) by (simp add: idx_ok_def)
  have "open_at V w s" if "s \<in> set (Shards i)" for s
    using that assms(2) sh by (fastforce simp: open_at_def idx_ok_def idx_shape_def shard_ok_def in_set_conv_nth)
  moreover have "distinct (map sh_path (Shards i))" using sh by (simp add: idx_shape_def)
  ultimately show ?thesis using close_shards_keep [OF assms(1)] unfolding Index_Close_def by blast
qed

section \<open>Properties\<close>

text \<open>The stores of an index hold the same documents in two worlds, and are open in the second.\<close>

definition same_index :: "'b view \<Rightarrow> 'b world \<Rightarrow> 'b world \<Rightarrow> Index \<Rightarrow> bool" where
  "same_index V w w' i \<longleftrightarrow> (\<forall>k<length (Shards i). \<exists>b b'. stores w (shard_path i k) = Some b \<and>
     stores w' (shard_path i k) = Some b' \<and> same_docs V b b')"

lemma same_index_ok:
  assumes "idx_ok V w i" and "same_index V w w' i" and "Shards j = Shards i" and "idx_shape j"
  shows "idx_ok V w' j" and "lookup_doc V w' j = lookup_doc V w i"
proof -
  have route: "Index_Shard j x = Index_Shard i x" for x by (simp add: Index_Shard_def assms(3))
  have "\<exists>b. stores w' (shard_path j k) = Some b \<and> shard_ok V j k b" if k: "k < length (Shards j)" for k
  proof -
    from assms(2,3) k obtain b b' where b: "stores w (shard_path i k) = Some b" "stores w' (shard_path i k) = Some b'"
      "same_docs V b b'" by (auto simp: same_index_def)
    moreover have "shard_ok V i k b" using assms(1,3) k b(1) by (auto simp: idx_ok_def)
    ultimately show ?thesis by (auto simp: shard_ok_def same_docs_def route assms(3))
  qed
  then show "idx_ok V w' j" using assms(4) by (simp add: idx_ok_def)
  show "lookup_doc V w' j = lookup_doc V w i"
  proof
    fix x
    obtain k where k: "Index_Shard i x = Some k" using idx_ok_Shard [OF assms(1)] by blast
    from Index_Shard_less [OF k] assms(2) obtain b b' where "stores w (shard_path i k) = Some b"
      "stores w' (shard_path i k) = Some b'" "same_docs V b b'" by (auto simp: same_index_def)
    with k show "lookup_doc V w' j x = lookup_doc V w i x" by (auto simp: lookup_doc_def same_docs_def route assms(3))
  qed
qed

text \<open>
  C7. An index survives a restart. Creating an index where none exists, in a file system without
  faults, gives a usable, empty index. Whatever was indexed meanwhile
  (\<open>w1\<close>: any state of its stores in which it is usable; the same files, listed in any order), closing it succeeds, and opening its
  directory after that gives an index with the same shards and the same documents, usable again; its start and end time are
  those it was created with, cut to the minute.
\<close>

theorem index_reopens:
  assumes "no_faults env" and "bleve_works (bleve env) V" and "bleve_reopens (bleve env) V" and "bleve_closes (bleve env) V"
    and "p = Join path (format_index_name s)" and "dirs_ok (nodes w) p" and "distinct (map fst (nodes w))"
    and "path_free w p" and "0 < n" and "n < 10000" and "four_digit_year s" and "four_digit_year e"
  shows "\<exists>w' i. NewIndex env w path s e (int n) = Some (w', Inr i) \<and> idx_ok V w' i \<and>
    lookup_doc V w' i = Map.empty \<and> startTime i = s \<and> endTime i = e \<and> length (Shards i) = n \<and>
    (\<forall>w1. mset (nodes w1) = mset (nodes w') \<and> idx_ok V w1 i \<longrightarrow>
       (\<exists>w2 w3 j. Index_Close env w1 i = Some (w2, None) \<and> OpenIndex env w2 (ipath i) = (w3, Inr j) \<and>
          idx_ok V w3 j \<and> Shards j = Shards i \<and> lookup_doc V w3 j = lookup_doc V w1 i \<and>
          startTime j = to_minute s \<and> endTime j = to_minute e))"
proof -
  let ?i = "index_at p s e n" and ?j = "index_at p (to_minute s) (to_minute e) n"
  from NewIndex_ok [OF assms(1,2,6,7,8,5,9,10), of e] obtain w' where
    w': "NewIndex env w path s e (int n) = Some (w', Inr ?i)" "idx_ok V w' ?i" "lookup_doc V w' ?i = Map.empty"
      "index_files (nodes w') p e n" by blast
  have sets: "Shards ?j = Shards ?i" "length (Shards ?i) = n" "ipath ?i = p" "sh_path ` set (Shards ?i) = set (shard_paths p n)"
    "\<And>k. k < n \<Longrightarrow> shard_path ?i k \<in> set (shard_paths p n)"
    by (simp_all add: index_at_def shard_paths_def image_image)
  have "\<exists>w2 w3. Index_Close env w1 ?i = Some (w2, None) \<and> OpenIndex env w2 p = (w3, Inr ?j) \<and> idx_ok V w3 ?j \<and>
      lookup_doc V w3 ?j = lookup_doc V w1 ?i"
    if m: "mset (nodes w1) = mset (nodes w')" and ok: "idx_ok V w1 ?i" for w1
  proof -
    have d: "distinct (map fst (nodes w'))" using w'(4) by (simp add: index_files_def)
    have d1: "distinct (map fst (nodes w1))" using m d by (metis mset_eq_imp_distinct_iff mset_map)
    have "map_of (nodes w1) = map_of (nodes w')"
      using d d1 m by (simp add: map_of_inject_set) (metis set_mset_mset)
    then have files: "index_files (nodes w1) p e n" using w'(4) d1 by (simp add: index_files_def)
    from Index_Close_ok [OF assms(4) ok] obtain w2 where
      w2: "Index_Close env w1 ?i = Some (w2, None)" "nodes w2 = nodes w1" "\<forall>q\<in>set (shard_paths p n). closed_at V w1 w2 q"
      unfolding sets(4) by blast
    then have "\<forall>q\<in>set (shard_paths p n). shut V w2 q" using closed_at_shut by blast
    note shut = this
    have last: "last p = format_index_name s" by (simp add: assms(5) Join_def)
    have "index_files (nodes w2) p e n" using files w2(2) by simp
    from OpenIndex_ok [OF assms(1,3) this assms(10) last assms(11,12) shut] obtain w3 where
      w3: "OpenIndex env w2 p = (w3, Inr ?j)"
        "\<forall>q\<in>set (shard_paths p n). \<exists>b'. stores w3 q = Some b' \<and> same_docs V (the (stores w2 q)) b'" by blast
    have "same_index V w1 w3 ?i"
      unfolding same_index_def sets(2)
    proof (intro allI impI)
      fix k assume "k < n"
      then have q: "shard_path ?i k \<in> set (shard_paths p n)" by (rule sets(5))
      with w2(3) obtain b b2 where b: "stores w1 (shard_path ?i k) = Some b" "stores w2 (shard_path ?i k) = Some b2" "closed_docs V b b2"
        unfolding closed_at_def by blast
      moreover from b w3(2) q obtain b3 where b3: "stores w3 (shard_path ?i k) = Some b3" "same_docs V b2 b3" by fastforce
      ultimately show "\<exists>b b'. stores w1 (shard_path ?i k) = Some b \<and> stores w3 (shard_path ?i k) = Some b' \<and> same_docs V b b'"
        using closed_then_opened [OF b(3) b3(2)] by simp
    qed
    from same_index_ok [OF ok this sets(1)] index_at_shape [OF assms(9,10)] w2(1) w3(1) show ?thesis by auto
  qed
  moreover have times: "startTime ?i = s" "endTime ?i = e" "startTime ?j = to_minute s" "endTime ?j = to_minute e"
    by (simp_all add: index_at_def)
  ultimately have "\<exists>w2 w3 j. Index_Close env w1 ?i = Some (w2, None) \<and> OpenIndex env w2 (ipath ?i) = (w3, Inr j) \<and> idx_ok V w3 j \<and>
      Shards j = Shards ?i \<and> lookup_doc V w3 j = lookup_doc V w1 ?i \<and> startTime j = to_minute s \<and> endTime j = to_minute e"
    if "mset (nodes w1) = mset (nodes w')" "idx_ok V w1 ?i" for w1
    using that sets(1,3) by metis
  with w'(1-3) sets(2) times(1,2) show ?thesis by blast
qed

lemma mem_reopens: "bleve_reopens (bleve mem_env) mem_view"
  by (simp add: bleve_reopens_def same_docs_def mem_env_def mem_bleve_def mem_view_def)

lemma mem_closes: "bleve_closes (bleve mem_env) mem_view"
  by (simp add: bleve_closes_def closed_docs_def mem_env_def mem_bleve_def mem_view_def)

lemma mem_no_faults: "no_faults mem_env"
  by (simp add: no_faults_def mem_env_def)

theorem index_reopens_witness:
  "\<exists>w' i. NewIndex mem_env \<lparr>nodes = [], stores = Map.empty\<rparr> [''data''] 90000000000 ns_per_day 16 = Some (w', Inr i) \<and>
    startTime i = 90000000000 \<and> length (Shards i) = 16 \<and>
    (\<exists>w2 w3 j. Index_Close mem_env w' i = Some (w2, None) \<and> OpenIndex mem_env w2 (ipath i) = (w3, Inr j) \<and>
       Shards j = Shards i \<and> startTime j = 60000000000)"
proof -
  let ?w = "\<lparr>nodes = [], stores = Map.empty\<rparr> :: mem_index world"
  have y: "four_digit_year 90000000000" "four_digit_year ns_per_day" by code_simp+
  have m: "to_minute 90000000000 = 60000000000" by code_simp
  from index_reopens [OF mem_no_faults mem_env_works mem_reopens mem_closes refl, of ?w "[''data'']" 90000000000 16 ns_per_day] y
  obtain w' i where i: "NewIndex mem_env ?w [''data''] 90000000000 ns_per_day 16 = Some (w', Inr i)"
    "idx_ok mem_view w' i" "startTime i = 90000000000" "length (Shards i) = 16"
    "\<forall>w1. mset (nodes w1) = mset (nodes w') \<and> idx_ok mem_view w1 i \<longrightarrow>
       (\<exists>w2 w3 j. Index_Close mem_env w1 i = Some (w2, None) \<and> OpenIndex mem_env w2 (ipath i) = (w3, Inr j) \<and>
          idx_ok mem_view w3 j \<and> Shards j = Shards i \<and> lookup_doc mem_view w3 j = lookup_doc mem_view w1 i \<and>
          startTime j = to_minute 90000000000 \<and> endTime j = to_minute ns_per_day)"
    by (auto simp: dirs_ok_def path_free_def)
  then show ?thesis using m by (metis (no_types, lifting))
qed

text \<open>
  A directory without the file that holds the end time cannot be opened, and opening another index does not
  create one.
\<close>

lemma OpenIndex_torn:
  assumes "no_faults env" and "map_of (nodes w) (p @ [endTimeFileName]) = None"
  shows "\<exists>err. OpenIndex env w p = (w, Inl err)"
proof -
  have "os_Open env w (Join p endTimeFileName) = Inl (NotExist (p @ [endTimeFileName]))"
    using assms by (simp add: os_Open_def no_faults_def Join_def)
  then show ?thesis by (simp add: OpenIndex_def split: sum.splits option.splits)
qed

lemma fst_case_sum: "fst (case y of (w1, Inl a) \<Rightarrow> (w1, f a) | (w1, Inr a) \<Rightarrow> (w1, g a)) = fst y"
  by (auto split: prod.splits sum.splits)

lemma OpenIndex_frame:
  assumes "p \<noteq> p'"
  shows "map_of (nodes (fst (OpenIndex env w p'))) (p @ [x]) = map_of (nodes w) (p @ [x])"
proof -
  have fr: "map_of (nodes (fst (open_shards env w (map (Join p') names)))) (p @ [x]) = map_of (nodes w) (p @ [x])" for names
    using assms by (intro open_shards_frame) (auto simp: Join_def)
  then show ?thesis by (simp add: OpenIndex_def fst_case_sum split: sum.split option.split)
qed

text \<open>
  An existing index is not detected. The documentation of \<open>NewIndex\<close> promises an error when an
  index exists at the path; the test never holds, and the end time of the index that is already
  there is overwritten by the new one.
\<close>

theorem new_index_overwrites:
  assumes "no_faults env" and "p = Join path (format_index_name s)"
    and "index_files (nodes w) p e n" and "dirs_ok (nodes w) p" and "0 \<le> k" and "k \<le> maxShardCount"
  shows "\<exists>w' r. NewIndex env w path s e' k = Some (w', r) \<and> (\<forall>q. r \<noteq> Inl (IndexExists q)) \<and>
    map_of (nodes w') (Join p endTimeFileName) = Some (File (format_index_name e'))"
proof -
  let ?f = "p @ [endTimeFileName]" and ?ps = "map (\<lambda>n. Join p (shard_name n)) [0..<nat k]"
  have "p \<noteq> []" by (simp add: assms(2) Join_def)
  moreover have "distinct (map fst (nodes w))" using assms(3) by (simp add: index_files_def)
  ultimately obtain ns where ns: "os_MkdirAll env w p = (w\<lparr>nodes := ns\<rparr>, None)" "map_of ns p = Some Dir"
    "\<forall>q. \<not> prefix q p \<or> q = [] \<longrightarrow> map_of ns q = map_of (nodes w) q"
    using MkdirAll_ok [OF assms(1,4)] by blast
  have "\<not> prefix ?f p" by (auto simp: prefix_def)
  with ns(3) assms(3) have f: "map_of ns ?f = Some (File (format_index_name e))" by (simp add: index_files_def)
  let ?w2 = "w\<lparr>nodes := set_node ?f (File []) ns\<rparr>"
  let ?w3 = "w\<lparr>nodes := set_node ?f (File (format_index_name e')) (set_node ?f (File []) ns)\<rparr>"
  have 2: "os_Create env (w\<lparr>nodes := ns\<rparr>) ?f = (?w2, None)"
    using assms(1) ns(2) f by (simp add: os_Create_def no_faults_def)
  have 3: "file_WriteString env ?w2 ?f (format_index_name e') = (?w3, None)"
    using assms(1) by (simp add: file_WriteString_def no_faults_def)
  have "endTimeFileName \<noteq> shard_name n" if "n < nat k" for n
  proof -
    have "n < 10000" using that assms(6) by linarith
    then show ?thesis using shard_name_no_endtime [of n] by auto
  qed
  then have "?f \<notin> set ?ps" by (fastforce simp: Join_def)
  then have fr: "map_of (nodes (fst (open_shards env ?w3 ?ps))) ?f = Some (File (format_index_name e'))"
    by (simp add: open_shards_frame)
  have "NewIndex env w path s e' k = (case open_shards env ?w3 ?ps of (w4, Inl er) \<Rightarrow> Some (w4, Inl er)
      | (w4, Inr shards) \<Rightarrow> Some (w4, Inr \<lparr>ipath = p, startTime = s, endTime = e', Shards = shards, Alias = map sh_b shards\<rparr>))"
    using ns(1) 2 3 assms(5,6)
    by (simp add: NewIndex_def Let_def assms(2) [symmetric] Join_def [of _ endTimeFileName] IsNotExist_def split: sum.splits)
  with fr show ?thesis
    using open_shards_error [of env ?w3 ?ps]
    by (auto simp: Join_def [of _ endTimeFileName] split: prod.splits sum.splits)
qed

theorem new_index_overwrites_witness:
  "\<exists>w' r. NewIndex mem_env \<lparr>nodes = [([''0''], Dir), ([''0'', ''00010101_0000''], Dir),
      ([''0'', ''00010101_0000'', ''endtime''], File ''00010102_0000'')], stores = Map.empty\<rparr> [''0''] 0 ns_per_min 0 = Some (w', r) \<and>
    map_of (nodes w') [''0'', ''00010101_0000'', ''endtime''] = Some (File ''00010101_0001'')"
proof -
  let ?w = "\<lparr>nodes = [([''0''], Dir), ([''0'', ''00010101_0000''], Dir),
      ([''0'', ''00010101_0000'', ''endtime''], File ''00010102_0000'')], stores = Map.empty\<rparr> :: mem_index world"
  have f: "format_index_name 0 = ''00010101_0000''" "format_index_name ns_per_day = ''00010102_0000''"
    "format_index_name ns_per_min = ''00010101_0001''" by code_simp+
  have "index_files (nodes ?w) [''0'', ''00010101_0000''] ns_per_day 0"
    by (auto simp: index_files_def f)
  moreover have "dirs_ok (nodes ?w) [''0'', ''00010101_0000'']"
    by (auto simp: dirs_ok_def)
  ultimately show ?thesis
    using new_index_overwrites [OF mem_no_faults, of "[''0'', ''00010101_0000'']" "[''0'']" 0 ?w ns_per_day 0 0 ns_per_min]
    by (auto simp: f Join_def)
qed

end
