(* ===== verification/Engine.thy ===== *)
theory Engine
  imports Index_Disk
begin

text \<open>
  \<open>engine.go\<close>, the engine: a list of indexes, one per range of time, the latest first. Events are
  routed to the index that contains their reference time, which is created when there is none;
  searches go through the indexes from the earliest; old indexes are deleted. The model threads the
  state of storage (\<open>world\<close>) and the engine; locks make each operation atomic. Shows that indexing
  implements adding documents to a map, that search results are in the order of time, that a created
  index contains the time it was created for, and what retention removes.
\<close>

section \<open>Model\<close>

record Engine =
  epath :: path
  NumShards :: int
  IndexDuration :: duration
  RetentionPeriod :: duration
  indexes :: "Index list"
  isOpen :: bool

definition NewEngine :: "path \<Rightarrow> Engine" where
  "NewEngine p = \<lparr>epath = p, NumShards = 16, IndexDuration = 24 * 3600 * ns_per_sec,
     RetentionPeriod = 24 * 3600 * ns_per_sec, indexes = [], isOpen = False\<rparr>"

abbreviation sort_indexes :: "Index list \<Rightarrow> Index list" where
  "sort_indexes \<equiv> go_sort Indexes_Less"

fun open_indexes :: "'b env \<Rightarrow> 'b world \<Rightarrow> Engine \<Rightarrow> (bytes \<times> node) list \<Rightarrow> 'b world \<times> Engine \<times> go_error option" where
  "open_indexes env w e [] = (w, e, None)"
| "open_indexes env w e ((name, nd) # fis) =
     (if nd \<noteq> Dir \<or> has_prefix name ''.'' then open_indexes env w e fis
      else
        let indexPath = Join (epath e) name
        in case OpenIndex env w indexPath of
             (w1, Inl err) \<Rightarrow> (w1, e, Some (EngineIndexFailed indexPath err))
           | (w1, Inr i) \<Rightarrow> open_indexes env w1 (e\<lparr>indexes := sort_indexes (indexes e @ [i])\<rparr>) fis)"

definition Engine_Open :: "'b env \<Rightarrow> 'b world \<Rightarrow> Engine \<Rightarrow> 'b world \<times> Engine \<times> go_error option" where
  "Engine_Open env w e =
     (case os_MkdirAll env w (epath e) of
        (w1, Some err) \<Rightarrow> (w1, e, Some err)
      | (w1, None) \<Rightarrow>
          (case os_Open env w1 (epath e) of
             Inl err \<Rightarrow> (w1, e, Some (EngineOpenFailed err))
           | Inr d \<Rightarrow>
               (case file_Readdir env w1 (epath e) d of
                  Inl err \<Rightarrow> (w1, e, Some err)
                | Inr fis \<Rightarrow>
                    (case open_indexes env w1 e fis of
                       (w2, e2, Some err) \<Rightarrow> (w2, e2, Some err)
                     | (w2, e2, None) \<Rightarrow> (w2, e2\<lparr>isOpen := True\<rparr>, None)))))"

fun close_indexes :: "'b env \<Rightarrow> 'b world \<Rightarrow> Index list \<Rightarrow> ('b world \<times> go_error option) option" where
  "close_indexes env w [] = Some (w, None)"
| "close_indexes env w (i # is) =
     (case Index_Close env w i of
        None \<Rightarrow> None
      | Some (w1, Some err) \<Rightarrow> Some (w1, Some err)
      | Some (w1, None) \<Rightarrow> close_indexes env w1 is)"

definition Engine_Close :: "'b env \<Rightarrow> 'b world \<Rightarrow> Engine \<Rightarrow> ('b world \<times> Engine \<times> go_error option) option" where
  "Engine_Close env w e =
     (if \<not> isOpen e then Some (w, e, None)
      else
        (case close_indexes env w (indexes e) of
           None \<Rightarrow> None
         | Some (w1, Some err) \<Rightarrow> Some (w1, e, Some err)
         | Some (w1, None) \<Rightarrow> Some (w1, e\<lparr>isOpen := False\<rparr>, None)))"

fun total_of :: "'b env \<Rightarrow> 'b world \<Rightarrow> Index list \<Rightarrow> 64 word \<Rightarrow> (go_error + 64 word) option" where
  "total_of env w [] acc = Some (Inr acc)"
| "total_of env w (i # is) acc =
     (case Index_Total env w i of
        None \<Rightarrow> None
      | Some (Inl err) \<Rightarrow> Some (Inl err)
      | Some (Inr t) \<Rightarrow> total_of env w is (acc + t))"

definition Engine_Total :: "'b env \<Rightarrow> 'b world \<Rightarrow> Engine \<Rightarrow> (go_error + 64 word) option" where
  "Engine_Total env w e = total_of env w (indexes e) 0"

text \<open>
  The loop of \<open>enforceRetention\<close>; the list \<open>now\<close> has the readings of the clock, one per index. An
  expired index leaves the list even when it could not be deleted.
\<close>

fun retain :: "'b env \<Rightarrow> 'b world \<Rightarrow> duration \<Rightarrow> (gtime \<times> Index) list \<Rightarrow> ('b world \<times> Index list) option" where
  "retain env w r [] = Some (w, [])"
| "retain env w r ((now, i) # is) =
     (if Expired i now r then
        (case DeleteIndex env w i of
           None \<Rightarrow> None
         | Some (w1, _) \<Rightarrow> retain env w1 r is)
      else map_option (\<lambda>(w1, kept). (w1, i # kept)) (retain env w r is))"

definition enforceRetention :: "'b env \<Rightarrow> 'b world \<Rightarrow> Engine \<Rightarrow> gtime list \<Rightarrow> ('b world \<times> Engine) option" where
  "enforceRetention env w e now =
     map_option (\<lambda>(w1, filtered). (w1, e\<lparr>indexes := filtered\<rparr>))
       (retain env w (RetentionPeriod e) (zip now (indexes e)))"

definition indexForReferenceTime :: "Engine \<Rightarrow> gtime \<Rightarrow> Index option" where
  "indexForReferenceTime e t = find (\<lambda>i. Contains i t) (indexes e)"

text \<open>\<open>createIndex\<close>; a failed assertion panics.\<close>

definition createIndex :: "'b env \<Rightarrow> 'b world \<Rightarrow> Engine \<Rightarrow> gtime \<Rightarrow> gtime \<Rightarrow>
    ('b world \<times> Engine \<times> (go_error + Index)) option" where
  "createIndex env w e start end =
     (let idx = find (\<lambda>i. startTime i = start) (indexes e);
          start' = (case idx of None \<Rightarrow> start | Some i \<Rightarrow> endTime i)
      in if idx \<noteq> None \<and> end < start' then None
         else
           (case NewIndex env w (epath e) start' end (NumShards e) of
              None \<Rightarrow> None
            | Some (w1, Inl err) \<Rightarrow> Some (w1, e, Inl err)
            | Some (w1, Inr i) \<Rightarrow> Some (w1, e\<lparr>indexes := sort_indexes (indexes e @ [i])\<rparr>, Inr i)))"

definition createIndexForReferenceTime :: "'b env \<Rightarrow> 'b world \<Rightarrow> Engine \<Rightarrow> gtime \<Rightarrow>
    ('b world \<times> Engine \<times> (go_error + Index)) option" where
  "createIndexForReferenceTime env w e rt =
     (let start = Truncate rt (IndexDuration e); end = start + IndexDuration e
      in createIndex env w e start end)"

text \<open>
  \<open>Engine.Index\<close>: the loop that splits the batch into sub-batches, and the indexing of each. The
  map has pointers to indexes as keys; the model uses the index itself, whose path tells it apart.
  The event behind a document has its reference time memoised by then.
\<close>

definition as_document :: "Event \<Rightarrow> Document option" where
  "as_document ev = map_option (\<lambda>(ev1, x). \<lparr>doc_id = x, data = Data ev1, source = Source ev1\<rparr>) (ID ev)"

fun demux :: "'b env \<Rightarrow> 'b world \<Rightarrow> Engine \<Rightarrow> Event list \<Rightarrow> (Index \<times> Document list) list \<Rightarrow>
    ('b world \<times> Engine \<times> (Index \<times> Document list) list) option" where
  "demux env w e [] subs = Some (w, e, subs)"
| "demux env w e (ev # evs) subs =
     (case (ReferenceTime ev, as_document ev) of
        (Some (ev1, t), Some d) \<Rightarrow>
          (case indexForReferenceTime e t of
             Some i \<Rightarrow> demux env w e evs (add_to i d subs)
           | None \<Rightarrow>
               (case createIndexForReferenceTime env w e t of
                  Some (w1, e1, Inr i) \<Rightarrow> demux env w1 e1 evs (add_to i d subs)
                | _ \<Rightarrow> None))
      | _ \<Rightarrow> None)"

definition Engine_Index :: "'b env \<Rightarrow> 'b world \<Rightarrow> Engine \<Rightarrow> Event list \<Rightarrow>
    ('b world \<times> Engine \<times> go_error option) option" where
  "Engine_Index env w e evs =
     (case demux env w e evs [] of
        None \<Rightarrow> None
      | Some (w1, e1, subs) \<Rightarrow>
          map_option (\<lambda>w2. (w2, e1, None)) (put_all (Index_Index env) w1 subs))"

text \<open>
  \<open>Engine.Search\<close>: what the channel delivers until it is closed. An error of \<open>Document\<close> ends the
  results of its index, an error of \<open>Search\<close> ends the search.
\<close>

fun fetch :: "'b env \<Rightarrow> 'b world \<Rightarrow> Index \<Rightarrow> DocID list \<Rightarrow> bytes list option" where
  "fetch env w i [] = Some []"
| "fetch env w i (x # xs) =
     (case Index_Document env w i x of
        None \<Rightarrow> None
      | Some (Inl _) \<Rightarrow> Some []
      | Some (Inr b) \<Rightarrow> map_option (\<lambda>bs. b # bs) (fetch env w i xs))"

fun search_loop :: "'b env \<Rightarrow> 'b world \<Rightarrow> bytes \<Rightarrow> Index list \<Rightarrow> bytes list option" where
  "search_loop env w q [] = Some []"
| "search_loop env w q (i # is) =
     (case Index_Search env w i q of
        None \<Rightarrow> None
      | Some (Inl _) \<Rightarrow> Some []
      | Some (Inr ids) \<Rightarrow>
          (case (fetch env w i ids, search_loop env w q is) of
             (Some xs, Some ys) \<Rightarrow> Some (xs @ ys)
           | _ \<Rightarrow> None))"

definition Engine_Search :: "'b env \<Rightarrow> 'b world \<Rightarrow> Engine \<Rightarrow> bytes \<Rightarrow> bytes list option" where
  "Engine_Search env w e q = search_loop env w q (rev (indexes e))"

section \<open>Creating an index\<close>

lemma createIndexForReferenceTime_contains:
  assumes "0 < IndexDuration e" and "indexForReferenceTime e t = None"
    and "createIndexForReferenceTime env w e t = Some (w', e', Inr i)"
  shows "Contains i t \<and> i \<in> set (indexes e') \<and> set (indexes e') = insert i (set (indexes e))"
proof -
  let ?s = "Truncate t (IndexDuration e)"
  let ?idx = "find (\<lambda>i. startTime i = ?s) (indexes e)"
  let ?s' = "case ?idx of None \<Rightarrow> ?s | Some i \<Rightarrow> endTime i"
  have b: "?s \<le> t" "t < ?s + IndexDuration e" using Truncate_bounds [OF assms(1), of t] by auto
  have "?s' \<le> t"
  proof (cases ?idx)
    case (Some j)
    then have "startTime j = ?s" "j \<in> set (indexes e)" by (auto simp: find_Some_iff)
    moreover have "\<not> Contains j t" using assms(2) calculation(2) by (simp add: indexForReferenceTime_def find_None_iff)
    ultimately show ?thesis using b Some by (auto simp: Contains_def)
  qed (use b in simp)
  moreover from assms(3) obtain w1 where
    "NewIndex env w (epath e) ?s' (?s + IndexDuration e) (NumShards e) = Some (w1, Inr i)"
    and e': "e' = e\<lparr>indexes := sort_indexes (indexes e @ [i])\<rparr>"
    by (auto simp: createIndexForReferenceTime_def createIndex_def Let_def split: if_splits option.splits sum.splits prod.splits)
  then have "startTime i = ?s'" "endTime i = ?s + IndexDuration e"
    by (auto simp: NewIndex_def Let_def split: if_splits option.splits sum.splits prod.splits)
  ultimately show ?thesis using b by (auto simp: Contains_def e')
qed

lemma NewIndex_returns: "0 \<le> n \<Longrightarrow> \<exists>w1 r. NewIndex env w p s f n = Some (w1, r)"
  by (auto simp: NewIndex_def Let_def split: option.splits sum.splits prod.splits)

lemma createIndex_no_assert:
  assumes "0 < IndexDuration e" and "indexForReferenceTime e t = None" and "0 \<le> NumShards e"
  shows "createIndexForReferenceTime env w e t \<noteq> None"
proof -
  let ?s = "Truncate t (IndexDuration e)"
  let ?idx = "find (\<lambda>i. startTime i = ?s) (indexes e)"
  have b: "?s \<le> t" "t < ?s + IndexDuration e" using Truncate_bounds [OF assms(1), of t] by auto
  have "endTime j \<le> ?s + IndexDuration e" if "?idx = Some j" for j
  proof -
    have "startTime j = ?s" "j \<in> set (indexes e)" using that by (auto simp: find_Some_iff)
    moreover have "\<not> Contains j t" using assms(2) calculation(2) by (simp add: indexForReferenceTime_def find_None_iff)
    ultimately show ?thesis using b by (auto simp: Contains_def)
  qed
  moreover obtain w1 r where "NewIndex env w (epath e) (case ?idx of None \<Rightarrow> ?s | Some i \<Rightarrow> endTime i)
      (?s + IndexDuration e) (NumShards e) = Some (w1, r)"
    using NewIndex_returns [OF assms(3)] by metis
  ultimately show ?thesis
    by (cases r; cases ?idx) (auto simp: createIndexForReferenceTime_def createIndex_def Let_def)
qed

section \<open>The engine in order\<close>

text \<open>The time an ID was made from.\<close>

definition id_time :: "DocID \<Rightarrow> gtime" where
  "id_time x = unix_epoch + uint (fst (the (id_words x)))"

definition doc_in :: "Index \<Rightarrow> DocID \<Rightarrow> bool" where
  "doc_in i x \<longleftrightarrow> valid_id x \<and> in_range (id_time x) \<and> Contains i (id_time x)"

text \<open>
  The indexes are windows of the configured duration, a multiple of a minute, named by their start,
  the latest first.
\<close>

definition window_ok :: "Engine \<Rightarrow> Index \<Rightarrow> bool" where
  "window_ok e i \<longleftrightarrow> IndexDuration e dvd startTime i \<and> endTime i = startTime i + IndexDuration e \<and>
     four_digit_year (startTime i) \<and> ipath i = Join (epath e) (format_index_name (startTime i))"

definition eng_shape :: "Engine \<Rightarrow> bool" where
  "eng_shape e \<longleftrightarrow> 0 < IndexDuration e \<and> ns_per_min dvd IndexDuration e \<and> 0 < NumShards e \<and>
     NumShards e \<le> maxShardCount \<and> (\<forall>i\<in>set (indexes e). window_ok e i) \<and>
     sorted_wrt (\<lambda>i j. startTime j < startTime i) (indexes e)"

definition eng_files :: "'b world \<Rightarrow> Engine \<Rightarrow> bool" where
  "eng_files w e \<longleftrightarrow> distinct (map fst (nodes w)) \<and> dirs_ok (nodes w) (epath e) \<and>
     (\<forall>q. strict_prefix (epath e) q \<and> map_of (nodes w) q \<noteq> None \<longrightarrow>
        (\<exists>i\<in>set (indexes e). prefix (ipath i) q))"

definition eng_ok :: "'b view \<Rightarrow> 'b world \<Rightarrow> Engine \<Rightarrow> bool" where
  "eng_ok V w e \<longleftrightarrow> eng_shape e \<and> eng_files w e \<and>
     (\<forall>i\<in>set (indexes e). idx_ok V w i \<and> (\<forall>x\<in>dom (lookup_doc V w i). doc_in i x))"

lemma window_start:
  assumes "0 < IndexDuration e" and "window_ok e i" and "Contains i t"
  shows "startTime i = Truncate t (IndexDuration e)"
  using assms Truncate_unique [of "IndexDuration e" "startTime i" t] by (auto simp: window_ok_def Contains_def)

lemma start_inj:
  assumes "eng_shape e" and "i \<in> set (indexes e)" and "j \<in> set (indexes e)" and "startTime i = startTime j"
  shows "i = j"
proof -
  obtain a where a: "a < length (indexes e)" "i = indexes e ! a" using assms(2) by (metis in_set_conv_nth)
  obtain b where b: "b < length (indexes e)" "j = indexes e ! b" using assms(3) by (metis in_set_conv_nth)
  have "\<forall>x y. x < y \<and> y < length (indexes e) \<longrightarrow> startTime (indexes e ! y) < startTime (indexes e ! x)"
    using assms(1) by (simp add: eng_shape_def sorted_wrt_iff_nth_less)
  then have "\<not> a < b" "\<not> b < a" using assms(4) a b by fastforce+
  with a b show ?thesis by simp
qed

lemma indexFor_iff:
  assumes "eng_shape e"
  shows "indexForReferenceTime e t = Some i \<longleftrightarrow> i \<in> set (indexes e) \<and> Contains i t"
proof
  assume "indexForReferenceTime e t = Some i"
  then show "i \<in> set (indexes e) \<and> Contains i t"
    by (auto simp: indexForReferenceTime_def find_Some_iff)
next
  assume i: "i \<in> set (indexes e) \<and> Contains i t"
  then obtain j where j: "indexForReferenceTime e t = Some j"
    by (cases "indexForReferenceTime e t") (auto simp: indexForReferenceTime_def find_None_iff)
  then have "j \<in> set (indexes e)" "Contains j t" by (auto simp: indexForReferenceTime_def find_Some_iff)
  with i assms have "startTime i = startTime j"
    using window_start [of e i t] window_start [of e j t] by (auto simp: eng_shape_def)
  with start_inj [OF assms] i \<open>j \<in> set (indexes e)\<close> j show "indexForReferenceTime e t = Some i" by blast
qed

lemma to_minute_window: "eng_shape e \<Longrightarrow> window_ok e i \<Longrightarrow> to_minute (startTime i) = startTime i"
  unfolding eng_shape_def window_ok_def to_minute_def using dvd_trans dvd_imp_mod_0 by fastforce

lemma name_inj:
  assumes "four_digit_year s" and "four_digit_year t" and "ns_per_min dvd s" and "ns_per_min dvd t"
    and "format_index_name s = format_index_name t"
  shows "s = t"
proof -
  have m: "s mod ns_per_min = 0" "t mod ns_per_min = 0" using assms(3,4) by (simp_all only: dvd_imp_mod_0)
  have "parse_index_name (format_index_name t) = Some (s - s mod ns_per_min)"
    using parse_format_index_name [OF assms(1)] by (simp only: assms(5))
  then show ?thesis
    using parse_format_index_name [OF assms(2)] by (simp only: m diff_0_right option.inject)
qed

lemma prefix_same_length: "prefix a q \<Longrightarrow> prefix b q \<Longrightarrow> length a = length b \<Longrightarrow> a = b"
  by (auto simp: prefix_def append_eq_append_conv)

lemma path_inj:
  assumes "eng_shape e" and "i \<in> set (indexes e)" and "four_digit_year s" and "IndexDuration e dvd s"
    and "prefix (Join (epath e) (format_index_name s)) q" and "prefix (ipath i) q"
  shows "startTime i = s"
proof -
  have w: "window_ok e i" using assms(1,2) by (simp add: eng_shape_def)
  then have p: "ipath i = Join (epath e) (format_index_name (startTime i))" by (simp add: window_ok_def)
  have "ipath i = Join (epath e) (format_index_name s)"
    using prefix_same_length [OF assms(6,5)] p by (simp add: Join_def)
  with p have "format_index_name (startTime i) = format_index_name s" by (simp add: Join_def)
  moreover have "ns_per_min dvd IndexDuration e" using assms(1) by (simp add: eng_shape_def)
  ultimately show ?thesis
    using w assms(3,4) unfolding window_ok_def by (intro name_inj) (auto elim: dvd_trans)
qed

lemma distinct_indexes: "eng_shape e \<Longrightarrow> distinct (indexes e)"
  by (auto simp: eng_shape_def sorted_wrt_iff_nth_less distinct_conv_nth) (metis nat_neq_iff order_less_irrefl)

lemma paths_unique:
  assumes "eng_shape e" and "i \<in> set (indexes e)" and "j \<in> set (indexes e)" and "prefix (ipath i) q" and "prefix (ipath j) q"
  shows "i = j"
proof -
  have "window_ok e j" using assms(1,3) by (simp add: eng_shape_def)
  then have "startTime i = startTime j"
    using path_inj [OF assms(1,2), of "startTime j" q] assms(4,5) by (auto simp: window_ok_def)
  then show ?thesis using start_inj [OF assms(1-3)] by blast
qed

lemma eng_apart:
  assumes "eng_ok V w e" and "i \<in> set (indexes e)" and "j \<in> set (indexes e)" and "i \<noteq> j"
  shows "apart i j"
proof (rule ccontr)
  assume "\<not> apart i j"
  then obtain q where q: "q \<in> sh_path ` set (Shards i)" "q \<in> sh_path ` set (Shards j)" by (auto simp: apart_def)
  have "idx_shape i" "idx_shape j" and e: "eng_shape e" using assms by (auto simp: eng_ok_def idx_ok_def)
  with q have "prefix (ipath i) q" "prefix (ipath j) q" by (auto simp: idx_shape_def)
  with paths_unique [OF e assms(2,3)] assms(4) show False by blast
qed

text \<open>An index is as it was when the stores below its path are.\<close>

lemma index_frame:
  assumes "idx_ok V w j" and "\<forall>q. prefix (ipath j) q \<longrightarrow> stores w' q = stores w q"
  shows "idx_ok V w' j" and "lookup_doc V w' j = lookup_doc V w j"
proof -
  have "stores w' q = stores w q" if "q \<in> sh_path ` set (Shards j)" for q
    using assms that by (auto simp: idx_ok_def idx_shape_def)
  with idx_ok_frame [OF assms(1), of w'] show "idx_ok V w' j" "lookup_doc V w' j = lookup_doc V w j" by blast+
qed

lemma sort_windows:
  assumes "\<forall>i\<in>set is. endTime i = startTime i + d" and "distinct (map startTime is)"
  shows "sorted_wrt (\<lambda>i j. startTime j < startTime i) (sort_indexes is)"
proof -
  have "sorted_wrt (\<lambda>x y. - startTime x < - startTime y) (sort_indexes is)"
    using assms by (intro gs.srt_ascending) (auto simp: Indexes_Less_def distinct_map inj_on_def)
  then show ?thesis by simp
qed

lemma shape_insert:
  assumes "eng_shape e" and "window_ok e i" and "\<forall>j\<in>set (indexes e). startTime j \<noteq> startTime i"
  shows "eng_shape (e\<lparr>indexes := sort_indexes (indexes e @ [i])\<rparr>)"
proof -
  have wins: "\<forall>j\<in>set (indexes e @ [i]). window_ok e j" using assms(1,2) by (auto simp: eng_shape_def)
  have "distinct (map startTime (indexes e))"
    using assms(1) by (auto simp: eng_shape_def distinct_conv_nth sorted_wrt_iff_nth_less) (metis nat_neq_iff order_less_irrefl)
  then have "distinct (map startTime (indexes e @ [i]))" using assms(3) by fastforce
  with wins sort_windows [of "indexes e @ [i]" "IndexDuration e"]
  have "sorted_wrt (\<lambda>i j. startTime j < startTime i) (sort_indexes (indexes e @ [i]))" by (auto simp: window_ok_def)
  then show ?thesis using assms(1) wins by (auto simp: eng_shape_def window_ok_def)
qed

lemma files_insert:
  assumes "eng_files w e" and "ipath i = Join (epath e) name" and "distinct (map fst (nodes w'))"
    and "\<forall>q. \<not> prefix (ipath i) q \<and> \<not> prefix q (ipath i) \<longrightarrow> map_of (nodes w') q = map_of (nodes w) q"
    and "\<forall>q. prefix q (ipath i) \<and> q \<noteq> [] \<longrightarrow> map_of (nodes w') q = Some Dir"
  shows "eng_files w' (e\<lparr>indexes := sort_indexes (indexes e @ [i])\<rparr>)"
proof -
  let ?e = "e\<lparr>indexes := sort_indexes (indexes e @ [i])\<rparr>"
  have "\<exists>j\<in>set (indexes ?e). prefix (ipath j) q" if q: "strict_prefix (epath e) q" "map_of (nodes w') q \<noteq> None" for q
  proof (cases "prefix (ipath i) q")
    case False
    have "prefix q (epath e) \<or> q = ipath i" if "prefix q (ipath i)" using that unfolding assms(2) Join_def prefix_snoc by blast
    with False q(1) have "\<not> prefix q (ipath i)" by (auto simp: strict_prefix_def)
    with False assms(1,4) q show ?thesis by (auto simp: eng_files_def)
  qed auto
  moreover have "dirs_ok (nodes w') (epath e)" using assms(5) by (auto simp: assms(2) dirs_ok_def Join_def)
  ultimately show ?thesis using assms(3) by (simp add: eng_files_def)
qed

lemma create_ok:
  assumes "no_faults env" and "bleve_works (bleve env) V" and "eng_ok V w e"
    and "indexForReferenceTime e t = None" and "four_digit_year (Truncate t (IndexDuration e))"
  shows "\<exists>w' e' i. createIndexForReferenceTime env w e t = Some (w', e', Inr i) \<and> eng_ok V w' e' \<and>
    set (indexes e') = insert i (set (indexes e)) \<and> e' = e\<lparr>indexes := indexes e'\<rparr> \<and> Contains i t \<and>
    lookup_doc V w' i = Map.empty \<and> (\<forall>j\<in>set (indexes e). lookup_doc V w' j = lookup_doc V w j) \<and>
    startTime i = Truncate t (IndexDuration e) \<and>
    i = index_at (ipath i) (startTime i) (endTime i) (nat (NumShards e)) \<and>
    index_files (nodes w') (ipath i) (endTime i) (nat (NumShards e)) \<and>
    (\<forall>j\<in>set (indexes e). \<forall>q. prefix (ipath j) q \<longrightarrow> map_of (nodes w') q = map_of (nodes w) q)"
proof -
  let ?d = "IndexDuration e" let ?s = "Truncate t ?d" let ?p = "Join (epath e) (format_index_name ?s)"
  let ?n = "nat (NumShards e)" let ?i = "index_at ?p ?s (?s + ?d) ?n"
  let ?e = "e\<lparr>indexes := sort_indexes (indexes e @ [?i])\<rparr>"
  have sh: "eng_shape e" and files: "eng_files w e" using assms(3) by (auto simp: eng_ok_def)
  then have d: "0 < ?d" "0 < ?n" "?n < 10000" "int ?n = NumShards e" by (auto simp: eng_shape_def)
  have b: "?s \<le> t" "t < ?s + ?d" and dvd: "?d dvd ?s"
    using Truncate_bounds [OF d(1), of t] Truncate_multiple [OF d(1), of t] by auto
  have nostart: "startTime j \<noteq> ?s" if "j \<in> set (indexes e)" for j
  proof
    assume "startTime j = ?s"
    moreover have "window_ok e j" using sh that by (simp add: eng_shape_def)
    ultimately have "Contains j t" using b by (auto simp: Contains_def window_ok_def)
    with that assms(4) show False by (auto simp: indexForReferenceTime_def find_None_iff)
  qed
  then have idx: "find (\<lambda>i. startTime i = ?s) (indexes e) = None" by (simp add: find_None_iff)
  have noprefix: "\<not> prefix (ipath j) q" if "j \<in> set (indexes e)" "prefix ?p q" for j q
    using path_inj [OF sh that(1) assms(5) dvd that(2)] nostart [OF that(1)] by blast
  have below: "strict_prefix (epath e) q" if "prefix ?p q" for q
    using that by (auto simp: Join_def strict_prefix_def prefix_def)
  have free: "path_free w ?p"
    using files noprefix below unfolding path_free_def eng_files_def by blast
  have between: "prefix q (epath e) \<or> q = ?p" if "prefix q ?p" for q
    using that unfolding Join_def prefix_snoc by blast
  have "dirs_ok (nodes w) ?p"
    using files free between by (fastforce simp: dirs_ok_def eng_files_def path_free_def)
  from NewIndex_ok [OF assms(1,2) this _ free refl d(2,3), of "?s + ?d"] files obtain w' where
    w': "NewIndex env w (epath e) ?s (?s + ?d) (NumShards e) = Some (w', Inr ?i)" "idx_ok V w' ?i"
      "lookup_doc V w' ?i = Map.empty" "index_files (nodes w') ?p (?s + ?d) ?n"
      "\<forall>q. \<not> prefix ?p q \<longrightarrow> stores w' q = stores w q"
      "\<forall>q. \<not> prefix ?p q \<and> \<not> prefix q ?p \<longrightarrow> map_of (nodes w') q = map_of (nodes w) q"
      "\<forall>q. prefix q ?p \<and> q \<noteq> [] \<longrightarrow> map_of (nodes w') q = Some Dir"
    unfolding d(4) by (auto simp: eng_files_def)
  have create: "createIndexForReferenceTime env w e t = Some (w', ?e, Inr ?i)"
    using w'(1) by (simp add: createIndexForReferenceTime_def createIndex_def Let_def idx)
  have i: "startTime ?i = ?s" "endTime ?i = ?s + ?d" "ipath ?i = ?p" by (simp_all add: index_at_def)
  have fr: "idx_ok V w' j" "lookup_doc V w' j = lookup_doc V w j" if j: "j \<in> set (indexes e)" for j
  proof -
    have "\<forall>q. prefix (ipath j) q \<longrightarrow> stores w' q = stores w q" using noprefix [OF j] w'(5) by blast
    moreover have "idx_ok V w j" using assms(3) j by (simp add: eng_ok_def)
    ultimately show "idx_ok V w' j" "lookup_doc V w' j = lookup_doc V w j" using index_frame by blast+
  qed
  have "window_ok e ?i" using i dvd assms(5) by (simp add: window_ok_def)
  then have "eng_shape ?e" using shape_insert [OF sh] nostart i(1) by simp
  moreover have "eng_files w' ?e"
    using files_insert [OF files i(3), of w'] w'(4,6,7) unfolding i(3) by (simp add: index_files_def)
  moreover have "\<forall>j\<in>set (indexes ?e). idx_ok V w' j \<and> (\<forall>x\<in>dom (lookup_doc V w' j). doc_in j x)"
    using w'(2,3) fr assms(3) by (auto simp: eng_ok_def)
  ultimately have "eng_ok V w' ?e" by (simp add: eng_ok_def)
  moreover have "Contains ?i t" using b i by (auto simp: Contains_def)
  moreover have "map_of (nodes w') q = map_of (nodes w) q" if j: "j \<in> set (indexes e)" and q: "prefix (ipath j) q" for j q
  proof -
    have "\<not> prefix ?p q" using noprefix [OF j] q by blast
    moreover have "\<not> prefix q ?p" using noprefix [OF j, of ?p] q prefix_order.trans by blast
    ultimately show ?thesis using w'(6) by blast
  qed
  moreover have "?i = index_at (ipath ?i) (startTime ?i) (endTime ?i) ?n" by (simp only: i)
  ultimately show ?thesis
    using create w'(3,4) fr(2) i by (intro exI [of _ w'] exI [of _ ?e] exI [of _ ?i]) auto
qed

section \<open>The documents of the engine\<close>

definition eng_docs :: "'b view \<Rightarrow> 'b world \<Rightarrow> Engine \<Rightarrow> DocID \<rightharpoonup> doc_data \<times> bytes" where
  "eng_docs V w e x =
     (case indexForReferenceTime e (id_time x) of None \<Rightarrow> None | Some i \<Rightarrow> lookup_doc V w i x)"

lemma eng_docs_at:
  assumes "eng_shape e" and "i \<in> set (indexes e)" and "Contains i (id_time x)"
  shows "eng_docs V w e x = lookup_doc V w i x"
  using indexFor_iff [OF assms(1), of "id_time x" i] assms(2,3) by (simp add: eng_docs_def)

lemma eng_docs_grow:
  assumes "eng_shape e" and "eng_shape e'" and "set (indexes e') = insert i (set (indexes e))"
    and "lookup_doc V w' i = Map.empty" and "\<forall>j\<in>set (indexes e). lookup_doc V w' j = lookup_doc V w j"
  shows "eng_docs V w' e' = eng_docs V w e"
proof
  fix x
  show "eng_docs V w' e' x = eng_docs V w e x"
  proof (cases "indexForReferenceTime e (id_time x)")
    case (Some j)
    then have "j \<in> set (indexes e)" "Contains j (id_time x)" using indexFor_iff [OF assms(1)] by auto
    then show ?thesis
      using eng_docs_at [OF assms(1), of j x V w] eng_docs_at [OF assms(2), of j x V w'] assms(3,5) by simp
  next
    case None
    show ?thesis
    proof (cases "indexForReferenceTime e' (id_time x)")
      case (Some k)
      then have "k \<in> set (indexes e')" "Contains k (id_time x)" using indexFor_iff [OF assms(2)] by auto
      with None assms(3) have "k = i" by (auto simp: indexForReferenceTime_def find_None_iff)
      with Some None assms(4) show ?thesis by (simp add: eng_docs_def)
    qed (use None in \<open>simp add: eng_docs_def\<close>)
  qed
qed

text \<open>Events of 1970 to 2262, and the documents they become.\<close>

definition event_ok :: "Event \<Rightarrow> bool" where
  "event_ok ev \<longleftrightarrow> (\<exists>ev1 t. ReferenceTime ev = Some (ev1, t) \<and> in_range t)"

lemma id_time_hex: "in_range t \<Longrightarrow> id_time (hex16 (UnixNano t) @ hex16 l) = t"
  by (simp add: id_time_def uint_UnixNano)

lemma as_document_ok:
  assumes "ReferenceTime ev = Some (ev1, t)" and "in_range t"
  shows "\<exists>d. as_document ev = Some d \<and> doc_id d = hex16 (UnixNano t) @ hex16 (Sequence ev) \<and>
    data d = \<lparr>Message = Text ev\<rparr> \<and> source d = Text ev \<and> valid_id (doc_id d) \<and> id_time (doc_id d) = t"
  using assms ReferenceTime_memo [OF assms(1)]
  by (auto simp: as_document_def ID_def Data_def Source_def valid_id_def id_time_hex)

lemma in_range_year:
  assumes "in_range t" and "0 < d"
  shows "four_digit_year (Truncate t d)"
proof -
  have "0 \<le> t" using assms(1) by (simp add: in_range_def unix_epoch_def ns_per_sec_def)
  with assms(2) have "0 \<le> Truncate t d" "Truncate t d \<le> t"
    using zmod_le_nonneg_dividend [of t d] by (simp_all add: Truncate_def)
  moreover have "t < unix_epoch + 2 ^ 63" using assms(1) by (simp add: in_range_def)
  moreover have "date_ns 0 1 1 0 0 0 0 \<le> 0" "unix_epoch + 2 ^ 63 \<le> date_ns 10000 1 1 0 0 0 0" by code_simp+
  ultimately show ?thesis by (simp add: four_digit_year_def)
qed

text \<open>The sub-batches hold, for each index, the documents so far whose time it contains.\<close>

definition batch_for :: "(Index \<times> Document list) list \<Rightarrow> Index \<Rightarrow> Document list" where
  "batch_for subs i = (case map_of subs i of None \<Rightarrow> [] | Some ds \<Rightarrow> ds)"

definition subs_ok :: "Engine \<Rightarrow> (Index \<times> Document list) list \<Rightarrow> Document list \<Rightarrow> bool" where
  "subs_ok e subs D \<longleftrightarrow> distinct (map fst subs) \<and> fst ` set subs \<subseteq> set (indexes e) \<and>
     (\<forall>i\<in>set (indexes e). batch_for subs i = filter (\<lambda>d. Contains i (id_time (doc_id d))) D) \<and>
     (\<forall>d\<in>set D. valid_id (doc_id d) \<and> in_range (id_time (doc_id d)) \<and>
        (\<exists>i\<in>set (indexes e). Contains i (id_time (doc_id d))))"

lemma batch_for_add:
  "distinct (map fst subs) \<Longrightarrow> batch_for (add_to i d subs) j = batch_for subs j @ (if j = i then [d] else [])"
  by (auto simp: batch_for_def add_to_spec(2) split: option.splits)

lemma set_add_to: "fst ` set (add_to i d subs) = insert i (fst ` set subs)"
  by (auto simp: add_to_def image_iff) force+

lemma window_unique:
  assumes "eng_shape e" and "i \<in> set (indexes e)" and "j \<in> set (indexes e)" and "Contains i t" and "Contains j t"
  shows "i = j"
  using indexFor_iff [OF assms(1), of t i] indexFor_iff [OF assms(1), of t j] assms(2-5) by simp

lemma subs_ok_add:
  assumes "eng_shape e" and "subs_ok e subs D" and "i \<in> set (indexes e)" and "Contains i (id_time (doc_id d))"
    and "valid_id (doc_id d)" and "in_range (id_time (doc_id d))"
  shows "subs_ok e (add_to i d subs) (D @ [d])"
proof -
  have "Contains j (id_time (doc_id d)) \<longleftrightarrow> j = i" if "j \<in> set (indexes e)" for j
    using window_unique [OF assms(1) that assms(3) _ assms(4)] assms(4) by blast
  then show ?thesis
    using assms add_to_spec(1) by (auto simp: subs_ok_def batch_for_add set_add_to)
qed

lemma subs_ok_grow:
  assumes "eng_shape e'" and "subs_ok e subs D" and "set (indexes e') = insert i (set (indexes e))"
    and "i \<notin> set (indexes e)"
  shows "subs_ok e' subs D"
proof -
  have "filter (\<lambda>d. Contains i (id_time (doc_id d))) D = []"
  proof (rule filter_False)
    show "\<forall>d\<in>set D. \<not> Contains i (id_time (doc_id d))"
    proof
      fix d assume "d \<in> set D"
      then obtain j where "j \<in> set (indexes e)" "Contains j (id_time (doc_id d))"
        using assms(2) by (auto simp: subs_ok_def)
      with window_unique [OF assms(1), of i j] assms(3,4) show "\<not> Contains i (id_time (doc_id d))" by auto
    qed
  qed
  moreover have "batch_for subs i = []"
    using assms(2,4) by (auto simp: subs_ok_def batch_for_def map_of_eq_None_iff split: option.splits dest!: map_of_SomeD)
  ultimately show ?thesis using assms(2,3) by (auto simp: subs_ok_def)
qed

lemma demux_ok:
  assumes "no_faults env" and "bleve_works (bleve env) V" and "eng_ok V w e" and "\<forall>ev\<in>set evs. event_ok ev"
    and "subs_ok e subs D"
  shows "\<exists>w' e' subs' ds. demux env w e evs subs = Some (w', e', subs') \<and> those (map as_document evs) = Some ds \<and>
    eng_ok V w' e' \<and> subs_ok e' subs' (D @ ds) \<and> eng_docs V w' e' = eng_docs V w e \<and>
    set (indexes e) \<subseteq> set (indexes e') \<and> e' = e\<lparr>indexes := indexes e'\<rparr>"
  using assms(3-5)
proof (induction evs arbitrary: w e subs D)
  case Nil
  then show ?case by simp
next
  case (Cons ev evs)
  from Cons.prems(2) obtain ev1 t where rt: "ReferenceTime ev = Some (ev1, t)" "in_range t"
    by (auto simp: event_ok_def)
  from as_document_ok [OF rt] obtain d where d: "as_document ev = Some d" "valid_id (doc_id d)"
    "id_time (doc_id d) = t" by blast
  have sh: "eng_shape e" using Cons.prems(1) by (simp add: eng_ok_def)
  have "\<exists>w1 e1 i. demux env w e (ev # evs) subs = demux env w1 e1 evs (add_to i d subs) \<and> eng_ok V w1 e1 \<and>
      subs_ok e1 subs D \<and> i \<in> set (indexes e1) \<and> Contains i t \<and> eng_docs V w1 e1 = eng_docs V w e \<and>
      set (indexes e) \<subseteq> set (indexes e1) \<and> e1 = e\<lparr>indexes := indexes e1\<rparr>"
  proof (cases "indexForReferenceTime e t")
    case (Some i)
    then show ?thesis
      using Cons.prems rt d(1) indexFor_iff [OF sh, of t i]
      by (intro exI [of _ w] exI [of _ e] exI [of _ i]) simp
  next
    case None
    have "four_digit_year (Truncate t (IndexDuration e))"
      using in_range_year [OF rt(2)] sh by (simp add: eng_shape_def)
    from create_ok [OF assms(1,2) Cons.prems(1) None this] obtain w1 e1 i where
      c: "createIndexForReferenceTime env w e t = Some (w1, e1, Inr i)" "eng_ok V w1 e1"
        "set (indexes e1) = insert i (set (indexes e))" "e1 = e\<lparr>indexes := indexes e1\<rparr>" "Contains i t"
        "lookup_doc V w1 i = Map.empty" "\<forall>j\<in>set (indexes e). lookup_doc V w1 j = lookup_doc V w j" by blast
    have sh1: "eng_shape e1" using c(2) by (simp add: eng_ok_def)
    have "i \<notin> set (indexes e)" using None c(5) by (auto simp: indexForReferenceTime_def find_None_iff)
    then have "subs_ok e1 subs D" using subs_ok_grow [OF sh1 Cons.prems(3) c(3)] by blast
    then show ?thesis
      using c eng_docs_grow [OF sh sh1 c(3,6,7)] rt d(1) None
      by (intro exI [of _ w1] exI [of _ e1] exI [of _ i]) auto
  qed
  then obtain w1 e1 i where 1: "demux env w e (ev # evs) subs = demux env w1 e1 evs (add_to i d subs)"
    "eng_ok V w1 e1" "subs_ok e1 subs D" "i \<in> set (indexes e1)" "Contains i t" "eng_docs V w1 e1 = eng_docs V w e"
    "set (indexes e) \<subseteq> set (indexes e1)" "e1 = e\<lparr>indexes := indexes e1\<rparr>" by blast
  have "subs_ok e1 (add_to i d subs) (D @ [d])"
    using 1(2-5) d rt(2) by (intro subs_ok_add) (auto simp: eng_ok_def)
  from Cons.IH [OF 1(2) _ this] Cons.prems(2) obtain w' e' subs' ds where
    2: "demux env w1 e1 evs (add_to i d subs) = Some (w', e', subs')" "those (map as_document evs) = Some ds"
      "eng_ok V w' e'" "subs_ok e' subs' (D @ d # ds)" "eng_docs V w' e' = eng_docs V w1 e1"
      "set (indexes e1) \<subseteq> set (indexes e')" "e' = e1\<lparr>indexes := indexes e'\<rparr>" by auto
  have "e' = e\<lparr>indexes := indexes e'\<rparr>" using 2(7) 1(8) by (metis Engine.update_convs(5) Engine.surjective)
  then show ?case using 1(1,6,7) 2(1-6) d(1)
    by (intro exI [of _ w'] exI [of _ e'] exI [of _ subs'] exI [of _ "d # ds"]) auto
qed

lemma eng_ok_frame:
  assumes "eng_ok V w e" and "nodes w' = nodes w"
    and "\<forall>i\<in>set (indexes e). idx_ok V w' i \<and> (\<forall>x\<in>dom (lookup_doc V w' i). doc_in i x)"
  shows "eng_ok V w' e"
  using assms by (simp add: eng_ok_def eng_files_def)

lemma put_all_nodes:
  assumes "bleve_works (bleve env) V" and "\<forall>j\<in>A. idx_ok V w j" and "\<forall>i\<in>A. \<forall>j\<in>A. i \<noteq> j \<longrightarrow> apart i j"
    and "fst ` set subs \<subseteq> A" and "put_all (Index_Index env) w subs = Some w'"
  shows "nodes w' = nodes w"
  using assms(2,4,5)
proof (induction subs arbitrary: w)
  case (Cons x subs)
  obtain i ds where x: "x = (i, ds)" by (cases x)
  from Cons.prems x have i: "i \<in> A" "idx_ok V w i" by auto
  from Index_Index_ok [OF assms(1) i(2)] obtain w1 where w1: "Index_Index env w i ds = Some (w1, None)"
    "nodes w1 = nodes w" by blast
  have "idx_ok V w1 j" if "j \<in> A" for j
    using ix.put_frame [of env V w i j ds w1 None] ix.put_ok [of env V w i ds] w1(1) assms(1,3) Cons.prems(1) i that
    by (cases "j = i") auto
  with Cons.IH [of w1] Cons.prems x w1 show ?case by simp
qed simp

text \<open>Sub-batches that are right, added to their indexes, add their documents to the engine.\<close>

lemma subs_docs_in:
  assumes "eng_ok V w1 e1" and "subs_ok e1 subs ds" and "j \<in> set (indexes e1)"
    and "lookup_doc V w2 j = lookup_doc V w1 j ++ doc_entry (filter (\<lambda>d. Contains j (id_time (doc_id d))) ds)"
    and "x \<in> dom (lookup_doc V w2 j)"
  shows "doc_in j x"
proof (cases "x \<in> dom (lookup_doc V w1 j)")
  case True
  then show ?thesis using assms(1,3) by (auto simp: eng_ok_def)
next
  case False
  with assms(4,5) obtain m where "doc_map (filter (\<lambda>d. Contains j (id_time (doc_id d))) ds) x = Some m"
    by (auto simp: doc_entry_def dom_def map_add_def split: option.splits)
  from doc_map_Some [OF this] assms(2) show ?thesis by (auto simp: subs_ok_def doc_in_def)
qed

lemma subs_docs:
  assumes "eng_shape e1" and "subs_ok e1 subs ds"
    and "\<And>j. j \<in> set (indexes e1) \<Longrightarrow>
      lookup_doc V w2 j = lookup_doc V w1 j ++ doc_entry (filter (\<lambda>d. Contains j (id_time (doc_id d))) ds)"
  shows "eng_docs V w2 e1 = eng_docs V w1 e1 ++ doc_entry ds"
proof
  fix x
  show "eng_docs V w2 e1 x = (eng_docs V w1 e1 ++ doc_entry ds) x"
  proof (cases "indexForReferenceTime e1 (id_time x)")
    case (Some i)
    then have i: "i \<in> set (indexes e1)" "Contains i (id_time x)" using indexFor_iff [OF assms(1)] by auto
    have "doc_map (filter (\<lambda>d. Contains i (id_time (doc_id d))) ds) x = doc_map ds x"
      using doc_map_filter [of "\<lambda>x. Contains i (id_time x)" x ds] i(2) by simp
    then show ?thesis
      using assms(3) [OF i(1)] eng_docs_at [OF assms(1) i, of V w2] eng_docs_at [OF assms(1) i, of V w1]
      by (simp add: doc_entry_def map_add_def split: option.splits)
  next
    case None
    have "doc_map ds x = None"
    proof (rule ccontr)
      assume "doc_map ds x \<noteq> None"
      then obtain m where "m \<in> set ds" "doc_id m = x" using doc_map_Some by blast
      with assms(2) None show False by (auto simp: subs_ok_def indexForReferenceTime_def find_None_iff)
    qed
    with None show ?thesis by (simp add: eng_docs_def doc_entry_def map_add_def)
  qed
qed

lemma Engine_Index_ok:
  assumes "no_faults env" and "bleve_works (bleve env) V" and "eng_ok V w e" and "\<forall>ev\<in>set evs. event_ok ev"
  shows "\<exists>w' e' ds. Engine_Index env w e evs = Some (w', e', None) \<and> those (map as_document evs) = Some ds \<and>
    eng_ok V w' e' \<and> eng_docs V w' e' = eng_docs V w e ++ doc_entry ds \<and>
    set (indexes e) \<subseteq> set (indexes e') \<and> e' = e\<lparr>indexes := indexes e'\<rparr> \<and>
    (\<forall>d\<in>set ds. \<exists>i\<in>set (indexes e'). Contains i (id_time (doc_id d)))"
proof -
  have "subs_ok e [] []" by (simp add: subs_ok_def batch_for_def)
  from demux_ok [OF assms this] obtain w1 e1 subs ds where
    d: "demux env w e evs [] = Some (w1, e1, subs)" "those (map as_document evs) = Some ds" "eng_ok V w1 e1"
      "subs_ok e1 subs ds" "eng_docs V w1 e1 = eng_docs V w e" "set (indexes e) \<subseteq> set (indexes e1)"
      "e1 = e\<lparr>indexes := indexes e1\<rparr>" by auto
  let ?A = "set (indexes e1)"
  have sh: "eng_shape e1" using d(3) by (simp add: eng_ok_def)
  have ok: "\<forall>j\<in>?A. bleve_works (bleve env) V \<and> idx_ok V w1 j" using d(3) assms(2) by (simp add: eng_ok_def)
  have ap: "\<forall>i\<in>?A. \<forall>j\<in>?A. i \<noteq> j \<longrightarrow> apart i j" using eng_apart [OF d(3)] by blast
  have sub: "fst ` set subs \<subseteq> ?A" "distinct (map fst subs)" using d(4) by (auto simp: subs_ok_def)
  from ix.put_all_ok [OF ok ap sub] obtain w2 where
    w2: "put_all (Index_Index env) w1 subs = Some w2"
      "\<And>j. j \<in> ?A \<Longrightarrow> idx_ok V w2 j \<and> lookup_doc V w2 j = lookup_doc V w1 j ++ (case map_of subs j of None \<Rightarrow> Map.empty | Some ds \<Rightarrow> doc_entry ds)"
    by blast
  have lk: "lookup_doc V w2 j = lookup_doc V w1 j ++ doc_entry (filter (\<lambda>d. Contains j (id_time (doc_id d))) ds)"
    if "j \<in> ?A" for j
  proof -
    have "doc_entry [] = Map.empty" by (simp add: doc_entry_def comp_def)
    moreover have "batch_for subs j = filter (\<lambda>d. Contains j (id_time (doc_id d))) ds"
      using d(4) that by (simp add: subs_ok_def)
    ultimately show ?thesis using w2(2) [OF that] by (auto simp: batch_for_def split: option.splits)
  qed
  have "doc_in j x" if "j \<in> ?A" "x \<in> dom (lookup_doc V w2 j)" for j x
    using subs_docs_in [OF d(3,4) that(1) lk [OF that(1)] that(2)] .
  moreover have "nodes w2 = nodes w1"
    using put_all_nodes [OF assms(2) _ ap sub(1) w2(1)] ok by blast
  ultimately have "eng_ok V w2 e1" using eng_ok_frame [OF d(3)] w2(2) by blast
  moreover have "eng_docs V w2 e1 = eng_docs V w e ++ doc_entry ds" using subs_docs [OF sh d(4) lk] d(5) by simp
  moreover have "\<forall>m\<in>set ds. \<exists>i\<in>?A. Contains i (id_time (doc_id m))" using d(4) by (simp add: subs_ok_def)
  ultimately show ?thesis
    using d(1,2,6,7) w2(1) by (intro exI [of _ w2] exI [of _ e1] exI [of _ ds]) (auto simp: Engine_Index_def)
qed

section \<open>Search\<close>

lemma fetch_ok:
  assumes "bleve_works (bleve env) V" and "idx_ok V w i" and "set ids \<subseteq> dom (lookup_doc V w i)"
  shows "fetch env w i ids = Some (map (\<lambda>x. snd (the (lookup_doc V w i x))) ids)"
  using assms(3)
proof (induction ids)
  case (Cons x ids)
  then obtain d b where "lookup_doc V w i x = Some (d, b)" by auto
  with Cons Index_Document_ok [OF assms(1,2), of x] show ?case by simp
qed simp

lemma id_time_key:
  assumes "valid_id x" and "valid_id y" and "id_time x < id_time y"
  shows "id_key x < id_key y"
proof -
  obtain m l where x: "x = hex16 m @ hex16 l" using assms(1) by (auto simp: valid_id_def)
  obtain m' l' where y: "y = hex16 m' @ hex16 l'" using assms(2) by (auto simp: valid_id_def)
  have "m < m'" using assms(3) by (simp add: x y id_time_def word_less_def)
  then show ?thesis
    using id_less_key(1) [OF assms(1,2)] by (simp add: x y id_less_def DocIDs_Less_hex)
qed

lemma distinct_of_keys: "sorted_wrt (\<lambda>x y. id_key x < id_key y) ids \<Longrightarrow> distinct ids"
  by (induction ids) auto

lemma windows_follow:
  assumes "eng_shape e" and "i \<in> set (indexes e)" and "j \<in> set (indexes e)" and "startTime j < startTime i"
  shows "endTime j \<le> startTime i"
proof -
  have w: "window_ok e i" "window_ok e j" and d: "0 < IndexDuration e" using assms(1-3) by (auto simp: eng_shape_def)
  from w obtain a b where ab: "startTime i = IndexDuration e * a" "startTime j = IndexDuration e * b"
    by (auto simp: window_ok_def dvd_def)
  with assms(4) d have "b + 1 \<le> a" by simp
  with d have "IndexDuration e * (b + 1) \<le> IndexDuration e * a" by simp
  with w ab show ?thesis by (simp add: window_ok_def algebra_simps)
qed

text \<open>Searching indexes whose ranges follow one another.\<close>

lemma search_loop_ok:
  assumes "bleve_works (bleve env) V"
    and "\<forall>i\<in>set is. idx_ok V w i \<and> (\<forall>x\<in>dom (lookup_doc V w i). doc_in i x)"
    and "sorted_wrt (\<lambda>i j. endTime i \<le> startTime j) is"
  shows "\<exists>res. search_loop env w q is = Some (map (\<lambda>(i, x). snd (the (lookup_doc V w i x))) res) \<and>
    sorted_wrt (\<lambda>x y. id_key x < id_key y) (map snd res) \<and>
    (\<forall>(i, x)\<in>set res. i \<in> set is \<and> x \<in> matching V w i q) \<and>
    ((\<forall>i\<in>set is. card (matching V w i q) \<le> maxSearchHitSize) \<longrightarrow>
       (\<forall>i\<in>set is. \<forall>x\<in>matching V w i q. (i, x) \<in> set res))"
  using assms(2,3)
proof (induction "is")
  case Nil
  then show ?case by simp
next
  case (Cons i "is")
  have i: "idx_ok V w i" "\<forall>x\<in>dom (lookup_doc V w i). doc_in i x" using Cons.prems(1) by auto
  then have "\<forall>x\<in>dom (lookup_doc V w i). valid_id x" by (auto simp: doc_in_def)
  from Index_Search_ok [OF assms(1) i(1) this, of q] obtain ids where
    ids: "Index_Search env w i q = Some (Inr ids)" "sorted_wrt (\<lambda>x y. id_key x < id_key y) ids"
      "set ids \<subseteq> matching V w i q" "length ids = min maxSearchHitSize (card (matching V w i q))" by blast
  have sub: "matching V w i q \<subseteq> dom (lookup_doc V w i)" by (auto simp: matching_def)
  have f: "fetch env w i ids = Some (map (\<lambda>x. snd (the (lookup_doc V w i x))) ids)"
    using fetch_ok [OF assms(1) i(1)] ids(3) sub by blast
  have all: "set ids = matching V w i q" if "card (matching V w i q) \<le> maxSearchHitSize"
  proof (rule card_subset_eq)
    show "finite (matching V w i q)" using finite_matching [OF assms(1) i(1)] sub finite_subset by blast
    have "distinct ids" using ids(2) by (rule distinct_of_keys)
    then show "card (set ids) = card (matching V w i q)" using ids(4) that by (simp add: distinct_card)
  qed (rule ids(3))
  from Cons obtain res where res: "search_loop env w q is = Some (map (\<lambda>(i, x). snd (the (lookup_doc V w i x))) res)"
    "sorted_wrt (\<lambda>x y. id_key x < id_key y) (map snd res)"
    "\<forall>(i, x)\<in>set res. i \<in> set is \<and> x \<in> matching V w i q"
    "(\<forall>i\<in>set is. card (matching V w i q) \<le> maxSearchHitSize) \<longrightarrow>
       (\<forall>i\<in>set is. \<forall>x\<in>matching V w i q. (i, x) \<in> set res)" by auto
  have cross: "id_key x < id_key y" if "x \<in> set ids" "(j, y) \<in> set res" for x y j
  proof -
    have "doc_in i x" using that(1) ids(3) sub i(2) by blast
    moreover have j: "j \<in> set is" "y \<in> dom (lookup_doc V w j)" using that(2) res(3) by (auto simp: matching_def)
    then have "doc_in j y" using Cons.prems(1) by auto
    moreover have "endTime i \<le> startTime j" using Cons.prems(2) j(1) by auto
    ultimately have "id_time x < id_time y" by (auto simp: doc_in_def Contains_def)
    with \<open>doc_in i x\<close> \<open>doc_in j y\<close> show ?thesis by (auto simp: doc_in_def intro: id_time_key)
  qed
  have "search_loop env w q (i # is) = Some (map (\<lambda>(i, x). snd (the (lookup_doc V w i x))) (map (Pair i) ids @ res))"
    using ids(1) f res(1) by (simp add: comp_def)
  moreover have "sorted_wrt (\<lambda>x y. id_key x < id_key y) (map snd (map (Pair i) ids @ res))"
    using ids(2) res(2) cross by (auto simp: sorted_wrt_append comp_def)
  ultimately show ?case
    using ids(3) res(3,4) all by (intro exI [of _ "map (Pair i) ids @ res"]) auto
qed

lemma Engine_Search_ok:
  assumes "bleve_works (bleve env) V" and "eng_ok V w e"
  shows "\<exists>ids. Engine_Search env w e q = Some (map (\<lambda>x. snd (the (eng_docs V w e x))) ids) \<and>
    sorted_wrt (\<lambda>x y. id_key x < id_key y) ids \<and>
    (\<forall>x\<in>set ids. \<exists>d b. eng_docs V w e x = Some (d, b) \<and> matches V q d \<and> valid_id x) \<and>
    ((\<forall>i\<in>set (indexes e). card (matching V w i q) \<le> maxSearchHitSize) \<longrightarrow>
       (\<forall>x d b. eng_docs V w e x = Some (d, b) \<and> matches V q d \<longrightarrow> x \<in> set ids))"
proof -
  have sh: "eng_shape e" using assms(2) by (simp add: eng_ok_def)
  have docs: "\<forall>i\<in>set (rev (indexes e)). idx_ok V w i \<and> (\<forall>x\<in>dom (lookup_doc V w i). doc_in i x)"
    using assms(2) by (simp add: eng_ok_def)
  have "sorted_wrt (\<lambda>i j. startTime j < startTime i) (indexes e)" using sh by (simp add: eng_shape_def)
  then have "sorted_wrt (\<lambda>j i. endTime i \<le> startTime j) (indexes e)"
    using windows_follow [OF sh] by (rule sorted_wrt_mono_rel [rotated])
  then have "sorted_wrt (\<lambda>i j. endTime i \<le> startTime j) (rev (indexes e))" by (simp add: sorted_wrt_rev)
  from search_loop_ok [OF assms(1) docs this, of q] obtain res where
    res: "Engine_Search env w e q = Some (map (\<lambda>(i, x). snd (the (lookup_doc V w i x))) res)"
      "sorted_wrt (\<lambda>x y. id_key x < id_key y) (map snd res)"
      "\<forall>(i, x)\<in>set res. i \<in> set (indexes e) \<and> x \<in> matching V w i q"
      "(\<forall>i\<in>set (indexes e). card (matching V w i q) \<le> maxSearchHitSize) \<longrightarrow>
       (\<forall>i\<in>set (indexes e). \<forall>x\<in>matching V w i q. (i, x) \<in> set res)" by (auto simp: Engine_Search_def)
  have at: "eng_docs V w e x = lookup_doc V w i x" "valid_id x" if "(i, x) \<in> set res" for i x
  proof -
    have i: "i \<in> set (indexes e)" and x: "x \<in> dom (lookup_doc V w i)"
      using that res(3) by (auto simp: matching_def)
    then have "doc_in i x" using docs by auto
    then show "eng_docs V w e x = lookup_doc V w i x" "valid_id x"
      using eng_docs_at [OF sh i] by (auto simp: doc_in_def)
  qed
  have "map (\<lambda>(i, x). snd (the (lookup_doc V w i x))) res = map (\<lambda>x. snd (the (eng_docs V w e x))) (map snd res)"
    using at(1) by auto
  moreover have "\<forall>x\<in>set (map snd res). \<exists>d b. eng_docs V w e x = Some (d, b) \<and> matches V q d \<and> valid_id x"
    using res(3) at by (auto simp: matching_def)
  moreover have "x \<in> set (map snd res)"
    if "\<forall>i\<in>set (indexes e). card (matching V w i q) \<le> maxSearchHitSize"
      "eng_docs V w e x = Some (d, b)" "matches V q d" for x d b
  proof -
    from that(2) obtain i where i: "indexForReferenceTime e (id_time x) = Some i" "lookup_doc V w i x = Some (d, b)"
      by (auto simp: eng_docs_def split: option.splits)
    then have "i \<in> set (indexes e)" "x \<in> matching V w i q"
      using indexFor_iff [OF sh] that(3) by (auto simp: matching_def)
    with res(4) that(1) show ?thesis by force
  qed
  ultimately show ?thesis using res(1,2) by (intro exI [of _ "map snd res"]) auto
qed

end
