(* ===== verification/Engine_Service.thy ===== *)
theory Engine_Service
  imports Engine
begin

text \<open>
  The engine as a service: retention of old indexes, totals, and the properties of \<open>Engine\<close> that its
  clients (the batcher and the query servers) rely on.
\<close>

section \<open>Retention\<close>

lemma close_shards_ok:
  assumes "\<forall>s\<in>set ss. \<exists>p. sh_b s = Some p \<and> stores w p \<noteq> None \<and> prefix P p"
  shows "\<exists>w' r. close_shards env w ss = Some (w', r) \<and> nodes w' = nodes w \<and>
    (\<forall>q. \<not> prefix P q \<longrightarrow> stores w' q = stores w q)"
  using assms
proof (induction ss arbitrary: w)
  case (Cons s ss)
  then obtain p b where p: "sh_b s = Some p" "stores w p = Some b" "prefix P p" by auto
  obtain b' r where b': "bl_Close (bleve env) b = (b', r)" by fastforce
  let ?w = "w\<lparr>stores := (stores w)(p \<mapsto> b')\<rparr>"
  have 1: "Shard_Close env w s = Some (?w, map_option BleveError r)"
    using p b' by (simp add: Shard_Close_def)
  have "stores ?w q \<noteq> None" if "stores w q \<noteq> None" for q using that by simp
  then have "\<forall>s\<in>set ss. \<exists>p. sh_b s = Some p \<and> stores ?w p \<noteq> None \<and> prefix P p"
    using Cons.prems by (meson list.set_intros(2))
  from Cons.IH [OF this] obtain w' r' where "close_shards env ?w ss = Some (w', r')" "nodes w' = nodes ?w"
    "\<forall>q. \<not> prefix P q \<longrightarrow> stores w' q = stores ?w q" by blast
  with 1 p(3) show ?case by (cases r) auto
qed simp

lemma DeleteIndex_ok:
  assumes "no_faults env" and "live w i"
  shows "\<exists>w'. DeleteIndex env w i = Some (w', None) \<and>
    nodes w' = filter (\<lambda>(q, _). \<not> prefix (ipath i) q) (nodes w) \<and>
    (\<forall>q. stores w' q = (if prefix (ipath i) q then None else stores w q))"
proof -
  have "\<forall>s\<in>set (Shards i). \<exists>p. sh_b s = Some p \<and> stores w p \<noteq> None \<and> prefix (ipath i) p"
    using assms(2) by (auto simp: live_def idx_shape_def in_set_conv_nth)
  from close_shards_ok [OF this, of env] obtain w1 r where "Index_Close env w i = Some (w1, r)" "nodes w1 = nodes w"
    "\<forall>q. \<not> prefix (ipath i) q \<longrightarrow> stores w1 q = stores w q" by (auto simp: Index_Close_def)
  then show ?thesis using assms(1) by (auto simp: DeleteIndex_def os_RemoveAll_def no_faults_def)
qed

definition expired_of :: "duration \<Rightarrow> (gtime \<times> Index) list \<Rightarrow> Index list" where
  "expired_of r tis = map snd (filter (\<lambda>(t, i). Expired i t r) tis)"

definition kept_of :: "duration \<Rightarrow> (gtime \<times> Index) list \<Rightarrow> Index list" where
  "kept_of r tis = map snd (filter (\<lambda>(t, i). \<not> Expired i t r) tis)"

definition below :: "Index list \<Rightarrow> path \<Rightarrow> bool" where
  "below is q \<longleftrightarrow> (\<exists>i\<in>set is. prefix (ipath i) q)"

lemma retain_ok:
  assumes "no_faults env" and "\<forall>(t, i)\<in>set tis. live w i" and "distinct (map snd tis)"
    and "\<forall>i\<in>snd ` set tis. \<forall>j\<in>snd ` set tis. \<forall>q. prefix (ipath i) q \<and> prefix (ipath j) q \<longrightarrow> i = j"
  shows "\<exists>w'. retain env w r tis = Some (w', kept_of r tis) \<and>
    nodes w' = filter (\<lambda>(q, _). \<not> below (expired_of r tis) q) (nodes w) \<and>
    (\<forall>q. stores w' q = (if below (expired_of r tis) q then None else stores w q))"
  using assms(2-4)
proof (induction tis arbitrary: w)
  case Nil
  then show ?case by (simp add: kept_of_def below_def expired_of_def case_prod_unfold)
next
  case (Cons x tis)
  obtain t i where x: "x = (t, i)" by (cases x)
  have d: "distinct (map snd tis)" using Cons.prems(2) by simp
  have uq: "\<forall>i\<in>snd ` set tis. \<forall>j\<in>snd ` set tis. \<forall>q. prefix (ipath i) q \<and> prefix (ipath j) q \<longrightarrow> i = j"
    using Cons.prems(3) unfolding list.set image_insert by (meson insertI2)
  show ?case
  proof (cases "Expired i t r")
    case False
    have "\<forall>(u, j)\<in>set tis. live w j" using Cons.prems(1) unfolding list.set by (meson insertI2)
    from Cons.IH [OF this d uq] obtain w' where "retain env w r tis = Some (w', kept_of r tis)"
      "nodes w' = filter (\<lambda>(q, _). \<not> below (expired_of r tis) q) (nodes w)"
      "\<forall>q. stores w' q = (if below (expired_of r tis) q then None else stores w q)" by blast
    with False x show ?thesis by (simp add: kept_of_def expired_of_def)
  next
    case True
    have "live w i" using Cons.prems(1) x by auto
    from DeleteIndex_ok [OF assms(1) this] obtain w1 where w1: "DeleteIndex env w i = Some (w1, None)"
      "nodes w1 = filter (\<lambda>(q, _). \<not> prefix (ipath i) q) (nodes w)"
      "\<forall>q. stores w1 q = (if prefix (ipath i) q then None else stores w q)" by blast
    have "live w1 j" if "(u, j) \<in> set tis" for u j
    proof -
      have "i \<notin> snd ` set tis" using Cons.prems(2) x by simp
      then have j: "live w j" "j \<noteq> i"
        using bspec [OF Cons.prems(1), of "(u, j)"] that by (simp, metis image_eqI snd_conv)
      have "\<not> prefix (ipath i) (shard_path j k)" if k: "k < length (Shards j)" for k
      proof
        assume "prefix (ipath i) (shard_path j k)"
        moreover have "prefix (ipath j) (shard_path j k)"
          using j(1) k idx_shapeD(2) by (auto simp: live_def)
        ultimately show False using Cons.prems(3) x j(2) \<open>(u, j) \<in> set tis\<close> by force
      qed
      with j(1) w1(3) show ?thesis by (auto simp: live_def)
    qed
    then have "\<forall>(u, j)\<in>set tis. live w1 j" by blast
    from Cons.IH [OF this d uq] obtain w' where w': "retain env w1 r tis = Some (w', kept_of r tis)"
      "nodes w' = filter (\<lambda>(q, _). \<not> below (expired_of r tis) q) (nodes w1)"
      "\<forall>q. stores w' q = (if below (expired_of r tis) q then None else stores w1 q)" by blast
    have b: "below (expired_of r (x # tis)) q \<longleftrightarrow> prefix (ipath i) q \<or> below (expired_of r tis) q" for q
      using True x by (simp add: below_def expired_of_def)
    have "nodes w' = filter (\<lambda>(q, _). \<not> below (expired_of r (x # tis)) q) (nodes w)"
      unfolding w'(2) w1(2) filter_filter b by (rule filter_cong) auto
    with True x w1 w' b show ?thesis by (auto simp: kept_of_def)
  qed
qed

lemma map_of_filter_key:
  "map_of (filter (\<lambda>(q, _). P q) ns) q = (if P q then map_of ns q else None)"
  by (induction ns) auto

lemma files_retained:
  assumes "eng_files w e" and "nodes w' = filter (\<lambda>(q, _). \<not> below ex q) (nodes w)" and "set ke \<union> set ex = set (indexes e)"
  shows "eng_files w' (e\<lparr>indexes := ke\<rparr>)"
proof -
  have m: "map_of (nodes w') q = (if below ex q then None else map_of (nodes w) q)" for q
    unfolding assms(2) using map_of_filter_key [of "\<lambda>q. \<not> below ex q" "nodes w" q] by simp
  have "distinct (map fst (nodes w'))" unfolding assms(2) using assms(1) by (intro distinct_map_filter) (simp add: eng_files_def)
  moreover have "\<exists>i\<in>set ke. prefix (ipath i) q" if q: "strict_prefix (epath e) q" "map_of (nodes w') q \<noteq> None" for q
  proof -
    have nb: "\<not> below ex q" "map_of (nodes w) q \<noteq> None" using q(2) by (auto simp: m split: if_splits)
    then obtain i where "i \<in> set (indexes e)" "prefix (ipath i) q" using assms(1) q(1) unfolding eng_files_def by blast
    with nb(1) assms(3) show ?thesis unfolding below_def by blast
  qed
  ultimately show ?thesis using assms(1) by (auto simp: eng_files_def dirs_ok_def m split: if_splits)
qed

lemma enforceRetention_ok:
  assumes "no_faults env" and "eng_ok V w e" and "length now = length (indexes e)"
  shows "\<exists>w' e'. enforceRetention env w e now = Some (w', e') \<and> eng_ok V w' e' \<and>
    indexes e' = kept_of (RetentionPeriod e) (zip now (indexes e)) \<and>
    (\<forall>i\<in>set (indexes e'). lookup_doc V w' i = lookup_doc V w i) \<and>
    (\<forall>i\<in>set (expired_of (RetentionPeriod e) (zip now (indexes e))). path_free w' (ipath i)) \<and>
    (\<forall>i\<in>set (indexes e'). \<forall>q. prefix (ipath i) q \<longrightarrow> map_of (nodes w') q = map_of (nodes w) q) \<and>
    e' = e\<lparr>indexes := indexes e'\<rparr>"
proof -
  let ?tis = "zip now (indexes e)" and ?r = "RetentionPeriod e"
  let ?ex = "expired_of ?r ?tis" and ?ke = "kept_of ?r ?tis"
  have sh: "eng_shape e" using assms(2) by (simp add: eng_ok_def)
  have snd: "map snd ?tis = indexes e" using assms(3) by simp
  then have set: "snd ` set ?tis = set (indexes e)" by (metis list.set_map)
  note uniq = paths_unique [OF sh]
  note dist = distinct_indexes [OF sh]
  have "live w i" if "(t, i) \<in> set ?tis" for t i
    using assms(2) set_zip_rightD [OF that] idx_ok_live by (auto simp: eng_ok_def)
  then have lv: "\<forall>(t, i)\<in>set ?tis. live w i" by blast
  from retain_ok [OF assms(1) lv, of ?r] dist uniq obtain w' where
    w': "retain env w ?r ?tis = Some (w', ?ke)" "nodes w' = filter (\<lambda>(q, _). \<not> below ?ex q) (nodes w)"
      "\<forall>q. stores w' q = (if below ?ex q then None else stores w q)" unfolding snd set by blast
  let ?e = "e\<lparr>indexes := ?ke\<rparr>"
  have parts: "set ?ke \<union> set ?ex = set (indexes e)"
    unfolding set [symmetric] kept_of_def expired_of_def by force
  have disj: "i \<notin> set ?ex" if "i \<in> set ?ke" for i
    using that dist assms(3) by (auto simp: kept_of_def expired_of_def in_set_zip nth_eq_iff_index_eq)
  have out: "\<not> below ?ex q" if "i \<in> set ?ke" "prefix (ipath i) q" for i q
    using uniq disj [OF that(1)] parts that unfolding below_def by blast
  have fr: "idx_ok V w' i" "lookup_doc V w' i = lookup_doc V w i" if i: "i \<in> set ?ke" for i
  proof -
    have "idx_ok V w i" using assms(2) parts i by (auto simp: eng_ok_def)
    moreover have "\<forall>q. prefix (ipath i) q \<longrightarrow> stores w' q = stores w q" using out [OF i] w'(3) by simp
    ultimately show "idx_ok V w' i" "lookup_doc V w' i = lookup_doc V w i" using index_frame by blast+
  qed
  have "sorted_wrt (\<lambda>i j. startTime j < startTime i) ?ke"
  proof -
    have "sorted_wrt (\<lambda>i j. startTime j < startTime i) (map snd ?tis)" using sh unfolding snd eng_shape_def by blast
    then show ?thesis unfolding kept_of_def sorted_wrt_map by (rule sorted_wrt_filter)
  qed
  then have "eng_shape ?e" using sh parts by (auto simp: eng_shape_def window_ok_def)
  moreover have "eng_files w' ?e" using files_retained [OF _ w'(2) parts] assms(2) by (simp add: eng_ok_def)
  moreover have "\<forall>i\<in>set ?ke. \<forall>x\<in>dom (lookup_doc V w i). doc_in i x"
    using assms(2) parts unfolding eng_ok_def by blast
  ultimately have "eng_ok V w' ?e" using fr by (simp add: eng_ok_def)
  moreover have "path_free w' (ipath i)" if "i \<in> set ?ex" for i
    unfolding path_free_def w'(2) map_of_filter_key [of "\<lambda>q. \<not> below ?ex q"] using that by (auto simp: below_def)
  moreover have "map_of (nodes w') q = map_of (nodes w) q" if "i \<in> set ?ke" "prefix (ipath i) q" for i q
    unfolding w'(2) map_of_filter_key [of "\<lambda>q. \<not> below ?ex q"] using out [OF that] by simp
  ultimately show ?thesis
    using w'(1) fr(2) by (intro exI [of _ w'] exI [of _ ?e]) (simp add: enforceRetention_def)
qed

lemma those_in: "those (map f xs) = Some ys \<Longrightarrow> x \<in> set xs \<Longrightarrow> \<exists>y\<in>set ys. f x = Some y"
  by (induction xs arbitrary: ys) (auto split: option.splits)

section \<open>Totals\<close>

lemma total_of_ok:
  assumes "bleve_works (bleve env) V" and "\<forall>i\<in>set is. idx_ok V w i"
  shows "total_of env w is acc = Some (Inr (acc + of_nat (sum_list (map (\<lambda>i. card (dom (lookup_doc V w i))) is))))"
  using assms(2)
proof (induction "is" arbitrary: acc)
  case (Cons i "is")
  with Index_Total_ok [OF assms(1), of w i] show ?case by (simp add: add.assoc)
qed simp

lemma dom_eng_docs:
  assumes "eng_ok V w e"
  shows "dom (eng_docs V w e) = (\<Union>i\<in>set (indexes e). dom (lookup_doc V w i))"
proof (rule set_eqI)
  have sh: "eng_shape e" and di: "\<And>i x. i \<in> set (indexes e) \<Longrightarrow> x \<in> dom (lookup_doc V w i) \<Longrightarrow> doc_in i x"
    using assms unfolding eng_ok_def by blast+
  fix x
  show "x \<in> dom (eng_docs V w e) \<longleftrightarrow> x \<in> (\<Union>i\<in>set (indexes e). dom (lookup_doc V w i))"
  proof
    assume "x \<in> dom (eng_docs V w e)"
    then obtain i where "indexForReferenceTime e (id_time x) = Some i" "lookup_doc V w i x \<noteq> None"
      by (auto simp: eng_docs_def split: option.splits)
    then show "x \<in> (\<Union>i\<in>set (indexes e). dom (lookup_doc V w i))" using indexFor_iff [OF sh] by blast
  next
    assume "x \<in> (\<Union>i\<in>set (indexes e). dom (lookup_doc V w i))"
    then obtain i where i: "i \<in> set (indexes e)" "x \<in> dom (lookup_doc V w i)" by blast
    with di have "Contains i (id_time x)" by (auto simp: doc_in_def)
    with eng_docs_at [OF sh i(1)] i(2) show "x \<in> dom (eng_docs V w e)" by (metis domD domI)
  qed
qed

lemma card_matching_le:
  assumes "bleve_works (bleve env) V" and "eng_ok V w e" and "i \<in> set (indexes e)"
  shows "card (matching V w i q) \<le> card (dom (eng_docs V w e))"
proof (rule card_mono)
  show "finite (dom (eng_docs V w e))"
    unfolding dom_eng_docs [OF assms(2)] using finite_matching [OF assms(1)] assms(2) by (auto simp: eng_ok_def)
  show "matching V w i q \<subseteq> dom (eng_docs V w e)"
    unfolding dom_eng_docs [OF assms(2)] using assms(3) by (auto simp: matching_def)
qed

lemma Engine_Total_ok:
  assumes "bleve_works (bleve env) V" and "eng_ok V w e"
  shows "Engine_Total env w e = Some (Inr (of_nat (card (dom (eng_docs V w e)))))"
proof -
  have sh: "eng_shape e" and ok: "\<And>i. i \<in> set (indexes e) \<Longrightarrow> idx_ok V w i"
    and di: "\<And>i x. i \<in> set (indexes e) \<Longrightarrow> x \<in> dom (lookup_doc V w i) \<Longrightarrow> doc_in i x"
    using assms(2) unfolding eng_ok_def by blast+
  note dist = distinct_indexes [OF sh]
  note U = dom_eng_docs [OF assms(2)]
  have disj: "dom (lookup_doc V w i) \<inter> dom (lookup_doc V w j) = {}"
    if "i \<in> set (indexes e)" "j \<in> set (indexes e)" "i \<noteq> j" for i j
    using di that window_unique [OF sh that(1,2)] unfolding doc_in_def by blast
  have "card (dom (eng_docs V w e)) = (\<Sum>i\<in>set (indexes e). card (dom (lookup_doc V w i)))"
    unfolding U using finite_matching [OF assms(1) ok] disj by (intro card_UN_disjoint) auto
  then show ?thesis
    using total_of_ok [OF assms(1), of "indexes e" w 0] ok dist
    by (simp add: Engine_Total_def sum_list_distinct_conv_sum_set)
qed

text \<open>Documents with different IDs that an engine holds are found.\<close>

lemma search_finds:
  assumes "bleve_works (bleve env) V" and ok: "eng_ok V w' e'" and docs: "eng_docs V w' e' = M ++ doc_entry ds"
    and "\<forall>ev\<in>set evs. event_ok ev" and "those (map as_document evs) = Some ds" and "distinct (map doc_id ds)"
    and "\<forall>i\<in>set (indexes e'). card (matching V w' i q) \<le> maxSearchHitSize"
  shows "\<exists>out. Engine_Search env w' e' q = Some out \<and>
    (\<forall>ev\<in>set evs. matches V q \<lparr>Message = Text ev\<rparr> \<longrightarrow> Text ev \<in> set out)"
proof -
  from Engine_Search_ok [OF assms(1) ok, of q] assms(7) obtain ids where
    i: "Engine_Search env w' e' q = Some (map (\<lambda>x. snd (the (eng_docs V w' e' x))) ids)"
      "\<And>x d b. eng_docs V w' e' x = Some (d, b) \<Longrightarrow> matches V q d \<Longrightarrow> x \<in> set ids" by blast
  have "Text ev \<in> set (map (\<lambda>x. snd (the (eng_docs V w' e' x))) ids)"
    if ev: "ev \<in> set evs" and m: "matches V q \<lparr>Message = Text ev\<rparr>" for ev
  proof -
    from assms(4) ev obtain ev1 t where "ReferenceTime ev = Some (ev1, t)" "in_range t" by (auto simp: event_ok_def)
    from as_document_ok [OF this] obtain d where d: "as_document ev = Some d" "data d = \<lparr>Message = Text ev\<rparr>"
      "source d = Text ev" by blast
    have "d \<in> set ds" using those_in [OF assms(5)] ev d(1) by fastforce
    then have "doc_map ds (doc_id d) = Some d" using assms(6) by (intro doc_map_distinct)
    then have "eng_docs V w' e' (doc_id d) = Some (\<lparr>Message = Text ev\<rparr>, Text ev)"
      using d by (simp add: docs doc_entry_def map_add_def)
    with i(2) [OF this m] show ?thesis by (force simp: image_iff)
  qed
  with i(1) show ?thesis by blast
qed

section \<open>Properties\<close>

definition mem_start :: "mem_index world" where
  "mem_start = \<lparr>nodes = [], stores = Map.empty\<rparr>"

lemma new_engine_ok: "eng_ok mem_view mem_start (NewEngine [''data''])"
  by (simp add: eng_ok_def eng_shape_def eng_files_def NewEngine_def mem_start_def dirs_ok_def
      ns_per_min_def ns_per_sec_def)

lemma few_matches:
  assumes "eng_ok mem_view w' e'" and "eng_docs mem_view w' e' = eng_docs mem_view mem_start (NewEngine [''data'']) ++ doc_entry ds"
    and "length ds \<le> 2"
  shows "\<forall>i\<in>set (indexes e'). card (matching mem_view w' i q) \<le> maxSearchHitSize"
proof -
  have "eng_docs mem_view mem_start (NewEngine [''data'']) = Map.empty"
    by (simp add: eng_docs_def NewEngine_def indexForReferenceTime_def fun_eq_iff)
  moreover have "dom (doc_entry ds) \<subseteq> doc_id ` set ds"
    using doc_map_None [of ds] by (auto simp: doc_entry_def dom_def)
  ultimately have "dom (eng_docs mem_view w' e') \<subseteq> set (map doc_id ds)" unfolding assms(2) by simp
  then have "card (dom (eng_docs mem_view w' e')) \<le> card (set (map doc_id ds))" by (intro card_mono) simp_all
  also have "\<dots> \<le> 2" using card_length [of "map doc_id ds"] assms(3) by simp
  finally show ?thesis using card_matching_le [OF mem_env_works assms(1), of _ q] by fastforce
qed

definition an_event :: "int \<Rightarrow> bytes \<Rightarrow> Event" where
  "an_event secs s = NewEvent\<lparr>Text := s, ReceptionTime := unix_epoch + secs * ns_per_sec\<rparr>"

lemma an_event_ok: "0 \<le> secs \<Longrightarrow> secs < 9000000000 \<Longrightarrow> event_ok (an_event secs s)"
  by (simp add: event_ok_def an_event_def NewEvent_def ReferenceTime_def IsZero_def in_range_def ns_per_sec_def)

text \<open>
  C4. Indexing refines adding to a map. Seen from outside, the engine holds a map from document IDs
  to messages. For an engine in order, a file system without faults and a search library that
  works, \<open>Engine.Index\<close> on any batch of events of 1970 to 2262 returns without an error; it creates
  the indexes the batch needs and keeps the engine in order; the new map is the old one overridden
  by the documents of the events; and \<open>Total\<close> is the size of the map.
\<close>

theorem engine_index_refines:
  assumes "no_faults env" and "bleve_works (bleve env) V" and "eng_ok V w e" and "\<forall>ev\<in>set evs. event_ok ev"
  shows "\<exists>w' e' ds. Engine_Index env w e evs = Some (w', e', None) \<and> eng_ok V w' e' \<and>
    those (map as_document evs) = Some ds \<and> eng_docs V w' e' = eng_docs V w e ++ doc_entry ds \<and>
    Engine_Total env w' e' = Some (Inr (of_nat (card (dom (eng_docs V w e) \<union> doc_id ` set ds))))"
proof -
  from Engine_Index_ok [OF assms] obtain w' e' ds where
    i: "Engine_Index env w e evs = Some (w', e', None)" "those (map as_document evs) = Some ds"
      "eng_ok V w' e'" "eng_docs V w' e' = eng_docs V w e ++ doc_entry ds" by blast
  have "dom (doc_entry ds) = doc_id ` set ds"
    using doc_map_None [of ds] by (auto simp: doc_entry_def dom_def)
  then have "dom (eng_docs V w' e') = dom (eng_docs V w e) \<union> doc_id ` set ds"
    unfolding i(4) dom_map_add by blast
  with Engine_Total_ok [OF assms(2) i(3)] i show ?thesis by auto
qed

theorem engine_index_refines_witness:
  "\<exists>w' e' ds. Engine_Index mem_env mem_start (NewEngine [''data'']) [an_event 5 ''GET /'', an_event 100000 ''PUT /''] =
      Some (w', e', None) \<and> eng_ok mem_view w' e' \<and>
    those (map as_document [an_event 5 ''GET /'', an_event 100000 ''PUT /'']) = Some ds \<and>
    eng_docs mem_view w' e' = eng_docs mem_view mem_start (NewEngine [''data'']) ++ doc_entry ds"
  using engine_index_refines [OF mem_no_faults mem_env_works new_engine_ok,
      of "[an_event 5 ''GET /'', an_event 100000 ''PUT /'']"] an_event_ok by auto

text \<open>
  C5. Searching. \<open>Engine.Search\<close> delivers the sources of matching documents in strictly ascending
  order of their IDs, that is in the order of time, across all indexes; and it delivers every
  matching document when no index has more than \<open>maxSearchHitSize\<close> of them.
\<close>

theorem engine_search_ordered:
  assumes "bleve_works (bleve env) V" and "eng_ok V w e"
  shows "\<exists>ids. Engine_Search env w e q = Some (map (\<lambda>x. snd (the (eng_docs V w e x))) ids) \<and>
    sorted_wrt (\<lambda>x y. DocIDs_Less x y = Some True) ids \<and>
    (\<forall>x\<in>set ids. \<exists>d b. eng_docs V w e x = Some (d, b) \<and> matches V q d) \<and>
    ((\<forall>i\<in>set (indexes e). card (matching V w i q) \<le> maxSearchHitSize) \<longrightarrow>
       (\<forall>x d b. eng_docs V w e x = Some (d, b) \<and> matches V q d \<longrightarrow> x \<in> set ids))"
proof -
  from Engine_Search_ok [OF assms, of q] obtain ids where
    i: "Engine_Search env w e q = Some (map (\<lambda>x. snd (the (eng_docs V w e x))) ids)"
      "sorted_wrt (\<lambda>x y. id_key x < id_key y) ids"
      "\<forall>x\<in>set ids. \<exists>d b. eng_docs V w e x = Some (d, b) \<and> matches V q d \<and> valid_id x"
      "(\<forall>i\<in>set (indexes e). card (matching V w i q) \<le> maxSearchHitSize) \<longrightarrow>
       (\<forall>x d b. eng_docs V w e x = Some (d, b) \<and> matches V q d \<longrightarrow> x \<in> set ids)" by blast
  have "sorted_wrt (\<lambda>x y. DocIDs_Less x y = Some True) ids"
    using i(2) by (rule sorted_wrt_mono_rel [rotated]) (use i(3) id_less_key(1) in \<open>auto simp: id_less_def\<close>)
  with i show ?thesis by (intro exI [of _ ids]) auto
qed

theorem engine_search_ordered_witness:
  "\<exists>w' e' ids. Engine_Index mem_env mem_start (NewEngine [''data'']) [an_event 100000 ''GET b'', an_event 5 ''GET a''] =
      Some (w', e', None) \<and> Engine_Search mem_env w' e' ''GET'' =
     Some (map (\<lambda>x. snd (the (eng_docs mem_view w' e' x))) ids) \<and>
     sorted_wrt (\<lambda>x y. DocIDs_Less x y = Some True) ids"
proof -
  from Engine_Index_ok [OF mem_no_faults mem_env_works new_engine_ok,
      of "[an_event 100000 ''GET b'', an_event 5 ''GET a'']"] an_event_ok obtain w' e' where
    w: "Engine_Index mem_env mem_start (NewEngine [''data'']) [an_event 100000 ''GET b'', an_event 5 ''GET a''] =
      Some (w', e', None)" "eng_ok mem_view w' e'" by auto
  from engine_search_ordered [OF mem_env_works w(2), of "''GET''"] w(1) show ?thesis by blast
qed

text \<open>
  What is indexed is found. After a batch of events with different IDs is indexed in an engine
  in order, and as long as no index has more than \<open>maxSearchHitSize\<close> matches, a search delivers the
  text of every event of the batch that the query matches.
\<close>

theorem indexed_events_found:
  assumes "no_faults env" and "bleve_works (bleve env) V" and "eng_ok V w e" and "\<forall>ev\<in>set evs. event_ok ev"
    and "Engine_Index env w e evs = Some (w', e', None)"
    and "those (map as_document evs) = Some ds" and "distinct (map doc_id ds)"
    and "\<forall>i\<in>set (indexes e'). card (matching V w' i q) \<le> maxSearchHitSize"
  shows "\<exists>out. Engine_Search env w' e' q = Some out \<and>
    (\<forall>ev\<in>set evs. matches V q \<lparr>Message = Text ev\<rparr> \<longrightarrow> Text ev \<in> set out)"
  using Engine_Index_ok [OF assms(1-4)] assms(5,6) search_finds [OF assms(2) _ _ assms(4,6,7,8)] by auto

theorem indexed_events_found_witness:
  "\<exists>w' e' out. Engine_Index mem_env mem_start (NewEngine [''data'']) [an_event 5 ''GET a'', an_event 100000 ''PUT b''] =
      Some (w', e', None) \<and> Engine_Search mem_env w' e' ''GET'' = Some out \<and> ''GET a'' \<in> set out"
proof -
  let ?evs = "[an_event 5 ''GET a'', an_event 100000 ''PUT b'']"
  have oks: "\<forall>ev\<in>set ?evs. event_ok ev" using an_event_ok by simp
  from Engine_Index_ok [OF mem_no_faults mem_env_works new_engine_ok oks] obtain w' e' ds where
    w: "Engine_Index mem_env mem_start (NewEngine [''data'']) ?evs = Some (w', e', None)"
      "those (map as_document ?evs) = Some ds" "eng_ok mem_view w' e'"
      "eng_docs mem_view w' e' = eng_docs mem_view mem_start (NewEngine [''data'']) ++ doc_entry ds" by blast
  have ids: "map doc_id ds = [hex16 5000000000 @ hex16 0, hex16 100000000000000 @ hex16 0]"
    using w(2) by (auto simp: as_document_def ID_def an_event_def NewEvent_def ReferenceTime_def IsZero_def UnixNano_def ns_per_sec_def)
  have "id_words (hex16 5000000000 @ hex16 0) \<noteq> id_words (hex16 100000000000000 @ hex16 0)" by simp
  then have "hex16 5000000000 @ hex16 0 \<noteq> hex16 100000000000000 @ hex16 0" by metis
  with ids have dist: "distinct (map doc_id ds)" by simp
  have "length ds = 2" using arg_cong [OF ids, of length] by simp
  then have "\<forall>i\<in>set (indexes e'). card (matching mem_view w' i ''GET'') \<le> maxSearchHitSize"
    using few_matches [OF w(3,4)] by simp
  from indexed_events_found [OF mem_no_faults mem_env_works new_engine_ok oks w(1,2) dist this] w(1)
  show ?thesis by (auto simp: mem_view_def an_event_def)
qed

text \<open>
  C12. A created index contains the time it was created for. Whatever indexes the engine has (of any
  duration, overlapping or not), when none of them contains the reference time,
  \<open>createIndexForReferenceTime\<close> never fails its assertion, and if it creates an index, that index
  contains the time and is in the engine's list, with all the others.
\<close>

theorem created_index_contains:
  assumes "0 < IndexDuration e" and "indexForReferenceTime e t = None" and "0 \<le> NumShards e"
  shows "\<exists>w' e' r. createIndexForReferenceTime env w e t = Some (w', e', r) \<and>
    (\<forall>i. r = Inr i \<longrightarrow> Contains i t \<and> set (indexes e') = insert i (set (indexes e)))"
  using createIndex_no_assert [OF assms, of env w] createIndexForReferenceTime_contains [OF assms(1,2), of env w]
  by (cases "createIndexForReferenceTime env w e t") auto

theorem created_index_contains_witness:
  "\<exists>w' e' r. createIndexForReferenceTime mem_env mem_start (NewEngine [''data'']) 7 = Some (w', e', r) \<and>
    (\<forall>i. r = Inr i \<longrightarrow> Contains i 7 \<and> set (indexes e') = {i})"
  using created_index_contains [of "NewEngine [''data'']" 7 mem_env mem_start]
  by (simp add: NewEngine_def indexForReferenceTime_def ns_per_sec_def)

text \<open>
  Two indexes with one path. When the duration of indexes is changed between runs, the index that
  \<open>createIndex\<close> makes after an index \<open>a\<close> with the same start time starts where \<open>a\<close> ends; if another
  index \<open>b\<close> starts there, the new index has the start time of \<open>b\<close> and the path an index with that
  start time has, which is that of \<open>b\<close>: its files are those of \<open>b\<close>, and the end time of \<open>b\<close> on disk is
  overwritten.
\<close>

theorem created_index_collides:
  assumes "find (\<lambda>i. startTime i = Truncate t (IndexDuration e)) (indexes e) = Some a"
    and "startTime b = endTime a" and "ipath b = Join (epath e) (format_index_name (startTime b))"
    and "createIndexForReferenceTime env w e t = Some (w', e', Inr i)"
  shows "startTime i = startTime b \<and> ipath i = ipath b \<and>
    endTime i = Truncate t (IndexDuration e) + IndexDuration e"
proof -
  from assms(1,4) obtain w1 where
    "NewIndex env w (epath e) (endTime a) (Truncate t (IndexDuration e) + IndexDuration e) (NumShards e) = Some (w1, Inr i)"
    by (auto simp: createIndexForReferenceTime_def createIndex_def Let_def split: if_splits option.splits sum.splits prod.splits)
  then have "startTime i = endTime a" "endTime i = Truncate t (IndexDuration e) + IndexDuration e"
    "ipath i = Join (epath e) (format_index_name (endTime a))"
    by (auto simp: NewIndex_def Let_def split: if_splits option.splits sum.splits prod.splits)
  with assms(2,3) show ?thesis by simp
qed

definition hourly :: "int \<Rightarrow> Index" where
  "hourly n = one_shard [''data'', format_index_name (n * 3600 * ns_per_sec)] (n * 3600 * ns_per_sec) ((n + 1) * 3600 * ns_per_sec)"

theorem created_index_collides_witness:
  "\<exists>w' e' i. createIndexForReferenceTime mem_env mem_start ((NewEngine [''data''])\<lparr>indexes := [hourly 1, hourly 0]\<rparr>)
      (5 * 3600 * ns_per_sec) = Some (w', e', Inr i) \<and> ipath i = ipath (hourly 1) \<and> i \<noteq> hourly 1"
proof -
  let ?e = "(NewEngine [''data''])\<lparr>indexes := [hourly 1, hourly 0]\<rparr>" and ?t = "5 * 3600 * ns_per_sec"
  let ?p = "Join [''data''] (format_index_name (3600 * ns_per_sec))"
  have tr: "Truncate ?t (IndexDuration ?e) = 0" by (simp add: Truncate_def NewEngine_def ns_per_sec_def)
  have f: "find (\<lambda>i. startTime i = Truncate ?t (IndexDuration ?e)) (indexes ?e) = Some (hourly 0)"
    unfolding tr by (simp add: hourly_def one_shard_def ns_per_sec_def)
  have "dirs_ok (nodes mem_start) ?p" "distinct (map fst (nodes mem_start))" "path_free mem_start ?p"
    by (simp_all add: mem_start_def dirs_ok_def path_free_def)
  from NewIndex_ok [OF mem_no_faults mem_env_works this refl, of 16 "86400 * ns_per_sec"] obtain w' where
    "NewIndex mem_env mem_start [''data''] (3600 * ns_per_sec) (86400 * ns_per_sec) 16 =
      Some (w', Inr (index_at ?p (3600 * ns_per_sec) (86400 * ns_per_sec) 16))" by auto
  then have c: "createIndexForReferenceTime mem_env mem_start ?e ?t =
      Some (w', ?e\<lparr>indexes := sort_indexes (indexes ?e @ [index_at ?p (3600 * ns_per_sec) (86400 * ns_per_sec) 16])\<rparr>,
        Inr (index_at ?p (3600 * ns_per_sec) (86400 * ns_per_sec) 16))"
    unfolding createIndexForReferenceTime_def createIndex_def Let_def f unfolding tr
    by (simp add: NewEngine_def hourly_def one_shard_def ns_per_sec_def)
  have "startTime (hourly 1) = endTime (hourly 0)" "ipath (hourly 1) = Join (epath ?e) (format_index_name (startTime (hourly 1)))"
    by (simp_all add: hourly_def one_shard_def Join_def NewEngine_def)
  from created_index_collides [OF f this c]
  have "ipath (index_at ?p (3600 * ns_per_sec) (86400 * ns_per_sec) 16) = ipath (hourly 1)" by blast
  moreover have "endTime (index_at ?p (3600 * ns_per_sec) (86400 * ns_per_sec) 16) \<noteq> endTime (hourly 1)"
    by (simp add: index_at_def hourly_def one_shard_def ns_per_sec_def)
  ultimately show ?thesis using c by metis
qed

text \<open>
  C8. Retention. One run of retention enforcement (without faults of the file system) on an engine in
  order drops exactly the indexes whose end time, plus the retention period, lies before the time of
  the check, and keeps the others in their order with all their documents; of a dropped index
  nothing is left on disk, and the engine stays in order.
\<close>

theorem retention_exact:
  assumes "no_faults env" and "eng_ok V w e" and "length now = length (indexes e)"
  shows "\<exists>w' e'. enforceRetention env w e now = Some (w', e') \<and> eng_ok V w' e' \<and>
    indexes e' = map snd (filter (\<lambda>(t, i). t \<le> endTime i + RetentionPeriod e) (zip now (indexes e))) \<and>
    (\<forall>i\<in>set (indexes e'). lookup_doc V w' i = lookup_doc V w i) \<and>
    (\<forall>(t, i)\<in>set (zip now (indexes e)). endTime i + RetentionPeriod e < t \<longrightarrow> path_free w' (ipath i))"
proof -
  from enforceRetention_ok [OF assms] obtain w' e' where
    r: "enforceRetention env w e now = Some (w', e')" "eng_ok V w' e'"
      "indexes e' = kept_of (RetentionPeriod e) (zip now (indexes e))"
      "\<forall>i\<in>set (indexes e'). lookup_doc V w' i = lookup_doc V w i"
      "\<forall>i\<in>set (expired_of (RetentionPeriod e) (zip now (indexes e))). path_free w' (ipath i)" by blast
  have "kept_of (RetentionPeriod e) (zip now (indexes e)) =
      map snd (filter (\<lambda>(t, i). t \<le> endTime i + RetentionPeriod e) (zip now (indexes e)))"
    unfolding kept_of_def Expired_def by (rule arg_cong [where f = "map snd"], rule filter_cong) auto
  moreover have "path_free w' (ipath i)"
    if "(t, i) \<in> set (zip now (indexes e))" "endTime i + RetentionPeriod e < t" for t i
  proof -
    have "i \<in> set (expired_of (RetentionPeriod e) (zip now (indexes e)))"
      using that by (force simp: expired_of_def Expired_def)
    then show ?thesis using r(5) by blast
  qed
  ultimately show ?thesis using r(1-4) by (intro exI [of _ w'] exI [of _ e']) auto
qed

theorem retention_exact_witness:
  "\<exists>w1 e1 w' e'. Engine_Index mem_env mem_start (NewEngine [''data'']) [an_event 5 ''GET a''] = Some (w1, e1, None) \<and>
    enforceRetention mem_env w1 e1 (map (\<lambda>_. unix_epoch + 2 ^ 62) (indexes e1)) = Some (w', e') \<and> eng_ok mem_view w' e'"
proof -
  from Engine_Index_ok [OF mem_no_faults mem_env_works new_engine_ok, of "[an_event 5 ''GET a'']"] an_event_ok
  obtain w1 e1 where w: "Engine_Index mem_env mem_start (NewEngine [''data'']) [an_event 5 ''GET a''] = Some (w1, e1, None)"
    "eng_ok mem_view w1 e1" by auto
  from retention_exact [OF mem_no_faults w(2), of "map (\<lambda>_. unix_epoch + 2 ^ 62) (indexes e1)"] w(1)
  show ?thesis by auto
qed

end
