(* ===== verification/Search_Race.thy ===== *)
theory Search_Race
  imports Engine_Service
begin

text \<open>
  The goroutine of \<open>Engine.Search\<close>, turn by turn. \<open>Search\<close> returns, and with it releases the engine's lock, while the
  goroutine still goes through the list of indexes by position, so the list may change between two turns. Shows that the
  goroutine delivers what \<^const>\<open>Engine_Search\<close> says as long as it does not, that retention in between makes it
  panic, and that an index created in between makes it skip an index.
\<close>

section \<open>Model\<close>

text \<open>One turn of the loop at position \<open>i\<close>: what is sent, and whether the loop is left; \<^const>\<open>None\<close> is a panic.\<close>

definition search_turn :: "'b env \<Rightarrow> 'b world \<times> Engine \<Rightarrow> bytes \<Rightarrow> nat \<Rightarrow> (bytes list \<times> bool) option" where
  "search_turn env x q i =
     (case x of (w, e) \<Rightarrow>
        if length (indexes e) \<le> i then None
        else
          (case Index_Search env w (indexes e ! i) q of
             None \<Rightarrow> None
           | Some (Inl _) \<Rightarrow> Some ([], True)
           | Some (Inr ids) \<Rightarrow> map_option (\<lambda>xs. (xs, False)) (fetch env w (indexes e ! i) ids)))"

text \<open>
  The loop with \<open>n\<close> turns to go; \<open>at i\<close> is the engine, and the file system, at the turn for position \<open>i\<close>. The number of
  turns is the length of the list when the goroutine starts.
\<close>

fun search_turns :: "'b env \<Rightarrow> (nat \<Rightarrow> 'b world \<times> Engine) \<Rightarrow> bytes \<Rightarrow> nat \<Rightarrow> bytes list option" where
  "search_turns env at q 0 = Some []"
| "search_turns env at q (Suc i) =
     (case search_turn env (at i) q i of
        None \<Rightarrow> None
      | Some (xs, True) \<Rightarrow> Some xs
      | Some (xs, False) \<Rightarrow> map_option (\<lambda>ys. xs @ ys) (search_turns env at q i))"

section \<open>Properties\<close>

lemma search_turns_take:
  assumes "n \<le> length (indexes e)" and "\<forall>i<n. at i = (w, e)"
  shows "search_turns env at q n = search_loop env w q (rev (take n (indexes e)))"
  using assms
proof (induction n)
  case (Suc n)
  then have "rev (take (Suc n) (indexes e)) = (indexes e ! n) # rev (take n (indexes e))"
    by (simp add: take_Suc_conv_app_nth)
  with Suc show ?case
    by (auto simp: search_turn_def not_le Suc_le_lessD split: option.splits sum.splits bool.splits)
qed simp

text \<open>
  Searching turn by turn. If the engine does not change while the goroutine of a search runs, it delivers exactly the
  results of the search: an index per turn, the earliest first.
\<close>

theorem search_undisturbed:
  "search_turns env (\<lambda>_. (w, e)) q (length (indexes e)) = Engine_Search env w e q"
  using search_turns_take [of "length (indexes e)" e "\<lambda>_. (w, e)" w env q] by (simp add: Engine_Search_def)

text \<open>
  C33. Retention during a search makes the process panic. For an engine in order, if a run of retention enforcement that removes an index comes
  between the start of the goroutine and its first turn, the position is out of range.
\<close>

theorem search_panics_after_retention:
  assumes "no_faults env" and "eng_ok V w e" and "length now = length (indexes e)"
    and "\<exists>(t, i)\<in>set (zip now (indexes e)). Expired i t (RetentionPeriod e)"
  shows "\<exists>w' e'. enforceRetention env w e now = Some (w', e') \<and> search_turns env (\<lambda>_. (w', e')) q (length (indexes e)) = None"
proof -
  from enforceRetention_ok [OF assms(1-3)] obtain w' e' where r: "enforceRetention env w e now = Some (w', e')"
    "indexes e' = kept_of (RetentionPeriod e) (zip now (indexes e))" by blast
  obtain x where "x \<in> set (zip now (indexes e))" "\<not> (\<lambda>(t, i). \<not> Expired i t (RetentionPeriod e)) x" using assms(4) by auto
  then have "length (indexes e') < length (zip now (indexes e))"
    unfolding r(2) kept_of_def using length_filter_less by fastforce
  then have "length (indexes e') < length (indexes e)" using assms(3) by simp
  then obtain n where "length (indexes e) = Suc n" "length (indexes e') \<le> n" by (cases "length (indexes e)") auto
  then have "search_turns env (\<lambda>_. (w', e')) q (length (indexes e)) = None" by (simp add: search_turn_def)
  with r(1) show ?thesis by blast
qed

theorem search_panics_after_retention_witness:
  "\<exists>w e w' e'. Engine_Index mem_env mem_start (NewEngine [''data'']) [an_event 5 ''GET a''] = Some (w, e, None) \<and>
    enforceRetention mem_env w e (map (\<lambda>i. endTime i + RetentionPeriod e + 1) (indexes e)) = Some (w', e') \<and>
    search_turns mem_env (\<lambda>_. (w', e')) ''GET'' (length (indexes e)) = None"
proof -
  from Engine_Index_ok [OF mem_no_faults mem_env_works new_engine_ok, of "[an_event 5 ''GET a'']"] an_event_ok
  obtain w e ds where w: "Engine_Index mem_env mem_start (NewEngine [''data'']) [an_event 5 ''GET a''] = Some (w, e, None)"
    "eng_ok mem_view w e" "those (map as_document [an_event 5 ''GET a'']) = Some ds"
    "eng_docs mem_view w e = eng_docs mem_view mem_start (NewEngine [''data'']) ++ doc_entry ds" by auto
  let ?now = "map (\<lambda>i. endTime i + RetentionPeriod e + 1) (indexes e)"
  obtain d where "as_document (an_event 5 ''GET a'') = Some d" "ds = [d]" using w(3) by (auto split: option.splits)
  then have "eng_docs mem_view w e (doc_id d) \<noteq> None" unfolding w(4) by (simp add: doc_entry_def)
  then have "indexes e \<noteq> []" by (auto simp: eng_docs_def indexForReferenceTime_def)
  then obtain i "is" where i: "indexes e = i # is" by (cases "indexes e") auto
  have "(endTime i + RetentionPeriod e + 1, i) \<in> set (zip ?now (indexes e))" by (simp add: i)
  then have "\<exists>(t, i)\<in>set (zip ?now (indexes e)). Expired i t (RetentionPeriod e)" by (force simp: Expired_def)
  from search_panics_after_retention [OF mem_no_faults w(2) _ this, of "''GET''"] w(1) show ?thesis by auto
qed

text \<open>
  An index created during a search makes it skip one: when the new index, the latest in time, comes to the front of the
  list after the turn for position \<open>Suc n\<close>, the loop goes on with the indexes now at positions \<open>n\<close> to 0, so the index that was at
  \<open>n\<close> is not searched.
\<close>

theorem search_skips_index:
  assumes "Suc n < length (indexes e)" and "indexes e' = c # indexes e" and "\<forall>i\<le>n. at i = (w', e')"
  shows "search_turns env at q (Suc n) = search_loop env w' q (rev (c # take n (indexes e)))"
  using search_turns_take [of "Suc n" e' at w' env q] assms by simp

theorem search_skips_index_witness:
  "search_turns mem_env (\<lambda>_. (mem_start, (NewEngine [''data''])\<lparr>indexes := [hourly 2, hourly 1, hourly 0]\<rparr>)) q (Suc 0) =
    search_loop mem_env mem_start q [hourly 2]"
  using search_skips_index [of 0 "(NewEngine [''data''])\<lparr>indexes := [hourly 1, hourly 0]\<rparr>"
      "(NewEngine [''data''])\<lparr>indexes := [hourly 2, hourly 1, hourly 0]\<rparr>" "hourly 2"
      "\<lambda>_. (mem_start, (NewEngine [''data''])\<lparr>indexes := [hourly 2, hourly 1, hourly 0]\<rparr>)" mem_start mem_env q] by simp

end
