(* ===== verification/Go_Duration.thy ===== *)
theory Go_Duration
  imports Go_Time
begin

text \<open>
  \<open>time.ParseDuration\<close> of Go's standard library, which the daemon uses to read its retention period, and
  \<open>strconv.ParseInt\<close> with base 0, which its integer flags use. Shows which duration a sequence of
  numbers with units denotes, and that a duration that is returned fits in 64 bits.
\<close>

section \<open>ParseDuration\<close>

datatype duration_error = InvalidDuration | MissingUnit | UnknownUnit bytes

text \<open>\<open>leadingInt\<close>, with the tests for overflow of a 64-bit number.\<close>

fun leadingInt :: "int \<Rightarrow> bytes \<Rightarrow> (int \<times> bytes) option" where
  "leadingInt x [] = Some (x, [])"
| "leadingInt x (c # s) =
     (if \<not> is_digit c then Some (x, c # s)
      else if max_int div 10 < x then None
      else
        (let x' = x * 10 + int (digit_val c)
         in if max_int < x' then None else leadingInt x' s))"

definition unit_of :: "bytes \<Rightarrow> int option" where
  "unit_of = map_of
     [(''ns'', 1), (''us'', 1000), ([CHR 0xC2, CHR 0xB5, CHR ''s''], 1000), ([CHR 0xCE, CHR 0xBC, CHR ''s''], 1000),
      (''ms'', 1000000), (''s'', ns_per_sec), (''m'', 60 * ns_per_sec), (''h'', 3600 * ns_per_sec)]"

definition dot_or_digit :: "byte \<Rightarrow> bool" where
  "dot_or_digit c \<longleftrightarrow> c = CHR ''.'' \<or> is_digit c"

text \<open>
  One number with its unit. What a fraction adds is computed in floating point: \<open>frac ds u\<close> is the number of
  nanoseconds of the digits \<open>ds\<close> after the point, of the unit \<open>u\<close>.
\<close>

definition duration_term :: "(bytes \<Rightarrow> int \<Rightarrow> nat) \<Rightarrow> bytes \<Rightarrow> duration_error + int \<times> bytes" where
  "duration_term frac s =
     (case leadingInt 0 s of
        None \<Rightarrow> Inl InvalidDuration
      | Some (v, s1) \<Rightarrow>
          (let (ds, s2) =
             (case s1 of
                [] \<Rightarrow> ([], s1)
              | c # r \<Rightarrow> if c = CHR ''.'' then (takeWhile is_digit r, dropWhile is_digit r) else ([], s1));
             u = takeWhile (\<lambda>c. \<not> dot_or_digit c) s2; s3 = dropWhile (\<lambda>c. \<not> dot_or_digit c) s2
           in if s1 = s \<and> ds = [] then Inl InvalidDuration
              else if u = [] then Inl MissingUnit
              else
                (case unit_of u of
                   None \<Rightarrow> Inl (UnknownUnit u)
                 | Some k \<Rightarrow>
                     if max_int div k < v then Inl InvalidDuration
                     else
                       (let v' = v * k + (if \<exists>c\<in>set ds. c \<noteq> CHR ''0'' then int (frac ds k) else 0)
                        in if max_int < v' then Inl InvalidDuration else Inr (v', s3)))))"

lemma leadingInt_suffix: "leadingInt x s = Some (v, s') \<Longrightarrow> length s' \<le> length s"
  by (induction s arbitrary: x) (auto simp: Let_def split: if_splits intro: le_SucI)

lemma duration_term_shorter:
  assumes "duration_term frac s = Inr (v, s')"
  shows "length s' < length s"
proof -
  from assms obtain x s1 where s1: "leadingInt 0 s = Some (x, s1)" by (auto simp: duration_term_def split: option.splits)
  obtain ds s2 where s2: "(case s1 of [] \<Rightarrow> ([], s1)
      | c # r \<Rightarrow> if c = CHR ''.'' then (takeWhile is_digit r, dropWhile is_digit r) else ([], s1)) = (ds, s2)" by fastforce
  have "length s2 \<le> length s1"
    using s2 by (auto split: list.splits if_splits intro: le_SucI length_dropWhile_le)
  moreover have "takeWhile (\<lambda>c. \<not> dot_or_digit c) s2 \<noteq> []" "s' = dropWhile (\<lambda>c. \<not> dot_or_digit c) s2"
    using assms s2 by (auto simp: duration_term_def s1 Let_def split: if_splits option.splits)
  then have "length s' < length s2" by (cases s2) (auto simp: less_Suc_eq_le length_dropWhile_le split: if_splits)
  ultimately show ?thesis using leadingInt_suffix [OF s1] by simp
qed

text \<open>The loop, and the function.\<close>

function parse_terms :: "(bytes \<Rightarrow> int \<Rightarrow> nat) \<Rightarrow> int \<Rightarrow> bytes \<Rightarrow> duration_error + int" where
  "parse_terms frac d [] = Inr d"
| "parse_terms frac d (c # s) =
     (if \<not> dot_or_digit c then Inl InvalidDuration
      else
        (case duration_term frac (c # s) of
           Inl err \<Rightarrow> Inl err
         | Inr (v, s') \<Rightarrow> if max_int < d + v then Inl InvalidDuration else parse_terms frac (d + v) s'))"
  by pat_completeness auto
termination
  by (relation "measure (\<lambda>(_, _, s). length s)") (auto dest: duration_term_shorter)

definition ParseDuration :: "(bytes \<Rightarrow> int \<Rightarrow> nat) \<Rightarrow> bytes \<Rightarrow> duration_error + duration" where
  "ParseDuration frac s =
     (let (neg, s1) =
        (case s of
           [] \<Rightarrow> (False, s)
         | c # r \<Rightarrow> if c = CHR ''-'' then (True, r) else if c = CHR ''+'' then (False, r) else (False, s))
      in if s1 = ''0'' then Inr 0
         else if s1 = [] then Inl InvalidDuration
         else
           (case parse_terms frac 0 s1 of
              Inl err \<Rightarrow> Inl err
            | Inr d \<Rightarrow> Inr (if neg then - d else d)))"

section \<open>What a duration denotes\<close>

lemma leadingInt_digits:
  assumes "list_all is_digit ds" and "rest = [] \<or> \<not> is_digit (hd rest)" and "0 \<le> x" and "x \<le> max_int"
  shows "leadingInt x (ds @ rest) =
    (if x * 10 ^ length ds + int (dec_val ds) \<le> max_int then Some (x * 10 ^ length ds + int (dec_val ds), rest) else None)"
  using assms(1,3,4)
proof (induction ds arbitrary: x)
  case Nil
  with assms(2) show ?case by (cases rest) auto
next
  case (Cons c ds)
  let ?x = "x * 10 + int (digit_val c)"
  have v: "x * 10 ^ length (c # ds) + int (dec_val (c # ds)) = ?x * 10 ^ length ds + int (dec_val ds)"
    by (simp add: dec_val_Cons algebra_simps)
  have big: "?x \<le> ?x * 10 ^ length ds + int (dec_val ds)"
  proof -
    have "?x * 1 \<le> ?x * 10 ^ length ds" using Cons.prems(2) by (intro mult_left_mono) simp_all
    then show ?thesis by simp
  qed
  have "max_int < ?x" if "max_int div 10 < x" using that by (simp add: max_int_def)
  with Cons big show ?case unfolding v by (auto simp: Let_def)
qed

definition term_ns :: "nat \<times> bytes \<Rightarrow> int" where
  "term_ns = (\<lambda>(n, u). int n * the (unit_of u))"

definition print_term :: "nat \<times> bytes \<Rightarrow> bytes" where
  "print_term = (\<lambda>(n, u). itoa n @ u)"

text \<open>The next number starts with a digit, and no unit has one.\<close>

lemma unit_shape: "unit_of u = Some k \<Longrightarrow> u \<noteq> [] \<and> list_all (\<lambda>c. \<not> dot_or_digit c) u \<and> 0 < k"
  by (auto simp: unit_of_def dot_or_digit_def byte_class ns_per_sec_def split: if_splits)

lemma printed_head:
  assumes "s = [] \<or> s = print_term t @ r"
  shows "s = [] \<or> dot_or_digit (hd s)"
proof (cases "itoa (fst t)")
  case (Cons c cs)
  then have "is_digit c" using itoa_digits [of "fst t"] by simp
  with assms Cons show ?thesis by (auto simp: print_term_def dot_or_digit_def split: prod.splits)
qed simp

lemma duration_term_printed:
  assumes "unit_of u = Some k" and "rest = [] \<or> dot_or_digit (hd rest)"
  shows "duration_term frac (print_term (n, u) @ rest) =
    (if int n * k \<le> max_int then Inr (int n * k, rest) else Inl InvalidDuration)"
proof -
  have u: "u \<noteq> []" "list_all (\<lambda>c. \<not> dot_or_digit c) u" "0 < k" using unit_shape [OF assms(1)] by blast+
  obtain c cs where c: "u = c # cs" "c \<noteq> CHR ''.''" "\<not> is_digit c" using u(1,2) by (cases u) (auto simp: dot_or_digit_def)
  have li: "leadingInt 0 (itoa n @ u @ rest) = (if int n \<le> max_int then Some (int n, u @ rest) else None)"
    using leadingInt_digits [OF itoa_digits, of "u @ rest" 0 n] c by (simp add: max_int_def)
  have "takeWhile (\<lambda>c. \<not> dot_or_digit c) (u @ rest) = u" "dropWhile (\<lambda>c. \<not> dot_or_digit c) (u @ rest) = rest"
    using u(2) assms(2) by (cases rest; simp add: list_all_iff takeWhile_append dropWhile_append)+
  moreover have "int n \<le> int n * k" using mult_left_mono [of 1 k "int n"] u(3) by simp
  moreover have "max_int div k < int n \<longleftrightarrow> max_int < int n * k" using u(3) by (rule pos_div_less_mult)
  ultimately show ?thesis
    using li c assms(1) unfolding print_term_def duration_term_def by (auto simp: Let_def)
qed

lemma parse_terms_printed:
  assumes "\<forall>t\<in>set ts. unit_of (snd t) \<noteq> None" and "0 \<le> d" and "d \<le> max_int"
  shows "parse_terms frac d (concat (map print_term ts)) =
    (if d + sum_list (map term_ns ts) \<le> max_int then Inr (d + sum_list (map term_ns ts)) else Inl InvalidDuration)"
  using assms
proof (induction ts arbitrary: d)
  case (Cons t ts)
  obtain n u where t: "t = (n, u)" by fastforce
  then obtain k where k: "unit_of u = Some k" "0 < k" using Cons.prems(1) unit_shape by fastforce
  let ?rest = "concat (map print_term ts)" and ?v = "int n * k"
  have v: "term_ns t = ?v" "0 \<le> ?v" using t k by (simp_all add: term_ns_def)
  have pos: "0 \<le> sum_list (map term_ns ts)"
    using Cons.prems(1) unit_shape by (intro sum_list_nonneg) (fastforce simp: term_ns_def)
  have "?rest = [] \<or> dot_or_digit (hd ?rest)"
    using printed_head [of ?rest "hd ts" "concat (map print_term (tl ts))"] by (cases ts) simp_all
  note one = duration_term_printed [OF k(1) this, of frac n]
  obtain c s where cs: "print_term t @ ?rest = c # s" "dot_or_digit c"
    using itoa_digits [of n] by (cases "itoa n") (auto simp: t print_term_def dot_or_digit_def)
  have "parse_terms frac d (concat (map print_term (t # ts))) =
      (if ?v \<le> max_int then if max_int < d + ?v then Inl InvalidDuration else parse_terms frac (d + ?v) ?rest
       else Inl InvalidDuration)"
    using one cs unfolding t by simp
  with Cons.IH [of "d + ?v"] Cons.prems v pos show ?case by auto
qed simp

lemma leadingInt_nonneg: "leadingInt x s = Some (v, s') \<Longrightarrow> 0 \<le> x \<Longrightarrow> 0 \<le> v"
  by (induction s arbitrary: x) (auto simp: Let_def split: if_splits)

lemma parse_terms_bounds: "parse_terms frac d s = Inr r \<Longrightarrow> 0 \<le> d \<Longrightarrow> d \<le> max_int \<Longrightarrow> 0 \<le> r \<and> r \<le> max_int"
proof (induction frac d s rule: parse_terms.induct)
  case (2 frac d c s)
  then obtain v s' where v: "duration_term frac (c # s) = Inr (v, s')" "parse_terms frac (d + v) s' = Inr r"
    "d + v \<le> max_int" "dot_or_digit c" by (auto split: if_splits sum.splits prod.splits)
  have "0 \<le> v" using v(1) leadingInt_nonneg unit_shape
    by (fastforce simp: duration_term_def Let_def split: option.splits list.splits if_splits)
  with 2 v show ?case by auto
qed simp

lemma ParseDuration_bounds: "ParseDuration frac s = Inr r \<Longrightarrow> \<bar>r\<bar> \<le> max_int"
  using parse_terms_bounds [of frac 0] by (auto simp: ParseDuration_def Let_def max_int_def simp del: parse_terms.simps split: list.splits if_splits sum.splits)

text \<open>A signed sequence of numbers with units denotes its sum, if that fits.\<close>

lemma ParseDuration_terms:
  assumes "ts \<noteq> []" and "\<forall>t\<in>set ts. unit_of (snd t) \<noteq> None"
  shows "ParseDuration frac ((if neg then ''-'' else []) @ concat (map print_term ts)) =
    (if sum_list (map term_ns ts) \<le> max_int then Inr ((if neg then -1 else 1) * sum_list (map term_ns ts))
     else Inl InvalidDuration)"
proof -
  let ?s = "concat (map print_term ts)"
  obtain n u us where ts: "ts = (n, u) # us" using assms(1) by (cases ts) auto
  obtain k where k: "unit_of u = Some k" using assms(2) ts by auto
  obtain c s where cs: "?s = c # s" "is_digit c" using itoa_digits [of n] by (cases "itoa n") (auto simp: ts print_term_def)
  have "?s \<noteq> ''0''" using unit_shape [OF k] by (auto simp: ts print_term_def append_eq_Cons_conv)
  moreover have "c \<noteq> CHR ''-''" "c \<noteq> CHR ''+''" using cs(2) by auto
  moreover have "parse_terms frac 0 ?s =
      (if sum_list (map term_ns ts) \<le> max_int then Inr (sum_list (map term_ns ts)) else Inl InvalidDuration)"
    using parse_terms_printed [OF assms(2), of 0 frac] by (simp add: max_int_def)
  ultimately show ?thesis using cs(1) by (auto simp: ParseDuration_def Let_def)
qed

end
