(* ===== verification/Daemon_Flags.thy ===== *)
theory Daemon_Flags
  imports Go_Duration
begin

text \<open>
  The program parameters of \<open>cmd/ekanited/main.go\<close>: the flags with their defaults, read from the command line by
  Go's \<open>flag\<close> package, whose \<open>Parse\<close> is modelled for flags of type string and int. Shows that a command line
  sets exactly the parameters it names.
\<close>

section \<open>The parameters\<close>

record Config =
  f_datadir :: bytes
  f_batchSize :: int
  f_batchTimeout :: int
  f_indexMaxPending :: int
  f_tcpIface :: bytes
  f_udpIface :: bytes
  f_diagIface :: bytes
  f_caPemPath :: bytes
  f_caKeyPath :: bytes
  f_queryIface :: bytes
  f_queryIfaceHttp :: bytes
  f_numShards :: int
  f_retentionPeriod :: bytes
  f_cpuProfile :: bytes
  f_memProfile :: bytes
  f_inputFormat :: bytes

definition default_config :: Config where
  "default_config =
     \<lparr>f_datadir = ''/var/opt/ekanite'', f_batchSize = 300, f_batchTimeout = 1000, f_indexMaxPending = 1000,
      f_tcpIface = ''localhost:5514'', f_udpIface = [], f_diagIface = ''localhost:9951'', f_caPemPath = [],
      f_caKeyPath = [], f_queryIface = ''localhost:9950'', f_queryIfaceHttp = ''localhost:8080'',
      f_numShards = 4, f_retentionPeriod = ''168h'', f_cpuProfile = [], f_memProfile = [],
      f_inputFormat = ''syslog''\<rparr>"

definition string_flags :: "(bytes \<times> (bytes \<Rightarrow> Config \<Rightarrow> Config)) list" where
  "string_flags =
     [(''datadir'', \<lambda>v c. c\<lparr>f_datadir := v\<rparr>), (''tcp'', \<lambda>v c. c\<lparr>f_tcpIface := v\<rparr>), (''udp'', \<lambda>v c. c\<lparr>f_udpIface := v\<rparr>),
      (''diag'', \<lambda>v c. c\<lparr>f_diagIface := v\<rparr>), (''tlspem'', \<lambda>v c. c\<lparr>f_caPemPath := v\<rparr>),
      (''tlskey'', \<lambda>v c. c\<lparr>f_caKeyPath := v\<rparr>), (''query'', \<lambda>v c. c\<lparr>f_queryIface := v\<rparr>),
      (''queryhttp'', \<lambda>v c. c\<lparr>f_queryIfaceHttp := v\<rparr>), (''retention'', \<lambda>v c. c\<lparr>f_retentionPeriod := v\<rparr>),
      (''cpuprof'', \<lambda>v c. c\<lparr>f_cpuProfile := v\<rparr>), (''memprof'', \<lambda>v c. c\<lparr>f_memProfile := v\<rparr>),
      (''input'', \<lambda>v c. c\<lparr>f_inputFormat := v\<rparr>)]"

definition int_flags :: "(bytes \<times> (int \<Rightarrow> Config \<Rightarrow> Config)) list" where
  "int_flags =
     [(''batchsize'', \<lambda>n c. c\<lparr>f_batchSize := n\<rparr>), (''batchtime'', \<lambda>n c. c\<lparr>f_batchTimeout := n\<rparr>),
      (''maxpending'', \<lambda>n c. c\<lparr>f_indexMaxPending := n\<rparr>), (''numshards'', \<lambda>n c. c\<lparr>f_numShards := n\<rparr>)]"

section \<open>flag.Parse\<close>

text \<open>
  \<open>strconv.ParseInt\<close> with base 0: decimal, octal after a \<open>0\<close>, hexadecimal after \<open>0x\<close>; the binary notation and
  the underscores of later releases of Go are left out.
\<close>

definition digit_of :: "byte \<Rightarrow> nat option" where
  "digit_of c =
     (let n = of_char c
      in if is_digit c then Some (digit_val c)
         else if 97 \<le> n \<and> n \<le> 122 then Some (n - 87)
         else if 65 \<le> n \<and> n \<le> 90 then Some (n - 55)
         else None)"

fun digits_in :: "nat \<Rightarrow> nat \<Rightarrow> bytes \<Rightarrow> nat option" where
  "digits_in base acc [] = Some acc"
| "digits_in base acc (c # s) =
     (case digit_of c of
        None \<Rightarrow> None
      | Some d \<Rightarrow> if d < base then digits_in base (acc * base + d) s else None)"

definition ParseUint :: "bytes \<Rightarrow> nat option" where
  "ParseUint ds =
     (if ds = [] then None
      else if hd ds = CHR ''0'' then
        (if 2 \<le> length ds \<and> ds ! 1 \<in> {CHR ''x'', CHR ''X''}
         then if length ds = 2 then None else digits_in 16 0 (drop 2 ds)
         else digits_in 8 0 ds)
      else digits_in 10 0 ds)"

definition ParseInt :: "bytes \<Rightarrow> int option" where
  "ParseInt s =
     (let neg = (s \<noteq> [] \<and> hd s = CHR ''-''); ds = (if s \<noteq> [] \<and> hd s \<in> {CHR ''-'', CHR ''+''} then tl s else s)
      in case ParseUint ds of
           None \<Rightarrow> None
         | Some k \<Rightarrow>
             (let v = (if neg then - int k else int k)
              in if - max_int - 1 \<le> v \<and> v \<le> max_int then Some v else None))"

datatype flag_error =
    BadSyntax bytes
  | NotDefined bytes
  | NeedsArgument bytes
  | InvalidValue bytes bytes
  | HelpWanted

text \<open>An argument of the command line, and the value of a flag.\<close>

datatype arg = Positional | Malformed | Setting bytes "bytes option"

definition read_arg :: "bytes \<Rightarrow> arg" where
  "read_arg s =
     (if length s < 2 \<or> hd s \<noteq> CHR ''-'' \<or> s = ''--'' then Positional
      else
        (let name = drop (if s ! 1 = CHR ''-'' then 2 else 1) s
         in if name = [] \<or> hd name = CHR ''-'' \<or> hd name = CHR ''='' then Malformed
            else
              Setting (hd name # takeWhile (\<lambda>c. c \<noteq> CHR ''='') (tl name))
                (case dropWhile (\<lambda>c. c \<noteq> CHR ''='') (tl name) of [] \<Rightarrow> None | _ # v \<Rightarrow> Some v)))"

definition defined :: "bytes \<Rightarrow> bool" where
  "defined name \<longleftrightarrow> name \<in> set (map fst string_flags) \<or> name \<in> set (map fst int_flags)"

definition set_flag :: "bytes \<Rightarrow> bytes \<Rightarrow> Config \<Rightarrow> flag_error + Config" where
  "set_flag name v c =
     (case map_of string_flags name of
        Some f \<Rightarrow> Inr (f v c)
      | None \<Rightarrow>
          (case map_of int_flags name of
             Some f \<Rightarrow> (case ParseInt v of None \<Rightarrow> Inl (InvalidValue v name) | Some n \<Rightarrow> Inr (f n c))
           | None \<Rightarrow> Inl (NotDefined name)))"

text \<open>
  Parsing stops at the first argument that is not a flag. With \<open>flag.ExitOnError\<close> an error ends the process,
  and so does asking for help, after \<open>printHelp\<close>.
\<close>

fun parse_flags :: "bytes list \<Rightarrow> Config \<Rightarrow> flag_error + Config" where
  "parse_flags [] c = Inr c"
| "parse_flags (a # as) c =
     (case read_arg a of
        Positional \<Rightarrow> Inr c
      | Malformed \<Rightarrow> Inl (BadSyntax a)
      | Setting name value \<Rightarrow>
          if \<not> defined name then Inl (if name \<in> {''help'', ''h''} then HelpWanted else NotDefined name)
          else
            (case value of
               Some v \<Rightarrow> (case set_flag name v c of Inl err \<Rightarrow> Inl err | Inr c1 \<Rightarrow> parse_flags as c1)
             | None \<Rightarrow>
                 (case as of
                    [] \<Rightarrow> Inl (NeedsArgument name)
                  | v # as1 \<Rightarrow> (case set_flag name v c of Inl err \<Rightarrow> Inl err | Inr c1 \<Rightarrow> parse_flags as1 c1))))"

section \<open>Properties\<close>

text \<open>A setting of one parameter, in one argument or in two.\<close>

datatype setting = Str bytes bytes | Num bytes int

definition decimal :: "int \<Rightarrow> bytes" where
  "decimal n = (if n < 0 then CHR ''-'' # itoa (nat (- n)) else itoa (nat n))"

fun setting_name :: "setting \<Rightarrow> bytes" where
  "setting_name (Str name _) = name"
| "setting_name (Num name _) = name"

fun setting_value :: "setting \<Rightarrow> bytes" where
  "setting_value (Str _ v) = v"
| "setting_value (Num _ n) = decimal n"

fun setting_ok :: "setting \<Rightarrow> bool" where
  "setting_ok (Str name _) \<longleftrightarrow> name \<in> {''datadir'', ''tcp'', ''udp'', ''diag'', ''tlspem'', ''tlskey'', ''query'', ''queryhttp'',
     ''retention'', ''cpuprof'', ''memprof'', ''input''}"
| "setting_ok (Num name n) \<longleftrightarrow> name \<in> {''batchsize'', ''batchtime'', ''maxpending'', ''numshards''} \<and>
     - max_int - 1 \<le> n \<and> n \<le> max_int"

text \<open>The value that the settings give to a flag with a given default: the last one of its name.\<close>

fun str_value :: "bytes \<Rightarrow> bytes \<Rightarrow> setting list \<Rightarrow> bytes" where
  "str_value name v [] = v"
| "str_value name v (Str n x # ss) = str_value name (if n = name then x else v) ss"
| "str_value name v (Num _ _ # ss) = str_value name v ss"

fun num_value :: "bytes \<Rightarrow> int \<Rightarrow> setting list \<Rightarrow> int" where
  "num_value name v [] = v"
| "num_value name v (Num n x # ss) = num_value name (if n = name then x else v) ss"
| "num_value name v (Str _ _ # ss) = num_value name v ss"

definition set_config :: "Config \<Rightarrow> setting list \<Rightarrow> Config" where
  "set_config c ss =
     \<lparr>f_datadir = str_value ''datadir'' (f_datadir c) ss, f_batchSize = num_value ''batchsize'' (f_batchSize c) ss,
      f_batchTimeout = num_value ''batchtime'' (f_batchTimeout c) ss,
      f_indexMaxPending = num_value ''maxpending'' (f_indexMaxPending c) ss, f_tcpIface = str_value ''tcp'' (f_tcpIface c) ss,
      f_udpIface = str_value ''udp'' (f_udpIface c) ss, f_diagIface = str_value ''diag'' (f_diagIface c) ss,
      f_caPemPath = str_value ''tlspem'' (f_caPemPath c) ss, f_caKeyPath = str_value ''tlskey'' (f_caKeyPath c) ss,
      f_queryIface = str_value ''query'' (f_queryIface c) ss, f_queryIfaceHttp = str_value ''queryhttp'' (f_queryIfaceHttp c) ss,
      f_numShards = num_value ''numshards'' (f_numShards c) ss,
      f_retentionPeriod = str_value ''retention'' (f_retentionPeriod c) ss, f_cpuProfile = str_value ''cpuprof'' (f_cpuProfile c) ss,
      f_memProfile = str_value ''memprof'' (f_memProfile c) ss, f_inputFormat = str_value ''input'' (f_inputFormat c) ss\<rparr>"

fun apply_setting :: "setting \<Rightarrow> Config \<Rightarrow> Config" where
  "apply_setting (Str name v) c = the (map_of string_flags name) v c"
| "apply_setting (Num name n) c = the (map_of int_flags name) n c"

definition render_setting :: "bool \<Rightarrow> setting \<Rightarrow> bytes list" where
  "render_setting joined s =
     (if joined then [CHR ''-'' # setting_name s @ CHR ''='' # setting_value s]
      else [CHR ''-'' # setting_name s, setting_value s])"

lemma digits_in_ten: "list_all is_digit s \<Longrightarrow> digits_in 10 acc s = Some (acc * 10 ^ length s + dec_val s)"
proof (induction s arbitrary: acc)
  case (Cons c s)
  then have "digit_of c = Some (digit_val c)" "digit_val c < 10" by (simp_all add: digit_of_def digit_val_less)
  with Cons show ?case by (simp add: dec_val_Cons algebra_simps)
qed simp

lemma itoa_head: "0 < n \<Longrightarrow> hd (itoa n) \<noteq> CHR ''0''"
proof (induction n rule: itoa.induct)
  case (1 n)
  show ?case
  proof (cases "n < 10")
    case True
    then have "digit_val (digit_byte n) = n" by simp
    with True 1(2) show ?thesis by (subst itoa.simps) (auto simp: digit_val_def)
  next
    case False
    with 1(1) show ?thesis by (subst itoa.simps) simp
  qed
qed

lemma ParseUint_itoa: "ParseUint (itoa k) = Some k"
proof (cases "k = 0")
  case True
  then show ?thesis by (simp add: ParseUint_def itoa.simps [of 0] digit_of_def Let_def digit_byte_def digit_val_def byte_class)
next
  case False
  then show ?thesis using itoa_head [of k] digits_in_ten [OF itoa_digits, of 0 k] by (simp add: ParseUint_def)
qed

lemma ParseInt_decimal:
  assumes "- max_int - 1 \<le> n" and "n \<le> max_int"
  shows "ParseInt (decimal n) = Some n"
proof (cases "n < 0")
  case True
  with assms show ?thesis by (simp add: decimal_def ParseInt_def ParseUint_itoa)
next
  case False
  have "is_digit (hd (itoa (nat n)))" using itoa_digits [of "nat n"] by (cases "itoa (nat n)") auto
  then have "hd (itoa (nat n)) \<noteq> CHR ''-''" "hd (itoa (nat n)) \<noteq> CHR ''+''" by auto
  with False assms show ?thesis by (simp add: decimal_def ParseInt_def ParseUint_itoa)
qed

lemma set_flag_setting:
  assumes "setting_ok s"
  shows "set_flag (setting_name s) (setting_value s) c = Inr (apply_setting s c)" and "defined (setting_name s)"
proof -
  show "defined (setting_name s)" using assms by (cases s) (auto simp: defined_def string_flags_def int_flags_def)
  show "set_flag (setting_name s) (setting_value s) c = Inr (apply_setting s c)"
  proof (cases s)
    case (Str name v)
    then obtain f where "map_of string_flags name = Some f" using assms by (auto simp: string_flags_def)
    with Str show ?thesis by (simp add: set_flag_def)
  next
    case (Num name n)
    then obtain f where f: "map_of int_flags name = Some f" using assms by (auto simp: int_flags_def)
    have "name \<notin> fst ` set string_flags" using Num assms by (auto simp: string_flags_def)
    then have "map_of string_flags name = None" by (simp add: map_of_eq_None_iff)
    with Num f assms show ?thesis by (simp add: set_flag_def ParseInt_decimal)
  qed
qed

lemma flag_name_shape:
  "defined name \<Longrightarrow> name \<noteq> [] \<and> CHR ''='' \<notin> set name \<and> hd name \<noteq> CHR ''-''"
  by (auto simp: defined_def string_flags_def int_flags_def)

lemma read_arg_setting:
  assumes "defined name"
  shows "read_arg (CHR ''-'' # name @ CHR ''='' # v) = Setting name (Some v)" and "read_arg (CHR ''-'' # name) = Setting name None"
proof -
  obtain c cs where name: "name = c # cs" "c \<noteq> CHR ''-''" "c \<noteq> CHR ''=''" "CHR ''='' \<notin> set cs"
    using flag_name_shape [OF assms] by (cases name) auto
  then have t: "takeWhile (\<lambda>c. c \<noteq> CHR ''='') (cs @ r) = cs @ takeWhile (\<lambda>c. c \<noteq> CHR ''='') r"
    "dropWhile (\<lambda>c. c \<noteq> CHR ''='') (cs @ r) = dropWhile (\<lambda>c. c \<noteq> CHR ''='') r" for r
    by (auto simp: takeWhile_append dropWhile_append)
  show "read_arg (CHR ''-'' # name @ CHR ''='' # v) = Setting name (Some v)"
    using name t [of "CHR ''='' # v"] by (simp add: read_arg_def)
  show "read_arg (CHR ''-'' # name) = Setting name None"
    using name by (auto simp: read_arg_def list.case_eq_if takeWhile_eq_all_conv)
qed

lemma parse_flags_settings:
  assumes "\<forall>(j, s)\<in>set ss. setting_ok s"
  shows "parse_flags (concat (map (\<lambda>(j, s). render_setting j s) ss) @ as) c =
    parse_flags as (foldl (\<lambda>c (j, s). apply_setting s c) c ss)"
  using assms
proof (induction ss arbitrary: c)
  case (Cons x ss)
  obtain j s where x: "x = (j, s)" by fastforce
  then have ok: "setting_ok s" using Cons.prems by simp
  note s = set_flag_setting [OF ok] and r = read_arg_setting [OF set_flag_setting(2) [OF ok]]
  from Cons show ?case by (cases j) (simp_all add: x render_setting_def r s)
qed simp

lemma apply_setting_config: "setting_ok s \<Longrightarrow> set_config (apply_setting s c) ss = set_config c (s # ss)"
  by (cases s) (auto simp: set_config_def string_flags_def int_flags_def)

lemma foldl_settings:
  "\<forall>(j, s)\<in>set ss. setting_ok s \<Longrightarrow> foldl (\<lambda>c (j, s). apply_setting s c) c ss = set_config c (map snd ss)"
proof (induction ss arbitrary: c)
  case (Cons x ss)
  then show ?case by (auto simp: apply_setting_config)
qed (simp add: set_config_def)

text \<open>
  C35. The command line sets the parameters it names. Any sequence of settings of the daemon's flags, each written as
  one argument (\<open>-name=value\<close>) or as two (\<open>-name value\<close>), numbers in decimal notation, is accepted. Each of the sixteen
  parameters then has the value of the last setting of its own flag, or the default that \<open>main\<close> declares for it if there is none.
\<close>

theorem flags_roundtrip:
  assumes "\<forall>(j, s)\<in>set js. setting_ok s" and "ss = map snd js"
  shows "\<exists>c. parse_flags (concat (map (\<lambda>(j, s). render_setting j s) js)) default_config = Inr c \<and>
    f_datadir c = str_value ''datadir'' ''/var/opt/ekanite'' ss \<and> f_batchSize c = num_value ''batchsize'' 300 ss \<and>
    f_batchTimeout c = num_value ''batchtime'' 1000 ss \<and> f_indexMaxPending c = num_value ''maxpending'' 1000 ss \<and>
    f_tcpIface c = str_value ''tcp'' ''localhost:5514'' ss \<and> f_udpIface c = str_value ''udp'' [] ss \<and>
    f_diagIface c = str_value ''diag'' ''localhost:9951'' ss \<and> f_caPemPath c = str_value ''tlspem'' [] ss \<and>
    f_caKeyPath c = str_value ''tlskey'' [] ss \<and> f_queryIface c = str_value ''query'' ''localhost:9950'' ss \<and>
    f_queryIfaceHttp c = str_value ''queryhttp'' ''localhost:8080'' ss \<and> f_numShards c = num_value ''numshards'' 4 ss \<and>
    f_retentionPeriod c = str_value ''retention'' ''168h'' ss \<and> f_cpuProfile c = str_value ''cpuprof'' [] ss \<and>
    f_memProfile c = str_value ''memprof'' [] ss \<and> f_inputFormat c = str_value ''input'' ''syslog'' ss"
  using parse_flags_settings [OF assms(1), of "[]" default_config]
  by (simp add: foldl_settings [OF assms(1)] assms(2) set_config_def default_config_def)

theorem flags_roundtrip_witness:
  "\<exists>c. parse_flags [''-numshards=16'', ''-retention'', ''-24h'', ''-tlspem=ca'', ''-numshards=8''] default_config = Inr c \<and>
    f_numShards c = 8 \<and> f_retentionPeriod c = ''-24h'' \<and> f_caPemPath c = ''ca'' \<and> f_caKeyPath c = [] \<and>
    f_datadir c = ''/var/opt/ekanite''"
proof -
  let ?js = "[(True, Num ''numshards'' 16), (False, Str ''retention'' ''-24h''), (True, Str ''tlspem'' ''ca''), (True, Num ''numshards'' 8)]"
  have a: "concat (map (\<lambda>(j, s). render_setting j s) ?js) =
      [''-numshards=16'', ''-retention'', ''-24h'', ''-tlspem=ca'', ''-numshards=8'']" by code_simp
  have ok: "\<forall>(j, s)\<in>set ?js. setting_ok s" by (simp add: max_int_def)
  from flags_roundtrip [OF ok refl, unfolded a] show ?thesis by (elim exE conjE) (rule exI, simp)
qed

end
