(* ===== verification/Syslog_Delimiter.thy ===== *)
theory Syslog_Delimiter
  imports Regex Framing
begin

text \<open>
  \<open>input/delimiter_syslog.go\<close>: the delimiter of the TCP collector. A record for the struct, one
  definition per method, the byte-level invariant of the two phases (before and after the first
  delimiter), the framing contract by interpretation, and the round trip of a framed stream.
\<close>

section \<open>Model\<close>

definition SYSLOG_DELIMITER :: re where
  "SYSLOG_DELIMITER = cat [lit ''<'', Rep is_digit 1 (Some 3), lit ''>'']"

definition syslogRegex :: re where "syslogRegex = SYSLOG_DELIMITER"
definition startRegex :: re where "startRegex = Seq SYSLOG_DELIMITER EndText"
definition runRegex :: re where "runRegex = Seq (lit [LF]) SYSLOG_DELIMITER"

text \<open>The field \<open>regex\<close> points to one of the two compiled expressions.\<close>

datatype regex_ref = StartRegex | RunRegex

fun regex_of :: "regex_ref \<Rightarrow> re" where
  "regex_of StartRegex = startRegex"
| "regex_of RunRegex = runRegex"

record SyslogDelimiter =
  buffer :: bytes
  regex :: regex_ref

definition NewSyslogDelimiter :: "nat \<Rightarrow> SyslogDelimiter" where
  "NewSyslogDelimiter maxSize = \<lparr>buffer = [], regex = StartRegex\<rparr>"

definition Push :: "SyslogDelimiter \<Rightarrow> byte \<Rightarrow> SyslogDelimiter \<times> (bytes \<times> bool)" where
  "Push s b =
     (let buf = buffer s @ [b]
      in case find_index (regex_of (regex s)) buf of
           None \<Rightarrow> (s\<lparr>buffer := buf\<rparr>, ([], False))
         | Some (i, j) \<Rightarrow>
             if regex s = StartRegex
             then (s\<lparr>buffer := drop i buf, regex := RunRegex\<rparr>, ([], False))
             else (s\<lparr>buffer := drop (i + 1) buf\<rparr>, (trim_right [CR] (take i buf), True)))"

definition Vestige :: "SyslogDelimiter \<Rightarrow> SyslogDelimiter \<times> (bytes \<times> bool)" where
  "Vestige s =
     (case find_index syslogRegex (buffer s) of
        None \<Rightarrow> (s\<lparr>buffer := []\<rparr>, ([], False))
      | Some _ \<Rightarrow> (s\<lparr>buffer := []\<rparr>, (trim_right [CR, LF] (buffer s), True)))"

text \<open>\<open>Push\<close> with its flag read as an option, the form the framing contract uses.\<close>

definition push_opt :: "SyslogDelimiter \<Rightarrow> byte \<Rightarrow> SyslogDelimiter \<times> bytes option" where
  "push_opt s b = (case Push s b of (s', (m, ok)) \<Rightarrow> (s', if ok then Some m else None))"

abbreviation syslog_feed :: "SyslogDelimiter \<Rightarrow> bytes \<Rightarrow> SyslogDelimiter \<times> bytes list" where
  "syslog_feed \<equiv> feed push_opt"

section \<open>What the expressions match\<close>

definition is_delim :: "bytes \<Rightarrow> bool" where
  "is_delim u \<longleftrightarrow> (\<exists>ds. u = CHR ''<'' # ds @ [CHR ''>''] \<and> list_all is_digit ds \<and>
     1 \<le> length ds \<and> length ds \<le> 3)"

definition no_delim :: "bytes \<Rightarrow> bool" where
  "no_delim s \<longleftrightarrow> (\<nexists>pre u rest. s = pre @ u @ rest \<and> is_delim u)"

definition no_run :: "bytes \<Rightarrow> bool" where
  "no_run s \<longleftrightarrow> (\<nexists>pre u rest. s = pre @ LF # u @ rest \<and> is_delim u)"

definition starts_delim :: "bytes \<Rightarrow> bool" where
  "starts_delim s \<longleftrightarrow> (\<exists>u rest. s = u @ rest \<and> is_delim u)"

lemma matches_syslog: "matches SYSLOG_DELIMITER u rest cs \<longleftrightarrow> is_delim u \<and> cs = []"
  by (auto simp: SYSLOG_DELIMITER_def cat_def lit_def matches_Seq matches_Rep is_delim_def
      list_all_iff append_eq_Cons_conv)

lemma matches_start: "matches startRegex u rest cs \<longleftrightarrow> is_delim u \<and> rest = [] \<and> cs = []"
  by (auto simp: startRegex_def matches_Seq matches_syslog)

lemma matches_run:
  "matches runRegex u rest cs \<longleftrightarrow> (\<exists>v. u = LF # v \<and> is_delim v) \<and> cs = []"
  by (auto simp: runRegex_def lit_def cat_def matches_Seq matches_syslog)

lemma find_syslog_None: "find_index syslogRegex s = None \<longleftrightarrow> no_delim s"
  by (auto simp: find_index_None no_match_def syslogRegex_def matches_syslog no_delim_def)

lemma find_run_None: "find_index runRegex s = None \<longleftrightarrow> no_run s"
  unfolding find_index_None no_match_def no_run_def matches_run by (metis append_Cons)

lemma find_start_None:
  "find_index startRegex s = None \<longleftrightarrow> (\<nexists>pre u. s = pre @ u \<and> is_delim u)"
  by (auto simp: find_index_None no_match_def matches_start)

lemma delim_last: "is_delim u \<Longrightarrow> u \<noteq> [] \<and> LF \<notin> set u"
  by (auto simp: is_delim_def digits_notin)

lemma delim_tl: "is_delim u \<Longrightarrow> CHR ''<'' \<notin> set (tl u)"
  by (auto simp: is_delim_def digits_notin)

lemma delim_no_run: "is_delim u \<Longrightarrow> no_run u"
  by (auto simp: no_run_def dest: delim_last)

lemma no_run_prefix: "no_run (xs @ ys) \<Longrightarrow> no_run xs"
  by (force simp: no_run_def)

lemma no_run_Nil [simp]: "no_run []" by (simp add: no_run_def)

lemma delim_starts: "is_delim u \<Longrightarrow> starts_delim u"
  unfolding starts_delim_def by (metis append_Nil2)

text \<open>A new occurrence appears only at the end of the buffer.\<close>

lemma no_run_snoc:
  assumes "no_run s" and "s @ [b] = pre @ LF # u @ rest" and "is_delim u"
  shows "rest = []"
proof (rule ccontr)
  assume "rest \<noteq> []"
  then obtain r c where "rest = r @ [c]" by (cases rest rule: rev_cases) auto
  with assms(2) have "s = pre @ LF # u @ r" by auto
  with assms(1,3) show False by (auto simp: no_run_def)
qed

lemma no_delim_snoc:
  assumes "no_delim s" and "\<nexists>pre u. s @ [b] = pre @ u \<and> is_delim u"
  shows "no_delim (s @ [b])"
  unfolding no_delim_def
proof clarify
  fix pre u rest
  assume eq: "s @ [b] = pre @ u @ rest" and d: "is_delim u"
  show False
  proof (cases rest rule: rev_cases)
    case Nil
    with eq d assms(2) show ?thesis by auto
  next
    case (snoc r c)
    with eq have "s = pre @ u @ r" by auto
    with d assms(1) show ?thesis by (auto simp: no_delim_def)
  qed
qed

section \<open>One byte\<close>

lemma Push_start:
  assumes "regex s = StartRegex" and "no_delim (buffer s)" and "Push s b = (s', (m, ok))"
  shows "\<not> ok \<and>
    (if regex s' = StartRegex then buffer s' = buffer s @ [b] \<and> no_delim (buffer s')
     else is_delim (buffer s') \<and> (\<exists>pre. buffer s @ [b] = pre @ buffer s'))"
proof (cases "find_index startRegex (buffer s @ [b])")
  case None
  then have "no_delim (buffer s @ [b])"
    using no_delim_snoc [OF assms(2)] by (simp add: find_start_None)
  with None assms show ?thesis by (auto simp: Push_def)
next
  case (Some ij)
  define buf where "buf = buffer s @ [b]"
  obtain i j where ij: "ij = (i, j)" by (cases ij)
  with Some find_index_Some obtain u cs where
    u: "buf = take i buf @ u @ drop j buf" and m: "matches startRegex u (drop j buf) cs"
    unfolding buf_def by metis
  from m have d: "is_delim u" and "drop j buf = []" by (auto simp: matches_start)
  with u have split: "buf = take i buf @ u" by simp
  then have "drop i buf = u" by (metis append_take_drop_id same_append_eq)
  moreover from this have "\<exists>pre. buf = pre @ drop i buf" using split by blast
  ultimately
  show ?thesis using Some ij assms d
    by (auto simp: Push_def Let_def simp flip: buf_def)
qed

lemma Push_run:
  assumes "regex s = RunRegex" and "no_run (buffer s)" and "Push s b = (s', (m, ok))"
  shows "regex s' = RunRegex \<and> no_run (buffer s') \<and>
    (if ok then \<exists>raw. buffer s @ [b] = raw @ [LF] @ buffer s' \<and> m = trim_right [CR] raw \<and>
                      no_run raw \<and> is_delim (buffer s')
     else m = [] \<and> buffer s' = buffer s @ [b])"
proof (cases "find_index runRegex (buffer s @ [b])")
  case None
  with assms show ?thesis by (auto simp: Push_def find_run_None)
next
  case (Some ij)
  define buf where "buf = buffer s @ [b]"
  obtain i j where ij: "ij = (i, j)" by (cases ij)
  with Some find_index_Some obtain u cs where
    u: "buf = take i buf @ u @ drop j buf" and m: "matches runRegex u (drop j buf) cs"
    unfolding buf_def by metis
  from m obtain v where v: "u = LF # v" "is_delim v" by (auto simp: matches_run)
  with u no_run_snoc [OF assms(2), of b] have "drop j buf = []"
    unfolding buf_def by (metis append_Cons)
  with u v have split: "buf = take i buf @ LF # v" by simp
  then have "drop i buf = LF # v" by (metis append_take_drop_id same_append_eq)
  then have d: "drop (i + 1) buf = v" by (metis Suc_eq_plus1 drop_Suc list.sel(3) tl_drop)
  have "no_run (take i buf)"
  proof -
    from v(2) obtain w c where "v = w @ [c]" using delim_last by (cases v rule: rev_cases) auto
    with split have "buf = (take i buf @ LF # w) @ [c]" by simp
    then have "buffer s = take i buf @ LF # w"
      by (metis buf_def append1_eq_conv)
    then show ?thesis using assms(2) no_run_prefix by metis
  qed
  with Some ij assms d split v(2) show ?thesis
    by (auto simp: Push_def Let_def delim_no_run simp flip: buf_def)
qed

section \<open>The framing contract\<close>

text \<open>
  After the first delimiter: a frame is a line and its line feed; the message handed out is the
  line less trailing carriage returns; the line holds no line feed followed by a delimiter.
\<close>

definition run_inv :: "SyslogDelimiter \<Rightarrow> bool" where
  "run_inv s \<longleftrightarrow> regex s = RunRegex \<and> no_run (buffer s) \<and> starts_delim (buffer s)"

definition run_frame :: "bytes \<Rightarrow> bytes \<Rightarrow> bool" where
  "run_frame raw m \<longleftrightarrow> (\<exists>line. raw = line @ [LF] \<and> m = trim_right [CR] line \<and>
     no_run line \<and> starts_delim line)"

lemma starts_delim_append: "starts_delim xs \<Longrightarrow> starts_delim (xs @ ys)"
  unfolding starts_delim_def by (metis append.assoc)

lemma starts_delim_before_LF: "starts_delim (xs @ LF # ys) \<Longrightarrow> starts_delim xs"
proof -
  assume "starts_delim (xs @ LF # ys)"
  then obtain u rest where u: "xs @ LF # ys = u @ rest" "is_delim u"
    by (auto simp: starts_delim_def)
  then have "LF \<notin> set u" by (simp add: delim_last)
  with u(1) obtain t where "xs = u @ t" by (rule append_split_notin)
  with u(2) show ?thesis by (auto simp: starts_delim_def)
qed

interpretation sd: framing push_opt buffer run_inv run_frame
proof
  fix d b d'
  assume inv: "run_inv d" and p: "push_opt d b = (d', None)"
  then obtain m where "Push d b = (d', (m, False))"
    by (auto simp: push_opt_def split: prod.splits if_splits)
  from Push_run [OF _ _ this] inv show "run_inv d' \<and> buffer d' = buffer d @ [b]"
    by (auto simp: run_inv_def starts_delim_append)
next
  fix d b d' m
  assume inv: "run_inv d" and p: "push_opt d b = (d', Some m)"
  then have "Push d b = (d', (m, True))"
    by (auto simp: push_opt_def split: prod.splits if_splits)
  from Push_run [OF _ _ this] inv obtain raw where
    r: "regex d' = RunRegex" "no_run (buffer d')" "buffer d @ [b] = raw @ [LF] @ buffer d'"
    "m = trim_right [CR] raw" "no_run raw" "is_delim (buffer d')"
    by (auto simp: run_inv_def)
  have "starts_delim raw"
    using inv r(3) starts_delim_append [of "buffer d" "[b]"] starts_delim_before_LF
    by (auto simp: run_inv_def)
  with r show "run_inv d' \<and> (\<exists>raw. buffer d @ [b] = raw @ buffer d' \<and> run_frame raw m)"
    by (auto simp: run_inv_def run_frame_def delim_starts intro!: exI [of _ "raw @ [LF]"])
qed

section \<open>Whole streams\<close>

text \<open>Before the first delimiter nothing is handed out and the bytes are kept.\<close>

lemma feed_start:
  assumes "regex s = StartRegex" and "no_delim (buffer s @ bs)"
  shows "syslog_feed s bs = (s\<lparr>buffer := buffer s @ bs\<rparr>, [])"
  using assms
proof (induction bs arbitrary: s)
  case Nil
  then show ?case by simp
next
  case (Cons b bs)
  then have "no_delim ((buffer s @ [b]) @ bs)" by simp
  then have "\<nexists>pre u. buffer s @ [b] = pre @ u \<and> is_delim u"
    unfolding no_delim_def by (metis append.assoc)
  then have "push_opt s b = (s\<lparr>buffer := buffer s @ [b]\<rparr>, None)"
    using Cons.prems(1) find_start_None [of "buffer s @ [b]"] by (simp add: push_opt_def Push_def)
  with Cons.IH [of "s\<lparr>buffer := buffer s @ [b]\<rparr>"] Cons.prems show ?case by simp
qed

text \<open>Bytes before a delimiter cannot complete one early.\<close>

lemma delim_straddle:
  assumes "no_delim junk" and "is_delim u" and "junk @ v = pre @ w @ rest" and "u = v @ [CHR ''>'']"
  shows "\<not> is_delim w"
proof
  assume w: "is_delim w"
  from assms(2,4) obtain ds where v: "v = CHR ''<'' # ds" "list_all is_digit ds"
    by (auto simp: is_delim_def)
  from assms(3) consider t where "junk = (pre @ w) @ t" | t where "pre @ w = junk @ t" "v = t @ rest"
    by (metis append.assoc append_eq_append_conv2)
  then show False
  proof cases
    case 1
    with assms(1) w show False by (auto simp: no_delim_def)
  next
    case 2
    show False
    proof (cases t rule: rev_cases)
      case Nil
      with 2 assms(1) w show False unfolding no_delim_def by (metis append_Nil2 append.assoc)
    next
      case (snoc t' c)
      from w obtain es where "w = (CHR ''<'' # es) @ [CHR ''>'']" by (auto simp: is_delim_def)
      with 2(1) snoc have "c = CHR ''>''" by (metis append.assoc last_snoc)
      with 2(2) snoc have "CHR ''>'' \<in> set v" by simp
      with v show False using digits_notin [OF v(2), of "CHR ''>''"] by simp
    qed
  qed
qed

lemma delim_suffix_unique:
  assumes "pre @ u = pre' @ u'" and "is_delim u" and "is_delim u'"
  shows "u = u'"
proof -
  have clash: "t = []" if "u1 = t @ u2" "is_delim u1" "is_delim u2" for t u1 u2
  proof (rule ccontr)
    assume "t \<noteq> []"
    with that(1) have "set u2 \<subseteq> set (tl u1)" by (cases t) auto
    moreover from that(3) have "CHR ''<'' \<in> set u2" by (auto simp: is_delim_def)
    ultimately show False using delim_tl [OF that(2)] by blast
  qed
  from assms(1) consider t where "u' = t @ u" | t where "u = t @ u'"
    by (metis append_eq_append_conv2)
  then show ?thesis using clash assms(2,3) by cases fastforce+
qed

lemma feed_first:
  assumes "no_delim junk" and "is_delim u"
  shows "syslog_feed (NewSyslogDelimiter n) (junk @ u) = (\<lparr>buffer = u, regex = RunRegex\<rparr>, [])"
proof -
  obtain v where u: "u = v @ [CHR ''>'']" using assms(2) by (auto simp: is_delim_def)
  have "no_delim (junk @ v)"
    using delim_straddle [OF assms _ u] by (auto simp: no_delim_def)
  then have start: "syslog_feed (NewSyslogDelimiter n) (junk @ v) =
      (\<lparr>buffer = junk @ v, regex = StartRegex\<rparr>, [])"
    using feed_start [of "NewSyslogDelimiter n" "junk @ v"] by (simp add: NewSyslogDelimiter_def)
  let ?s = "\<lparr>buffer = junk @ v, regex = StartRegex\<rparr>"
  obtain s' m ok where p: "Push ?s (CHR ''>'') = (s', (m, ok))" by (metis surj_pair)
  have "find_index startRegex ((junk @ v) @ [CHR ''>'']) \<noteq> None"
    using assms(2) u by (auto simp: find_start_None)
  with p have run: "regex s' = RunRegex" by (auto simp: Push_def split: if_splits)
  with Push_start [OF _ _ p] \<open>no_delim (junk @ v)\<close> obtain pre where
    s': "\<not> ok" "is_delim (buffer s')" "junk @ u = pre @ buffer s'" using u by auto
  then have "buffer s' = u" using delim_suffix_unique [OF s'(3) assms(2)] by simp
  with run have "s' = \<lparr>buffer = u, regex = RunRegex\<rparr>" by simp
  with p s'(1) start u show ?thesis
    by (simp add: feed_append [of _ _ "junk @ v", simplified append.assoc] push_opt_def)
qed

text \<open>Lines that each start with a delimiter and hold no line feed followed by one.\<close>

definition good_line :: "bytes \<Rightarrow> bool" where
  "good_line m \<longleftrightarrow> starts_delim m \<and> no_run m"

lemma good_lineD: "good_line m \<Longrightarrow> starts_delim m" "good_line m \<Longrightarrow> no_run m"
  by (simp_all add: good_line_def)

definition frames :: "bytes list \<Rightarrow> bytes" where
  "frames ms = concat (map (\<lambda>m. m @ [LF]) ms)"

lemma frames_simps [simp]: "frames [] = []" "frames (m # ms) = m @ LF # frames ms"
  by (simp_all add: frames_def)

lemma starts_delim_frames:
  "list_all good_line ms \<Longrightarrow> good_line m \<Longrightarrow> starts_delim (frames ms @ m)"
  by (cases ms) (auto simp: good_line_def intro: starts_delim_append [simplified])

lemma no_run_break: "no_run (r @ LF # t) \<Longrightarrow> \<not> starts_delim t"
  by (auto simp: no_run_def starts_delim_def)

lemma line_boundary_unique:
  assumes "r @ LF # t = r' @ LF # t'" and "no_run r" and "no_run r'"
    and "starts_delim t" and "starts_delim t'"
  shows "r = r' \<and> t = t'"
proof -
  have clash: "w = []" if "r1 = r2 @ w" "LF # t2 = w @ LF # t1" "no_run r1" "starts_delim t2"
    for w r1 r2 t1 t2
  proof (cases w)
    case (Cons c w')
    with that(2) have "c = LF" "t2 = w' @ LF # t1" by auto
    with that(4) have "starts_delim w'" using starts_delim_before_LF by metis
    with that(1,3) Cons \<open>c = LF\<close> show ?thesis using no_run_break by blast
  qed simp
  from assms(1) consider w where "r = r' @ w" "LF # t' = w @ LF # t"
    | w where "r' = r @ w" "LF # t = w @ LF # t'"
    by (auto simp: append_eq_append_conv2)
  then show ?thesis
  proof cases
    case 1
    then have "w = []" using clash assms(2,5) by blast
    with 1 show ?thesis by simp
  next
    case 2
    then have "w = []" using clash assms(3,4) by blast
    with 2 show ?thesis by simp
  qed
qed

lemma frames_unique:
  assumes "list_all good_line xs" and "good_line y" and "list_all good_line xs'" and "good_line y'"
    and "frames xs @ y = frames xs' @ y'"
  shows "xs = xs' \<and> y = y'"
  using assms
proof (induction xs arbitrary: xs')
  case Nil
  show ?case
  proof (cases xs')
    case Nil
    with \<open>frames [] @ y = frames xs' @ y'\<close> show ?thesis by simp
  next
    case (Cons x' xs'')
    with Nil.prems no_run_break [of x' "frames xs'' @ y'"] starts_delim_frames [of xs'' y']
    show ?thesis by (auto dest: good_lineD)
  qed
next
  case (Cons x xs)
  show ?case
  proof (cases xs')
    case Nil
    with Cons.prems show ?thesis
      using no_run_break starts_delim_frames [of xs y] by (auto dest: good_lineD)
  next
    case (Cons x' xs'')
    with Cons.prems line_boundary_unique [of x "frames xs @ y" x' "frames xs'' @ y'"]
    have "x = x'" "frames xs @ y = frames xs'' @ y'"
      using starts_delim_frames by (auto dest: good_lineD)
    with Cons.IH [of xs''] Cons.prems Cons show ?thesis by simp
  qed
qed

lemma run_frames_lines:
  assumes "list_all2 run_frame raws ms"
  shows "\<exists>ls. concat raws = frames ls \<and> ms = map (trim_right [CR]) ls \<and> list_all good_line ls"
  using assms
proof (induction rule: list_all2_induct)
  case Nil
  then show ?case by (intro exI [of _ "[]"]) simp
next
  case (Cons raw raws m ms)
  from Cons.hyps obtain l where l: "raw = l @ [LF]" "m = trim_right [CR] l" "good_line l"
    by (auto simp: run_frame_def good_line_def)
  from Cons.IH obtain ls where
    "concat raws = frames ls" "ms = map (trim_right [CR]) ls" "list_all good_line ls" by blast
  with l show ?case by (intro exI [of _ "l # ls"]) simp
qed

text \<open>From a state in the second phase, every stream is cut into good lines, losing nothing.\<close>

lemma feed_run:
  assumes "run_inv s" and "syslog_feed s bs = (s', ms)"
  shows "run_inv s' \<and> (\<exists>ls. buffer s @ bs = frames ls @ buffer s' \<and>
    ms = map (trim_right [CR]) ls \<and> list_all good_line ls)"
  using sd.feed_lossless [OF assms] run_frames_lines by metis

lemma vestige_good:
  "good_line (buffer s) \<Longrightarrow> Vestige s = (s\<lparr>buffer := []\<rparr>, (trim_right [CR, LF] (buffer s), True))"
proof -
  assume "good_line (buffer s)"
  then have "\<not> no_delim (buffer s)"
    by (auto simp: good_line_def starts_delim_def no_delim_def) (metis append_Nil)
  then obtain ij where "find_index syslogRegex (buffer s) = Some ij"
    using find_syslog_None by (metis not_None_eq)
  then show ?thesis by (simp add: Vestige_def)
qed

lemma feed_framed:
  assumes "no_delim junk" and "list_all good_line ms" and "good_line m"
  shows "syslog_feed (NewSyslogDelimiter n) (junk @ frames ms @ m) =
    (\<lparr>buffer = m, regex = RunRegex\<rparr>, map (trim_right [CR]) ms)"
proof -
  obtain u t where u: "frames ms @ m = u @ t" "is_delim u"
    using starts_delim_frames [OF assms(2,3)] by (auto simp: starts_delim_def)
  let ?s = "\<lparr>buffer = u, regex = RunRegex\<rparr>"
  obtain s' outs where f: "syslog_feed ?s t = (s', outs)" by fastforce
  have inv: "run_inv ?s" using u by (simp add: run_inv_def delim_no_run delim_starts)
  from feed_run [OF inv f] obtain ls where r: "run_inv s'" "u @ t = frames ls @ buffer s'"
    "outs = map (trim_right [CR]) ls" "list_all good_line ls" by auto
  then have "ls = ms \<and> buffer s' = m"
    using frames_unique [of ls "buffer s'" ms m] assms u by (simp add: run_inv_def good_line_def)
  with r f have "syslog_feed ?s t = (\<lparr>buffer = m, regex = RunRegex\<rparr>, map (trim_right [CR]) ms)"
    by (cases s') (simp add: run_inv_def)
  with feed_first [OF assms(1) u(2)] feed_append [of push_opt _ "junk @ u" t] u show ?thesis
    by simp
qed

lemma find_index_leftmost:
  assumes "find_index syslogRegex s = Some (a, b)"
  shows "no_delim (take a s)"
  unfolding no_delim_def
proof clarify
  fix pre u rest
  assume eq: "take a s = pre @ u @ rest" and d: "is_delim u"
  from assms obtain v cs where "a \<le> length s" and left: "\<And>k. k < a \<Longrightarrow> runs syslogRegex (drop k s) = []"
    by (elim find_index_Some) auto
  then have len: "a = length pre + (length u + length rest)" using eq
    by (metis length_append length_take min.absorb2)
  moreover have "u \<noteq> []" using d by (simp add: delim_last)
  ultimately have none: "runs syslogRegex (drop (length pre) s) = []" by (intro left) simp
  have "s = pre @ u @ (rest @ drop a s)" using eq by (metis append.assoc append_take_drop_id)
  then have "drop (length pre) s = u @ (rest @ drop a s)"
    by (metis append_eq_conv_conj)
  moreover have "matches syslogRegex u (rest @ drop a s) []"
    using d by (simp add: syslogRegex_def matches_syslog)
  ultimately show False using runs_complete none by fastforce
qed

lemma first_delim:
  assumes "\<not> no_delim s"
  obtains junk u rest where "s = junk @ u @ rest" and "is_delim u" and "no_delim junk"
proof -
  from assms obtain a b where f: "find_index syslogRegex s = Some (a, b)"
    using find_syslog_None by fastforce
  then obtain u cs where "s = take a s @ u @ drop b s" and "matches syslogRegex u (drop b s) cs"
    by (elim find_index_Some)
  with find_index_leftmost [OF f] show ?thesis
    using that by (auto simp: syslogRegex_def matches_syslog)
qed

text \<open>The predicates on lines, computed with the compiled expressions.\<close>

lemma no_delim_code [code]: "no_delim s \<longleftrightarrow> find_index syslogRegex s = None"
  by (simp add: find_syslog_None)

lemma no_run_code [code]: "no_run s \<longleftrightarrow> find_index runRegex s = None"
  by (simp add: find_run_None)

lemma starts_delim_code [code]: "starts_delim s \<longleftrightarrow> runs syslogRegex s \<noteq> []"
  by (auto simp: runs_empty_iff syslogRegex_def matches_syslog starts_delim_def)

section \<open>Properties\<close>

text \<open>
  C17. Framing round trip of \<open>SyslogDelimiter\<close>. Take any leading bytes without a delimiter, any
  lines that each begin with \<open><n>\<close> (one to three digits) and hold no line feed directly followed
  by such a delimiter, and send them separated by line feeds. A new delimiter hands out exactly
  these lines, in order, without trailing carriage returns, except the last, which \<open>Vestige\<close>
  then returns without trailing carriage returns and line feeds; the leading bytes are dropped and
  the buffer is empty afterwards.
\<close>

theorem syslog_framed_stream:
  assumes "no_delim junk" and "list_all good_line ms" and "good_line m"
  shows "\<exists>s'. syslog_feed (NewSyslogDelimiter n) (junk @ frames ms @ m) =
             (s', map (trim_right [CR]) ms) \<and>
           Vestige s' = (s'\<lparr>buffer := []\<rparr>, (trim_right [CR, LF] m, True))"
  using feed_framed [OF assms] vestige_good assms(3) by simp

theorem syslog_framed_stream_witness:
  "\<exists>s'. syslog_feed (NewSyslogDelimiter 256)
      (''root'' @ frames [''<12>1 a'' @ [CR], ''<145>1 b'' @ LF # ''c''] @ ''<6>2 d'') =
        (s', map (trim_right [CR]) [''<12>1 a'' @ [CR], ''<145>1 b'' @ LF # ''c'']) \<and>
      Vestige s' = (s'\<lparr>buffer := []\<rparr>, (trim_right [CR, LF] ''<6>2 d'', True))"
proof -
  have "no_delim ''root''" by code_simp
  moreover have "list_all good_line [''<12>1 a'' @ [CR], ''<145>1 b'' @ LF # ''c'']" by code_simp
  moreover have "good_line ''<6>2 d''" by code_simp
  ultimately show ?thesis by (rule syslog_framed_stream)
qed

text \<open>
  C18. \<open>SyslogDelimiter\<close> on an arbitrary byte stream. As long as no delimiter has arrived, nothing
  is handed out and every byte is kept. Afterwards the stream is the dropped leading bytes, the
  lines handed out, each with its line feed, and the buffer, in this order: nothing is lost,
  repeated or reordered; every line handed out and the buffer start with a delimiter, and none
  of them holds a line feed followed by a delimiter, so the stream is cut at every such place.
\<close>

theorem syslog_arbitrary_stream:
  "case syslog_feed (NewSyslogDelimiter n) bs of (s', ms) \<Rightarrow>
     if regex s' = StartRegex then ms = [] \<and> buffer s' = bs \<and> no_delim bs
     else \<exists>junk ls. bs = junk @ frames ls @ buffer s' \<and> ms = map (trim_right [CR]) ls \<and>
            no_delim junk \<and> list_all good_line ls \<and> good_line (buffer s')"
proof (cases "no_delim bs")
  case True
  then show ?thesis
    using feed_start [of "NewSyslogDelimiter n" bs] by (simp add: NewSyslogDelimiter_def)
next
  case False
  then obtain junk u rest where bs: "bs = junk @ u @ rest" and u: "is_delim u" and j: "no_delim junk"
    by (rule first_delim)
  let ?s = "\<lparr>buffer = u, regex = RunRegex\<rparr>"
  obtain s' ms where f: "syslog_feed ?s rest = (s', ms)" by fastforce
  have "run_inv ?s" using u by (simp add: run_inv_def delim_no_run delim_starts)
  from feed_run [OF this f] obtain ls where "run_inv s'" "u @ rest = frames ls @ buffer s'"
    "ms = map (trim_right [CR]) ls" "list_all good_line ls" by auto
  moreover from this have "good_line (buffer s')" by (simp add: run_inv_def good_line_def)
  moreover have "syslog_feed (NewSyslogDelimiter n) bs = (s', ms)"
    using feed_append [of push_opt _ "junk @ u" rest] feed_first [OF j u] f bs by simp
  ultimately show ?thesis using j bs by (auto simp: run_inv_def)
qed

end
