(* ===== verification/Collector.thy ===== *)
theory Collector
  imports Syslog_Delimiter Event
begin

text \<open>
  The collectors of \<open>input/collector.go\<close>: TCP connections, read byte by byte through the syslog
  delimiter, and UDP datagrams, both turned into events with a sequence number drawn from one
  counter of the package. The network is a sequence of read results; the channel the events are
  sent on is the list of events sent. One connection is a function; all goroutines together are a
  step relation that interleaves them.
\<close>

section \<open>Model\<close>

subsection \<open>NewCollector\<close>

text \<open>
  The resolver of UDP addresses is a parameter, and a TLS configuration a value of any type.
\<close>

record 't TCPCollector =
  iface :: string
  tcp_format :: string
  tcp_addr :: "string option"
  tlsConfig :: "'t option"

record 'a UDPCollector =
  udp_addr :: 'a
  udp_format :: string

datatype ('t, 'a) collector = TCPC "'t TCPCollector" | UDPC "'a UDPCollector"

definition NewCollector ::
  "(string \<Rightarrow> string + 'a) \<Rightarrow> string \<Rightarrow> string \<Rightarrow> string \<Rightarrow> 't option \<Rightarrow> string + ('t, 'a) collector" where
  "NewCollector resolve proto ifc fmt tls =
     (case NewParser fmt of
        Inl err \<Rightarrow> Inl err
      | Inr _ \<Rightarrow>
          if to_lower proto = ''tcp'' then Inr (TCPC \<lparr>iface = ifc, tcp_format = fmt, tcp_addr = None, tlsConfig = tls\<rparr>)
          else if to_lower proto = ''udp'' then
            (case resolve ifc of
               Inl err \<Rightarrow> Inl err
             | Inr a \<Rightarrow> Inr (UDPC \<lparr>udp_addr = a, udp_format = fmt\<rparr>))
          else Inl ''unsupport collector protocol'')"

text \<open>
  \<open>Start\<close> of a TCP collector up to its goroutine, which accepts connections: \<open>net.Listen\<close> and
  \<open>tls.Listen\<close> are parameters.
\<close>

definition TCPCollector_Start ::
  "(string \<Rightarrow> string + string) \<Rightarrow> ('t \<Rightarrow> string \<Rightarrow> string + string) \<Rightarrow> 't TCPCollector \<Rightarrow> 't TCPCollector \<times> string option" where
  "TCPCollector_Start listen tls_listen s =
     (case (case tlsConfig s of None \<Rightarrow> listen (iface s) | Some t \<Rightarrow> tls_listen t (iface s)) of
        Inl err \<Rightarrow> (s, Some err)
      | Inr a \<Rightarrow> (s\<lparr>tcp_addr := Some a\<rparr>, None))"

subsection \<open>The state of the package, and events\<close>

text \<open>
  \<open>out\<close> is what has been sent on the channel; \<open>made\<close> records the events in the order in which they
  drew their sequence number. The counters of the \<open>expvar\<close> map are 64-bit numbers.
\<close>

record input_state =
  sequenceNumber :: "64 word"
  stats :: "string \<Rightarrow> 64 word"
  out :: "Event list"
  made :: "Event list"

definition msgBufSize :: nat where "msgBufSize = 256"

definition stat :: "string \<Rightarrow> 64 word \<Rightarrow> input_state \<Rightarrow> input_state" where
  "stat k d g = g\<lparr>stats := (stats g)(k := stats g k + d)\<rparr>"

definition make_event :: "gtime \<Rightarrow> bytes \<Rightarrow> fields \<Rightarrow> string \<Rightarrow> input_state \<Rightarrow> input_state \<times> Event" where
  "make_event now txt res ip g =
     (let n = sequenceNumber g + 1;
          ev = \<lparr>Text = txt, Parsed = Some res, ReceptionTime = now, Sequence = n, SourceIP = ip, referenceTime = 0\<rparr>
      in (g\<lparr>sequenceNumber := n, made := made g @ [ev]\<rparr>, ev))"

subsection \<open>A TCP connection\<close>

datatype read_result = Byte byte | ReadTimeout | ReadEOF | ReadError

text \<open>
  The variables of \<open>handleConnection\<close>. \<open>pending\<close> is the event it is about to send on the channel;
  \<open>at_eof\<close> is \<open>err == io.EOF\<close>; \<open>closed\<close> holds after it has returned.
\<close>

record TCPConn =
  delimiter :: SyslogDelimiter
  parser :: LogHandler
  remote :: string
  pending :: "Event option"
  at_eof :: bool
  closed :: bool

text \<open>The beginning of \<open>handleConnection\<close>; \<^const>\<open>None\<close> is its panic.\<close>

definition tcp_accept :: "string \<Rightarrow> string \<Rightarrow> input_state \<Rightarrow> (input_state \<times> TCPConn) option" where
  "tcp_accept fmt ip g =
     (case NewParser fmt of
        Inl _ \<Rightarrow> None
      | Inr p \<Rightarrow> Some (stat ''tcpConnections'' 1 g,
          \<lparr>delimiter = NewSyslogDelimiter msgBufSize, parser = p, remote = ip, pending = None,
           at_eof = False, closed = False\<rparr>))"

text \<open>The deferred function.\<close>

definition tcp_close :: "input_state \<times> TCPConn \<Rightarrow> input_state \<times> TCPConn" where
  "tcp_close = (\<lambda>(g, c). (stat ''tcpConnections'' (- 1) g, c\<lparr>closed := True\<rparr>))"

definition tcp_check_eof :: "input_state \<times> TCPConn \<Rightarrow> input_state \<times> TCPConn" where
  "tcp_check_eof = (\<lambda>(g, c). if at_eof c then tcp_close (g, c) else (g, c))"

text \<open>The part of an iteration after the delimiter has answered \<open>log, match\<close>, up to the send.\<close>

definition tcp_log :: "gtime \<Rightarrow> bytes \<times> bool \<Rightarrow> input_state \<times> TCPConn \<Rightarrow> input_state \<times> TCPConn" where
  "tcp_log now = (\<lambda>(log, match) (g, c).
     if match then
       (let g1 = stat ''tcpEventsRx'' 1 g
        in case LogHandler_Parse (parser c) log of
             (p, True) \<Rightarrow>
               (case make_event now (Raw p) (Res p) (remote c) g1 of
                  (g2, ev) \<Rightarrow> (g2, c\<lparr>parser := p, pending := Some ev\<rparr>))
           | (p, False) \<Rightarrow> tcp_check_eof (g1, c\<lparr>parser := p\<rparr>))
     else tcp_check_eof (g, c))"

text \<open>An iteration up to the send on the channel: what the read returned, and the time.\<close>

fun tcp_read :: "gtime \<Rightarrow> read_result \<Rightarrow> input_state \<times> TCPConn \<Rightarrow> input_state \<times> TCPConn" where
  "tcp_read now (Byte b) (g, c) =
     (case Push (delimiter c) b of
        (d, r) \<Rightarrow> tcp_log now r (stat ''tcpBytesRead'' 1 g, c\<lparr>delimiter := d, at_eof := False\<rparr>))"
| "tcp_read now ReadTimeout (g, c) =
     (case Vestige (delimiter c) of
        (d, r) \<Rightarrow> tcp_log now r (stat ''tcpConnReadTimeout'' 1 (stat ''tcpConnReadError'' 1 g),
                                c\<lparr>delimiter := d, at_eof := False\<rparr>))"
| "tcp_read now ReadEOF (g, c) =
     (case Vestige (delimiter c) of
        (d, r) \<Rightarrow> tcp_log now r (stat ''tcpConnReadEOF'' 1 (stat ''tcpConnReadError'' 1 g),
                                c\<lparr>delimiter := d, at_eof := True\<rparr>))"
| "tcp_read now ReadError (g, c) =
     tcp_close (stat ''tcpConnUnrecoverError'' 1 (stat ''tcpConnReadError'' 1 g), c)"

text \<open>The send, and the rest of the iteration after it.\<close>

definition tcp_send :: "input_state \<times> TCPConn \<Rightarrow> input_state \<times> TCPConn" where
  "tcp_send = (\<lambda>(g, c).
     case pending c of
       None \<Rightarrow> (g, c)
     | Some ev \<Rightarrow> tcp_check_eof (g\<lparr>out := out g @ [ev]\<rparr>, c\<lparr>pending := None\<rparr>))"

text \<open>The loop of one connection, alone, on a list of read results and their times.\<close>

fun tcp_loop :: "input_state \<times> TCPConn \<Rightarrow> (read_result \<times> gtime) list \<Rightarrow> input_state \<times> TCPConn" where
  "tcp_loop s [] = s"
| "tcp_loop s ((r, t) # rs) = (if closed (snd s) then s else tcp_loop (tcp_send (tcp_read t r s)) rs)"

definition handleConnection ::
  "string \<Rightarrow> string \<Rightarrow> input_state \<Rightarrow> (read_result \<times> gtime) list \<Rightarrow> (input_state \<times> TCPConn) option" where
  "handleConnection fmt ip g rs = map_option (\<lambda>s. tcp_loop s rs) (tcp_accept fmt ip g)"

subsection \<open>UDP\<close>

text \<open>
  A datagram from an address, or a read that failed after \<open>n\<close> bytes. \<open>ReadFromUDP\<close> returns the part
  of the datagram that fits in the buffer.
\<close>

datatype datagram = Datagram string bytes | DatagramError nat

record UDPConn =
  uparser :: LogHandler
  upending :: "Event option"

definition udp_start :: "string \<Rightarrow> UDPConn option" where
  "udp_start fmt =
     (case NewParser fmt of Inl _ \<Rightarrow> None | Inr p \<Rightarrow> Some \<lparr>uparser = p, upending = None\<rparr>)"

text \<open>\<open>Start\<close> of a UDP collector: \<open>net.ListenUDP\<close>, a parameter, then the parser; \<^const>\<open>None\<close> is the panic.\<close>

definition UDPCollector_Start :: "('a \<Rightarrow> string option) \<Rightarrow> 'a UDPCollector \<Rightarrow> (string + UDPConn) option" where
  "UDPCollector_Start listen s =
     (case listen (udp_addr s) of
        Some err \<Rightarrow> Some (Inl err)
      | None \<Rightarrow> map_option Inr (udp_start (udp_format s)))"

definition udp_log :: "bytes \<Rightarrow> bytes" where
  "udp_log payload = trim [CR, LF] (take msgBufSize payload)"

fun udp_read :: "gtime \<Rightarrow> datagram \<Rightarrow> input_state \<times> UDPConn \<Rightarrow> input_state \<times> UDPConn" where
  "udp_read now (DatagramError n) (g, u) = (stat ''udpBytesRead'' (of_nat n) g, u)"
| "udp_read now (Datagram ip payload) (g, u) =
     (let g1 = stat ''udpBytesRead'' (of_nat (length (take msgBufSize payload))) g; log = udp_log payload
      in case LogHandler_Parse (uparser u) log of
           (p, True) \<Rightarrow>
             (case make_event now log (Res p) ip g1 of
                (g2, ev) \<Rightarrow> (g2, u\<lparr>uparser := p, upending := Some ev\<rparr>))
         | (p, False) \<Rightarrow> (stat ''udpEventsRx'' 1 g1, u\<lparr>uparser := p\<rparr>))"

definition udp_send :: "input_state \<times> UDPConn \<Rightarrow> input_state \<times> UDPConn" where
  "udp_send = (\<lambda>(g, u).
     case upending u of
       None \<Rightarrow> (g, u)
     | Some ev \<Rightarrow> (stat ''udpEventsRx'' 1 (g\<lparr>out := out g @ [ev]\<rparr>), u\<lparr>upending := None\<rparr>))"

fun udp_loop :: "input_state \<times> UDPConn \<Rightarrow> (datagram \<times> gtime) list \<Rightarrow> input_state \<times> UDPConn" where
  "udp_loop s [] = s"
| "udp_loop s ((d, t) # ds) = udp_loop (udp_send (udp_read t d s)) ds"

subsection \<open>All goroutines\<close>

datatype worker = TCP TCPConn | UDP UDPConn

record system =
  glob :: input_state
  workers :: "worker list"

text \<open>
  A goroutine runs undisturbed between two accesses to what it shares with others: it draws the
  sequence number in one step and sends the event in another.
\<close>

inductive sys_step :: "system \<Rightarrow> system \<Rightarrow> bool" where
  Accept: "tcp_accept fmt ip (glob s) = Some (g, c) \<Longrightarrow>
    sys_step s \<lparr>glob = g, workers = workers s @ [TCP c]\<rparr>"
| StartUDP: "udp_start fmt = Some u \<Longrightarrow> sys_step s (s\<lparr>workers := workers s @ [UDP u]\<rparr>)"
| Read: "\<lbrakk>i < length (workers s); workers s ! i = TCP c; \<not> closed c; pending c = None;
    tcp_read t r (glob s, c) = (g, c')\<rbrakk> \<Longrightarrow> sys_step s \<lparr>glob = g, workers = (workers s)[i := TCP c']\<rparr>"
| Send: "\<lbrakk>i < length (workers s); workers s ! i = TCP c; pending c \<noteq> None; tcp_send (glob s, c) = (g, c')\<rbrakk> \<Longrightarrow>
    sys_step s \<lparr>glob = g, workers = (workers s)[i := TCP c']\<rparr>"
| ReadUDP: "\<lbrakk>i < length (workers s); workers s ! i = UDP u; upending u = None;
    udp_read t d (glob s, u) = (g, u')\<rbrakk> \<Longrightarrow> sys_step s \<lparr>glob = g, workers = (workers s)[i := UDP u']\<rparr>"
| SendUDP: "\<lbrakk>i < length (workers s); workers s ! i = UDP u; upending u \<noteq> None; udp_send (glob s, u) = (g, u')\<rbrakk> \<Longrightarrow>
    sys_step s \<lparr>glob = g, workers = (workers s)[i := UDP u']\<rparr>"

text \<open>The package after \<open>init\<close>, with the sequence number set from the clock.\<close>

definition sys_init :: "64 word \<Rightarrow> system" where
  "sys_init n = \<lparr>glob = \<lparr>sequenceNumber = n, stats = (\<lambda>_. 0), out = [], made = []\<rparr>, workers = []\<rparr>"

section \<open>What one connection emits\<close>

lemma stat_simps [simp]:
  "sequenceNumber (stat k d g) = sequenceNumber g" "out (stat k d g) = out g" "made (stat k d g) = made g"
  "stats (stat k d g) k' = (if k = k' then stats g k + d else stats g k')"
  by (simp_all add: stat_def)

text \<open>What a parser makes of a line, and of many: the text and the fields of those it accepts.\<close>

definition parsed_line :: "LogParser \<Rightarrow> bytes \<Rightarrow> (bytes \<times> fields option) option" where
  "parsed_line lp l =
     (case LogParser_Parse lp l [] of (res, _) \<Rightarrow> if res = [] then None else Some (l, Some res))"

definition parsed_lines :: "LogParser \<Rightarrow> bytes list \<Rightarrow> (bytes \<times> fields option) list" where
  "parsed_lines lp ls = List.map_filter (parsed_line lp) ls"

lemma parsed_lines_simps [simp]:
  "parsed_lines lp [] = []"
  "parsed_lines lp (l # ls) = (case parsed_line lp l of None \<Rightarrow> [] | Some x \<Rightarrow> [x]) @ parsed_lines lp ls"
  "parsed_lines lp (ls @ ms) = parsed_lines lp ls @ parsed_lines lp ms"
  by (simp_all add: parsed_lines_def map_filter_def split: option.splits)

lemma LogHandler_Parse_cases:
  obtains (Fail) "parsed_line (Parser p) l = None" "LogHandler_Parse p l = (p\<lparr>Raw := l, Res := []\<rparr>, False)"
  | (Ok) res where "parsed_line (Parser p) l = Some (l, Some res)" "res \<noteq> []"
      "LogHandler_Parse p l = (p\<lparr>Raw := l, Res := res\<rparr>, True)"
proof (cases "LogParser_Parse (Parser p) l []")
  case (Pair res st)
  then show ?thesis
    using Fail Ok [of res] by (cases "res = []") (simp_all add: LogHandler_Parse_def parsed_line_def)
qed

definition numbers :: "64 word \<Rightarrow> nat \<Rightarrow> 64 word list" where
  "numbers n k = map (\<lambda>i. n + of_nat i) [1..<Suc k]"

lemma numbers_simps [simp]: "numbers n 0 = []" "numbers n (Suc k) = numbers n k @ [n + of_nat (Suc k)]"
  by (simp_all add: numbers_def)

lemma length_numbers [simp]: "length (numbers n k) = k"
  by (simp add: numbers_def)

lemma numbers_add: "numbers n (j + k) = numbers n j @ numbers (n + of_nat j) k"
  by (induction k) (simp_all add: algebra_simps)

text \<open>\<open>emitted lp ip ls g g'\<close>: from \<open>g\<close> to \<open>g'\<close>, one goroutine has sent the events of the lines \<open>ls\<close>.\<close>

definition emitted :: "LogParser \<Rightarrow> string \<Rightarrow> bytes list \<Rightarrow> input_state \<Rightarrow> input_state \<Rightarrow> bool" where
  "emitted lp ip ls g g' \<longleftrightarrow>
     (\<exists>evs. out g' = out g @ evs \<and> made g' = made g @ evs \<and>
        map (\<lambda>ev. (Text ev, Parsed ev)) evs = parsed_lines lp ls \<and>
        (\<forall>ev\<in>set evs. SourceIP ev = ip \<and> referenceTime ev = 0) \<and>
        map Sequence evs = numbers (sequenceNumber g) (length evs) \<and>
        sequenceNumber g' = sequenceNumber g + of_nat (length evs))"

lemma emitted_Nil [simp]:
  "emitted lp ip [] g g' \<longleftrightarrow> out g' = out g \<and> made g' = made g \<and> sequenceNumber g' = sequenceNumber g"
  by (auto simp: emitted_def)

lemma emitted_trans:
  assumes "emitted lp ip ls g g1" and "emitted lp ip ms g1 g2"
  shows "emitted lp ip (ls @ ms) g g2"
proof -
  from assms obtain es fs where
    "out g1 = out g @ es" "made g1 = made g @ es" "map (\<lambda>ev. (Text ev, Parsed ev)) es = parsed_lines lp ls"
    "\<forall>ev\<in>set es. SourceIP ev = ip \<and> referenceTime ev = 0" "map Sequence es = numbers (sequenceNumber g) (length es)"
    "sequenceNumber g1 = sequenceNumber g + of_nat (length es)"
    "out g2 = out g1 @ fs" "made g2 = made g1 @ fs" "map (\<lambda>ev. (Text ev, Parsed ev)) fs = parsed_lines lp ms"
    "\<forall>ev\<in>set fs. SourceIP ev = ip \<and> referenceTime ev = 0" "map Sequence fs = numbers (sequenceNumber g1) (length fs)"
    "sequenceNumber g2 = sequenceNumber g1 + of_nat (length fs)" unfolding emitted_def by blast
  then show ?thesis
    unfolding emitted_def by (intro exI [of _ "es @ fs"]) (auto simp: numbers_add add.assoc)
qed

text \<open>A connection between two iterations, and the effect of one.\<close>

definition tcp_idle :: "LogParser \<Rightarrow> string \<Rightarrow> TCPConn \<Rightarrow> bool" where
  "tcp_idle lp ip c \<longleftrightarrow> pending c = None \<and> \<not> closed c \<and> Parser (parser c) = lp \<and> remote c = ip"

lemma tcp_log_send:
  assumes "tcp_idle lp ip c"
  shows "\<exists>g' c'. tcp_send (tcp_log now (log, match) (g, c)) = (g', c') \<and> delimiter c' = delimiter c \<and>
    emitted lp ip (if match then [log] else []) g g' \<and> closed c' = at_eof c \<and>
    (\<not> at_eof c \<longrightarrow> tcp_idle lp ip c') \<and>
    (\<forall>k. stats g' k = stats g k + (if k = ''tcpEventsRx'' \<and> match then 1 else 0)
       - (if k = ''tcpConnections'' \<and> at_eof c then 1 else 0))"
proof (cases match)
  case False
  then show ?thesis
    using assms by (auto simp: tcp_log_def tcp_send_def tcp_check_eof_def tcp_close_def tcp_idle_def)
next
  case True
  show ?thesis
  proof (rule LogHandler_Parse_cases [of "parser c" log], goal_cases Fail Ok)
    case Fail
    then show ?thesis using assms True
      by (auto simp: tcp_log_def tcp_send_def tcp_check_eof_def tcp_close_def tcp_idle_def emitted_def Let_def)
  next
    case (Ok res)
    then show ?thesis using assms True
      by (auto simp: tcp_log_def tcp_send_def tcp_check_eof_def tcp_close_def tcp_idle_def emitted_def
          make_event_def Let_def)
  qed
qed

text \<open>The bytes of a stream, through the delimiter.\<close>

lemma tcp_bytes:
  assumes "map fst rs = map Byte bs" and "tcp_idle lp ip c" and "syslog_feed (delimiter c) bs = (d', ms)"
  shows "\<exists>g' c'. tcp_loop (g, c) rs = (g', c') \<and> tcp_idle lp ip c' \<and> delimiter c' = d' \<and> emitted lp ip ms g g' \<and>
    stats g' ''tcpBytesRead'' = stats g ''tcpBytesRead'' + of_nat (length bs) \<and>
    stats g' ''tcpEventsRx'' = stats g ''tcpEventsRx'' + of_nat (length ms) \<and>
    stats g' ''tcpConnections'' = stats g ''tcpConnections''"
  using assms
proof (induction rs arbitrary: bs g c ms)
  case Nil
  then show ?case by auto
next
  case (Cons x rs)
  then obtain b bs' t where b: "bs = b # bs'" "x = (Byte b, t)" "map fst rs = map Byte bs'" by (cases x) auto
  obtain d log match where d: "Push (delimiter c) b = (d, (log, match))" by (metis prod.exhaust)
  then have push: "push_opt (delimiter c) b = (d, if match then Some log else None)" by (simp add: push_opt_def)
  let ?g = "stat ''tcpBytesRead'' 1 g" and ?c = "c\<lparr>delimiter := d, at_eof := False\<rparr>"
  have idle: "tcp_idle lp ip ?c" "\<not> closed c" using Cons.prems(2) by (simp_all add: tcp_idle_def)
  from tcp_log_send [OF idle(1), of t log match ?g] obtain g1 c1 where
    1: "tcp_send (tcp_log t (log, match) (?g, ?c)) = (g1, c1)" "delimiter c1 = d"
      "emitted lp ip (if match then [log] else []) ?g g1" "tcp_idle lp ip c1"
      "\<forall>k. stats g1 k = stats ?g k + (if k = ''tcpEventsRx'' \<and> match then 1 else 0)" by auto
  obtain ms' where ms': "syslog_feed d bs' = (d', ms')" "ms = (if match then [log] else []) @ ms'"
    using Cons.prems(3) b(1) push by (auto split: prod.splits if_splits)
  from Cons.IH [OF b(3) 1(4), of ms'] ms'(1) 1(2) obtain g' c' where
    2: "tcp_loop (g1, c1) rs = (g', c')" "tcp_idle lp ip c'" "delimiter c' = d'" "emitted lp ip ms' g1 g'"
      "stats g' ''tcpBytesRead'' = stats g1 ''tcpBytesRead'' + of_nat (length bs')"
      "stats g' ''tcpEventsRx'' = stats g1 ''tcpEventsRx'' + of_nat (length ms')"
      "stats g' ''tcpConnections'' = stats g1 ''tcpConnections''" by blast
  have "emitted lp ip (if match then [log] else []) g g1" using 1(3) by (simp add: emitted_def)
  from emitted_trans [OF this 2(4)] have "emitted lp ip ms g g'" using ms'(2) by simp
  moreover have "tcp_loop (g, c) (x # rs) = (g', c')" using b d idle(2) 1(1) 2(1) by simp
  ultimately show ?case using 2 1(5) b(1) ms'(2) by auto
qed

text \<open>The end of the stream.\<close>

lemma tcp_eof:
  assumes "tcp_idle lp ip c" and "Vestige (delimiter c) = (d, (log, match))"
  shows "\<exists>g' c'. tcp_loop (g, c) [(ReadEOF, t)] = (g', c') \<and> closed c' \<and>
    emitted lp ip (if match then [log] else []) g g' \<and>
    stats g' ''tcpBytesRead'' = stats g ''tcpBytesRead'' \<and>
    stats g' ''tcpEventsRx'' = stats g ''tcpEventsRx'' + (if match then 1 else 0) \<and>
    stats g' ''tcpConnections'' = stats g ''tcpConnections'' - 1"
proof -
  let ?g = "stat ''tcpConnReadEOF'' 1 (stat ''tcpConnReadError'' 1 g)" and ?c = "c\<lparr>delimiter := d, at_eof := True\<rparr>"
  have idle: "tcp_idle lp ip ?c" "\<not> closed c" using assms(1) by (simp_all add: tcp_idle_def)
  from tcp_log_send [OF idle(1), of t log match ?g] obtain g1 c1 where
    1: "tcp_send (tcp_log t (log, match) (?g, ?c)) = (g1, c1)"
      "emitted lp ip (if match then [log] else []) ?g g1" "closed c1"
      "\<forall>k. stats g1 k = stats ?g k + (if k = ''tcpEventsRx'' \<and> match then 1 else 0) - (if k = ''tcpConnections'' then 1 else 0)"
    by auto
  moreover have "emitted lp ip (if match then [log] else []) g g1" using 1(2) by (simp add: emitted_def)
  ultimately show ?thesis using assms(2) idle(2) by simp
qed

lemma tcp_loop_closed: "closed (snd s) \<Longrightarrow> tcp_loop s rs = s"
  by (cases rs) auto

lemma tcp_loop_append: "tcp_loop s (xs @ ys) = tcp_loop (tcp_loop s xs) ys"
  by (induction s xs rule: tcp_loop.induct) (auto simp: tcp_loop_closed)

lemma tcp_stream:
  assumes "NewParser fmt = Inr p" and "no_delim junk" and "list_all good_line ms" and "good_line m"
    and "map fst rs = map Byte (junk @ frames ms @ m)"
  shows "\<exists>g' c'. handleConnection fmt ip g (rs @ [(ReadEOF, t)]) = Some (g', c') \<and> closed c' \<and>
    emitted (Parser p) ip (map (trim_right [CR]) ms @ [trim_right [CR, LF] m]) g g' \<and>
    stats g' ''tcpBytesRead'' = stats g ''tcpBytesRead'' + of_nat (length rs) \<and>
    stats g' ''tcpEventsRx'' = stats g ''tcpEventsRx'' + of_nat (length ms + 1) \<and>
    stats g' ''tcpConnections'' = stats g ''tcpConnections''"
proof -
  let ?g = "stat ''tcpConnections'' 1 g"
  let ?c = "\<lparr>delimiter = NewSyslogDelimiter msgBufSize, parser = p, remote = ip, pending = None, at_eof = False, closed = False\<rparr>"
  have acc: "tcp_accept fmt ip g = Some (?g, ?c)" by (simp add: tcp_accept_def assms(1))
  have idle: "tcp_idle (Parser p) ip ?c" by (simp add: tcp_idle_def)
  have feed: "syslog_feed (delimiter ?c) (junk @ frames ms @ m) = (\<lparr>buffer = m, regex = RunRegex\<rparr>, map (trim_right [CR]) ms)"
    using feed_framed [OF assms(2-4)] by simp
  from tcp_bytes [OF assms(5) idle feed, of ?g] obtain g1 c1 where
    1: "tcp_loop (?g, ?c) rs = (g1, c1)" "tcp_idle (Parser p) ip c1" "delimiter c1 = \<lparr>buffer = m, regex = RunRegex\<rparr>"
      "emitted (Parser p) ip (map (trim_right [CR]) ms) ?g g1"
      "stats g1 ''tcpBytesRead'' = stats ?g ''tcpBytesRead'' + of_nat (length (junk @ frames ms @ m))"
      "stats g1 ''tcpEventsRx'' = stats ?g ''tcpEventsRx'' + of_nat (length (map (trim_right [CR]) ms))"
      "stats g1 ''tcpConnections'' = stats ?g ''tcpConnections''" by blast
  have v: "Vestige (delimiter c1) = (\<lparr>buffer = [], regex = RunRegex\<rparr>, (trim_right [CR, LF] m, True))"
    unfolding 1(3) using vestige_good [of "\<lparr>buffer = m, regex = RunRegex\<rparr>"] assms(4) by simp
  from tcp_eof [OF 1(2) v, of g1 t] obtain g' c' where
    2: "tcp_loop (g1, c1) [(ReadEOF, t)] = (g', c')" "closed c'" "emitted (Parser p) ip [trim_right [CR, LF] m] g1 g'"
      "stats g' ''tcpBytesRead'' = stats g1 ''tcpBytesRead''" "stats g' ''tcpEventsRx'' = stats g1 ''tcpEventsRx'' + 1"
      "stats g' ''tcpConnections'' = stats g1 ''tcpConnections'' - 1" by auto
  have len: "length rs = length (junk @ frames ms @ m)" using assms(5) by (metis length_map)
  have "emitted (Parser p) ip (map (trim_right [CR]) ms) g g1" using 1(4) by (simp add: emitted_def)
  from emitted_trans [OF this 2(3)] acc 1 2 len show ?thesis
    by (auto simp: handleConnection_def tcp_loop_append)
qed

lemma udp_one:
  assumes "upending u = None" and "Parser (uparser u) = lp"
  shows "\<exists>g' u'. udp_send (udp_read t (Datagram ip payload) (g, u)) = (g', u') \<and> upending u' = None \<and>
    Parser (uparser u') = lp \<and> emitted lp ip [udp_log payload] g g' \<and>
    stats g' ''udpEventsRx'' = stats g ''udpEventsRx'' + 1"
proof (rule LogHandler_Parse_cases [of "uparser u" "udp_log payload"], goal_cases Fail Ok)
  case Fail
  then show ?thesis using assms by (auto simp: udp_send_def emitted_def Let_def)
next
  case (Ok res)
  then show ?thesis using assms by (auto simp: udp_send_def emitted_def make_event_def Let_def)
qed

section \<open>All goroutines\<close>

text \<open>An event as the parser of some format made it: it has a reference time.\<close>

definition parsed_event :: "Event \<Rightarrow> bool" where
  "parsed_event ev \<longleftrightarrow> referenceTime ev = 0 \<and> (\<exists>lp. parsed_line lp (Text ev) = Some (Text ev, Parsed ev))"

lemma parsed_event_time: "parsed_event ev \<Longrightarrow> \<exists>ev1 t. ReferenceTime ev = Some (ev1, t)"
proof -
  assume "parsed_event ev"
  then obtain lp where lp: "referenceTime ev = 0" "parsed_line lp (Text ev) = Some (Text ev, Parsed ev)"
    unfolding parsed_event_def by blast
  obtain res st where r: "LogParser_Parse lp (Text ev) [] = (res, st)" by fastforce
  with lp(2) have "res \<noteq> []" "Parsed ev = Some res" by (simp_all add: parsed_line_def split: if_splits)
  with LogParser_Parse_timestamp [OF r] obtain ts where "Parsed ev = Some res" "map_of res ''timestamp'' = Some (GStr ts)"
    by blast
  with lp(1) show ?thesis by (cases "parse_rfc3339 ts") (simp_all add: ReferenceTime_def IsZero_def)
qed

text \<open>The three effects a step of a goroutine can have on the shared state.\<close>

definition quiet :: "input_state \<Rightarrow> input_state \<Rightarrow> bool" where
  "quiet g g' \<longleftrightarrow> out g' = out g \<and> made g' = made g \<and> sequenceNumber g' = sequenceNumber g"

definition created :: "Event \<Rightarrow> input_state \<Rightarrow> input_state \<Rightarrow> bool" where
  "created ev g g' \<longleftrightarrow> out g' = out g \<and> made g' = made g @ [ev] \<and> sequenceNumber g' = sequenceNumber g + 1 \<and>
     Sequence ev = sequenceNumber g' \<and> parsed_event ev"

definition delivered :: "Event \<Rightarrow> input_state \<Rightarrow> input_state \<Rightarrow> bool" where
  "delivered ev g g' \<longleftrightarrow> out g' = out g @ [ev] \<and> made g' = made g \<and> sequenceNumber g' = sequenceNumber g"

lemmas effect_defs = quiet_def created_def delivered_def

lemma tcp_check_eof_effect:
  "tcp_check_eof (g, c) = (g', c') \<Longrightarrow> quiet g g' \<and> pending c' = pending c"
  by (auto simp: tcp_check_eof_def tcp_close_def quiet_def split: if_splits)

lemma tcp_log_effect:
  assumes "tcp_log t (log, match) (g, c) = (g', c')" and "pending c = None"
  shows "quiet g g' \<and> pending c' = None \<or> (\<exists>ev. created ev g g' \<and> pending c' = Some ev)"
proof (cases match)
  case False
  then show ?thesis using assms tcp_check_eof_effect [of g c g' c'] by (simp add: tcp_log_def)
next
  case True
  show ?thesis
  proof (rule LogHandler_Parse_cases [of "parser c" log], goal_cases Fail Ok)
    case Fail
    then show ?thesis
      using True assms tcp_check_eof_effect [of "stat ''tcpEventsRx'' 1 g" _ g' c']
      by (fastforce simp: tcp_log_def quiet_def Let_def)
  next
    case (Ok res)
    then show ?thesis
      using True assms by (fastforce simp: tcp_log_def created_def make_event_def parsed_event_def Let_def)
  qed
qed

lemma tcp_read_effect:
  assumes "tcp_read t r (g, c) = (g', c')" and "pending c = None"
  shows "quiet g g' \<and> pending c' = None \<or> (\<exists>ev. created ev g g' \<and> pending c' = Some ev)"
proof (cases "r = ReadError")
  case True
  then show ?thesis using assms by (auto simp: tcp_close_def quiet_def)
next
  case False
  then obtain g1 c1 log match where 1: "tcp_log t (log, match) (g1, c1) = (g', c')" "quiet g g1" "pending c1 = None"
    using assms by (cases r) (auto simp: quiet_def split: prod.splits)
  from tcp_log_effect [OF 1(1,3)] 1(2) show ?thesis by (auto simp: effect_defs)
qed

lemma tcp_send_effect:
  "tcp_send (g, c) = (g', c') \<Longrightarrow> pending c = Some ev \<Longrightarrow> delivered ev g g' \<and> pending c' = None"
  using tcp_check_eof_effect [of "g\<lparr>out := out g @ [ev]\<rparr>" "c\<lparr>pending := None\<rparr>" g' c']
  by (auto simp: tcp_send_def effect_defs)

lemma udp_read_effect:
  assumes "udp_read t d (g, u) = (g', u')" and "upending u = None"
  shows "quiet g g' \<and> upending u' = None \<or> (\<exists>ev. created ev g g' \<and> upending u' = Some ev)"
proof (cases d)
  case (DatagramError n)
  then show ?thesis using assms by (auto simp: quiet_def)
next
  case (Datagram ip payload)
  show ?thesis
  proof (rule LogHandler_Parse_cases [of "uparser u" "udp_log payload"], goal_cases Fail Ok)
    case Fail
    then show ?thesis using Datagram assms by (auto simp: quiet_def Let_def)
  next
    case (Ok res)
    then show ?thesis
      using Datagram assms by (fastforce simp: created_def make_event_def parsed_event_def Let_def)
  qed
qed

lemma udp_send_effect:
  "udp_send (g, u) = (g', u') \<Longrightarrow> upending u = Some ev \<Longrightarrow> delivered ev g g' \<and> upending u' = None"
  by (auto simp: udp_send_def delivered_def)

text \<open>The event a goroutine holds, and the invariant of all goroutines together.\<close>

fun holds :: "worker \<Rightarrow> Event option" where
  "holds (TCP c) = pending c"
| "holds (UDP u) = upending u"

definition held_events :: "worker list \<Rightarrow> Event list" where
  "held_events ws = List.map_filter holds ws"

definition collected :: "64 word \<Rightarrow> system \<Rightarrow> bool" where
  "collected n s \<longleftrightarrow>
     map Sequence (made (glob s)) = numbers n (length (made (glob s))) \<and>
     sequenceNumber (glob s) = n + of_nat (length (made (glob s))) \<and>
     mset (made (glob s)) = mset (out (glob s)) + mset (held_events (workers s)) \<and>
     (\<forall>ev\<in>set (made (glob s)). parsed_event ev)"

lemma held_events_snoc [simp]: "holds w = None \<Longrightarrow> held_events (ws @ [w]) = held_events ws"
  by (simp add: held_events_def map_filter_def)

lemma held_events_update:
  assumes "i < length ws"
  shows "mset (held_events (ws[i := w])) + mset_set (set_option (holds (ws ! i))) =
    mset (held_events ws) + mset_set (set_option (holds w))"
proof -
  have u: "ws[i := w] = take i ws @ w # drop (Suc i) ws" by (rule upd_conv_take_nth_drop [OF assms])
  have w: "ws = take i ws @ ws ! i # drop (Suc i) ws" by (rule id_take_nth_drop [OF assms])
  show ?thesis
    unfolding u by (subst (3) w) (auto simp: held_events_def map_filter_def split: option.splits)
qed

lemma collected_update:
  assumes "collected n s" and "i < length (workers s)" and "holds (workers s ! i) = h"
    and "h = None \<and> (quiet (glob s) g' \<and> holds w = None \<or> (\<exists>ev. created ev (glob s) g' \<and> holds w = Some ev)) \<or>
      (\<exists>ev. h = Some ev \<and> delivered ev (glob s) g' \<and> holds w = None)"
  shows "collected n \<lparr>glob = g', workers = (workers s)[i := w]\<rparr>"
  using assms(1,4) held_events_update [OF assms(2), of w] assms(3)
  by (auto simp: collected_def effect_defs)

lemma sys_step_collected: "sys_step s s' \<Longrightarrow> collected n s \<Longrightarrow> collected n s'"
proof (induction rule: sys_step.induct)
  case (Accept fmt ip s g c)
  then show ?case by (auto simp: tcp_accept_def collected_def split: sum.splits)
next
  case (StartUDP fmt u s)
  then show ?case by (auto simp: udp_start_def collected_def split: sum.splits)
next
  case (Read i s c t r g c')
  from tcp_read_effect [OF Read(5,4)] Read show ?case
    by (intro collected_update [where h = None]) auto
next
  case (Send i s c g c')
  then obtain ev where ev: "pending c = Some ev" by blast
  from tcp_send_effect [OF Send(4) ev] Send ev show ?case
    by (intro collected_update [where h = "Some ev"]) auto
next
  case (ReadUDP i s u t d g u')
  from udp_read_effect [OF ReadUDP(4,3)] ReadUDP show ?case
    by (intro collected_update [where h = None]) auto
next
  case (SendUDP i s u g u')
  then obtain ev where ev: "upending u = Some ev" by blast
  from udp_send_effect [OF SendUDP(4) ev] SendUDP ev show ?case
    by (intro collected_update [where h = "Some ev"]) auto
qed

lemma sys_reachable_collected: "sys_step\<^sup>*\<^sup>* (sys_init n) s \<Longrightarrow> collected n s"
proof (induction rule: rtranclp_induct)
  case base
  show ?case by (simp add: collected_def sys_init_def held_events_def)
next
  case (step s s')
  then show ?case using sys_step_collected by blast
qed

lemma distinct_numbers: "k < 2 ^ 64 \<Longrightarrow> distinct (numbers n k)"
proof -
  assume k: "k < 2 ^ 64"
  have "inj_on (\<lambda>i. n + of_nat i) {1..<Suc k}"
  proof (rule inj_onI)
    fix i j assume i: "i \<in> {1..<Suc k}" and j: "j \<in> {1..<Suc k}" and e: "n + of_nat i = n + (of_nat j :: 64 word)"
    from e have "(of_nat i :: 64 word) = of_nat j" by simp
    then have "unat (of_nat i :: 64 word) = unat (of_nat j :: 64 word)" by simp
    with i j k show "i = j" by (simp add: unat_of_nat)
  qed
  then show ?thesis unfolding numbers_def distinct_map set_upt by (simp only: distinct_upt simp_thms)
qed

lemma collected_ids:
  assumes c: "collected n s" and "length (made (glob s)) < 2 ^ 64"
  shows "distinct (map Sequence (out (glob s))) \<and> (\<exists>ids. map ID (out (glob s)) = map Some ids \<and> distinct (map snd ids))"
proof -
  from c have m: "mset (made (glob s)) = mset (out (glob s) @ held_events (workers s))" by (simp add: collected_def)
  have "distinct (map Sequence (made (glob s)))"
    using c distinct_numbers [OF assms(2)] by (simp add: collected_def)
  then have d: "distinct (map Sequence (out (glob s)))"
    using mset_eq_imp_distinct_iff [of "map Sequence (made (glob s))" "map Sequence (out (glob s) @ held_events (workers s))"] m
    by (metis distinct_append map_append mset_map)
  have "\<forall>ev\<in>set (out (glob s)). parsed_event ev"
    using c mset_eq_setD [OF m] by (auto simp: collected_def)
  then have ex: "\<forall>ev\<in>set (out (glob s)). \<exists>i. ID ev = Some i" using parsed_event_time by (fastforce simp: ID_def)
  let ?ids = "map (the \<circ> ID) (out (glob s))"
  have "snd (the (id_words (snd (the (ID ev))))) = Sequence ev" if "ev \<in> set (out (glob s))" for ev
    using ex that by (fastforce simp: ID_def)
  then have "map (\<lambda>x. snd (the (id_words x))) (map snd ?ids) = map Sequence (out (glob s))" by simp
  with d have "distinct (map snd ?ids)" by (metis distinct_map)
  moreover have "map ID (out (glob s)) = map Some ?ids" using ex by fastforce
  ultimately show ?thesis using d by blast
qed

section \<open>Well-formed messages\<close>

record syslog_msg =
  m_pri :: bytes
  m_ver :: byte
  m_ts :: bytes
  m_host :: bytes
  m_app :: bytes
  m_pid :: bytes
  m_id :: bytes
  m_text :: bytes

definition line_of :: "syslog_msg \<Rightarrow> bytes" where
  "line_of m = rfc5424_line (m_pri m) (m_ver m) (m_ts m) (m_host m) (m_app m) (m_pid m) (m_id m) (m_text m)"

definition fields_of :: "syslog_msg \<Rightarrow> fields" where
  "fields_of m =
     [(''priority'', GInt (int (dec_val (m_pri m)))), (''version'', GInt (int (digit_val (m_ver m)))),
      (''timestamp'', GStr (m_ts m)), (''host'', GStr (m_host m)), (''app'', GStr (m_app m)),
      (''pid'', GInt (if m_pid m = ''-'' then 0 else int (dec_val (m_pid m)))),
      (''message_id'', GStr (m_id m)), (''message'', GStr (m_text m))]"

text \<open>The fields are as the format asks, without a line feed, and the text does not end in a carriage return.\<close>

definition msg_ok :: "syslog_msg \<Rightarrow> bool" where
  "msg_ok m \<longleftrightarrow> pri_ok (m_pri m) \<and> is_digit (m_ver m) \<and> field_ok (m_ts m) \<and> field_ok (m_host m) \<and>
     field_ok (m_app m) \<and> pid_ok (m_pid m) \<and> is_id (m_id m) \<and> m_text m \<noteq> [] \<and> last (m_text m) \<noteq> CR \<and>
     LF \<notin> set (m_ts m @ m_host m @ m_app m @ m_text m)"

lemma line_of_good:
  assumes "msg_ok m"
  shows "good_line (line_of m)" and "trim_right [CR] (line_of m) = line_of m" and "trim_right [CR, LF] (line_of m) = line_of m"
proof -
  have pri: "list_all is_digit (m_pri m)" "1 \<le> length (m_pri m)" "length (m_pri m) \<le> 3"
    using assms by (simp_all add: msg_ok_def pri_ok_def)
  have "LF \<notin> set (m_pid m)" using assms digits_notin by (auto simp: msg_ok_def pid_ok_def)
  moreover have "LF \<notin> set (m_id m)" using assms by (auto simp: msg_ok_def is_id_def is_word_def is_digit_def list_all_iff)
  moreover have "LF \<noteq> m_ver m" using assms not_digit_simps(5) unfolding msg_ok_def by metis
  ultimately have lf: "LF \<notin> set (line_of m)"
    using assms digits_notin [OF pri(1)] by (auto simp: msg_ok_def line_of_def rfc5424_line_def)
  have l: "line_of m \<noteq> []" "last (line_of m) = last (m_text m)"
    using assms by (simp_all add: msg_ok_def line_of_def rfc5424_line_def)
  have "last (m_text m) \<noteq> LF" using assms unfolding msg_ok_def by (metis Un_iff last_in_set set_append)
  with l assms show "trim_right [CR] (line_of m) = line_of m" "trim_right [CR, LF] (line_of m) = line_of m"
    by (auto intro!: trim_right_id simp: msg_ok_def)
  have "is_delim (''<'' @ m_pri m @ ''>'')" using pri by (simp add: is_delim_def)
  then have "starts_delim (line_of m)"
    unfolding starts_delim_def line_of_def rfc5424_line_def by (metis append.assoc)
  moreover have "no_run (line_of m)" using lf by (auto simp: no_run_def)
  ultimately show "good_line (line_of m)" by (simp add: good_line_def)
qed

lemma parsed_line_of:
  assumes "msg_ok m"
  shows "parsed_line (RFC5424 RFC5424_Init) (line_of m) = Some (line_of m, Some (fields_of m))"
proof -
  let ?p = "\<lparr>Fmt = [], Raw = [], Res = [], Parser = RFC5424 RFC5424_Init\<rparr>"
  have "LogHandler_Parse ?p (line_of m) = (?p\<lparr>Raw := line_of m, Res := fields_of m\<rparr>, True)"
    unfolding line_of_def fields_of_def using assms by (intro LogHandler_Parse_line) (simp_all add: msg_ok_def)
  then show ?thesis
    by (cases "LogParser_Parse (RFC5424 RFC5424_Init) (line_of m) []")
      (auto simp: LogHandler_Parse_def parsed_line_def split: if_splits)
qed

lemma parsed_lines_of: "list_all msg_ok ms \<Longrightarrow>
    parsed_lines (RFC5424 RFC5424_Init) (map line_of ms) = map (\<lambda>m. (line_of m, Some (fields_of m))) ms"
  by (induction ms) (simp_all add: parsed_line_of)

section \<open>Properties\<close>

text \<open>
  C10. From the wire to events, for well-formed messages. A client connects to a collector for the
  format \<open>syslog\<close> (or \<open>RFC5424\<close>), sends RFC5424 messages separated by line feeds and closes, without
  a pause as long as the read timeout. The connection handler then returns and has sent exactly one
  event per message, in order, each with the message's line as its text, its fields, the client's
  address and the next sequence numbers; the connection, the bytes and the lines are counted.
\<close>

theorem tcp_delivers_messages:
  assumes "fmt = RFC5424Name \<or> fmt = RFC5424Standard" and "list_all msg_ok (ms @ [m])"
    and "map fst rs = map Byte (frames (map line_of ms) @ line_of m)"
  shows "\<exists>g' c' evs. handleConnection fmt ip g (rs @ [(ReadEOF, t)]) = Some (g', c') \<and> closed c' \<and>
    out g' = out g @ evs \<and>
    map (\<lambda>ev. (Text ev, Parsed ev)) evs = map (\<lambda>m. (line_of m, Some (fields_of m))) (ms @ [m]) \<and>
    (\<forall>ev\<in>set evs. SourceIP ev = ip) \<and>
    map Sequence evs = map (\<lambda>i. sequenceNumber g + of_nat i) [1..<length ms + 2] \<and>
    stats g' ''tcpBytesRead'' = stats g ''tcpBytesRead'' + of_nat (length rs) \<and>
    stats g' ''tcpEventsRx'' = stats g ''tcpEventsRx'' + of_nat (length ms + 1) \<and>
    stats g' ''tcpConnections'' = stats g ''tcpConnections''"
proof -
  obtain p where p: "NewParser fmt = Inr p" "Parser p = RFC5424 RFC5424_Init"
    using assms(1) NewParser_simps(1,2) by auto
  have g: "list_all good_line (map line_of ms)" "good_line (line_of m)" "no_delim []"
    using assms(2) line_of_good(1) by (auto simp: list_all_iff no_delim_def is_delim_def)
  have t: "map (trim_right [CR]) (map line_of ms) @ [trim_right [CR, LF] (line_of m)] = map line_of (ms @ [m])"
    using assms(2) line_of_good(2,3) by (auto simp: list_all_iff)
  from tcp_stream [OF p(1) g(3,1,2), of rs ip g t] assms(3) obtain g' c' where
    r: "handleConnection fmt ip g (rs @ [(ReadEOF, t)]) = Some (g', c')" "closed c'"
      "emitted (Parser p) ip (map line_of (ms @ [m])) g g'"
      "stats g' ''tcpBytesRead'' = stats g ''tcpBytesRead'' + of_nat (length rs)"
      "stats g' ''tcpEventsRx'' = stats g ''tcpEventsRx'' + of_nat (length ms + 1)"
      "stats g' ''tcpConnections'' = stats g ''tcpConnections''" unfolding t by auto
  from r(3) obtain evs where e: "out g' = out g @ evs"
      "map (\<lambda>ev. (Text ev, Parsed ev)) evs = map (\<lambda>m. (line_of m, Some (fields_of m))) (ms @ [m])"
      "\<forall>ev\<in>set evs. SourceIP ev = ip" "map Sequence evs = numbers (sequenceNumber g) (length evs)"
    unfolding emitted_def p(2) parsed_lines_of [OF assms(2)] by blast
  have "length evs = length (ms @ [m])" using arg_cong [OF e(2), of length] by simp
  then have "map Sequence evs = map (\<lambda>i. sequenceNumber g + of_nat i) [1..<length ms + 2]"
    unfolding e(4) numbers_def by simp
  with e(1-3) r(1,2,4-6) show ?thesis by blast
qed

definition a_msg :: "bytes \<Rightarrow> syslog_msg" where
  "a_msg txt = \<lparr>m_pri = ''134'', m_ver = CHR ''1'', m_ts = ''2003-08-24T05:14:15Z'', m_host = ''ubuntu'', m_app = ''sshd'',
     m_pid = ''1999'', m_id = ''-'', m_text = txt\<rparr>"

definition at_time :: "gtime \<Rightarrow> bytes \<Rightarrow> (read_result \<times> gtime) list" where
  "at_time t bs = map (\<lambda>b. (Byte b, t)) bs"

lemma a_msg_ok: "txt \<noteq> [] \<Longrightarrow> last txt \<noteq> CR \<Longrightarrow> LF \<notin> set txt \<Longrightarrow> msg_ok (a_msg txt)"
  by (simp add: a_msg_def msg_ok_def pri_ok_def field_ok_def pid_ok_def is_id_def is_word_def is_digit_def)

theorem tcp_delivers_messages_witness:
  "\<exists>g' c' evs. handleConnection ''syslog'' ''10.0.0.1:999'' (glob (sys_init 7))
      (at_time 5 (frames (map line_of [a_msg ''one'']) @ line_of (a_msg ''two'')) @ [(ReadEOF, 6)]) = Some (g', c') \<and>
    out g' = evs \<and> map Text evs = [line_of (a_msg ''one''), line_of (a_msg ''two'')] \<and> map Sequence evs = [8, 9]"
proof -
  let ?rs = "at_time 5 (frames (map line_of [a_msg ''one'']) @ line_of (a_msg ''two''))"
  have "list_all msg_ok ([a_msg ''one''] @ [a_msg ''two''])" using a_msg_ok by simp
  moreover have "map fst ?rs = map Byte (frames (map line_of [a_msg ''one'']) @ line_of (a_msg ''two''))"
    by (simp add: at_time_def comp_def)
  ultimately obtain g' c' evs where e: "handleConnection ''syslog'' ''10.0.0.1:999'' (glob (sys_init 7)) (?rs @ [(ReadEOF, 6)]) = Some (g', c')"
    "out g' = out (glob (sys_init 7)) @ evs"
    "map (\<lambda>ev. (Text ev, Parsed ev)) evs = map (\<lambda>m. (line_of m, Some (fields_of m))) ([a_msg ''one''] @ [a_msg ''two''])"
    "map Sequence evs = map (\<lambda>i. sequenceNumber (glob (sys_init 7)) + of_nat i) [1..<length [a_msg ''one''] + 2]"
    using tcp_delivers_messages [of "''syslog''" "[a_msg ''one'']" "a_msg ''two''" ?rs] by blast
  have "map fst (map (\<lambda>ev. (Text ev, Parsed ev)) evs) = [line_of (a_msg ''one''), line_of (a_msg ''two'')]"
    unfolding e(3) by simp
  then have "map Text evs = [line_of (a_msg ''one''), line_of (a_msg ''two'')]" by (simp add: comp_def)
  moreover have "map Sequence evs = [8, 9]" unfolding e(4) by (simp add: sys_init_def upt_rec)
  ultimately show ?thesis using e(1,2) by (auto simp: sys_init_def)
qed

text \<open>
  C11. Sequence numbers. However the goroutines of any number of TCP connections and UDP collectors
  interleave, every event made has been sent once or is held by the goroutine that made it; the
  events drew consecutive numbers from the counter; and as long as fewer than \<open>2 ^ 64\<close> were made, no
  two events sent have the same number, hence no two have the same document ID, and computing the
  ID never panics.
\<close>

theorem collected_events_distinct:
  assumes "sys_step\<^sup>*\<^sup>* (sys_init n) s" and "length (made (glob s)) < 2 ^ 64"
  shows "mset (made (glob s)) = mset (out (glob s)) + mset (held_events (workers s)) \<and>
    map Sequence (made (glob s)) = map (\<lambda>i. n + of_nat i) [1..<Suc (length (made (glob s)))] \<and>
    distinct (map Sequence (out (glob s))) \<and>
    (\<exists>ids. map ID (out (glob s)) = map Some ids \<and> distinct (map snd ids))"
proof -
  have c: "collected n s" by (rule sys_reachable_collected [OF assms(1)])
  with collected_ids [OF c assms(2)] show ?thesis unfolding collected_def numbers_def by blast
qed

lemma udp_log_line: "length l \<le> msgBufSize \<Longrightarrow> l = CHR ''<'' # r \<Longrightarrow> trim_right [CR, LF] l = l \<Longrightarrow> udp_log l = l"
  by (simp add: udp_log_def trim_def trim_left_def)

lemma one_datagram_collected:
  "\<exists>s. sys_step\<^sup>*\<^sup>* (sys_init n) s \<and> length (made (glob s)) = 1 \<and>
    (\<exists>ev. out (glob s) = [ev] \<and> Text ev = line_of (a_msg ''x'') \<and> Parsed ev = Some (fields_of (a_msg ''x'')) \<and>
      referenceTime ev = 0)"
proof -
  let ?m = "a_msg ''x''"
  have ok: "msg_ok ?m" by (rule a_msg_ok) simp_all
  have log: "udp_log (line_of ?m) = line_of ?m"
    by (rule udp_log_line [OF _ _ line_of_good(3) [OF ok]])
      (simp_all add: line_of_def a_msg_def rfc5424_line_def msgBufSize_def)
  obtain p where p: "NewParser ''syslog'' = Inr p" "Parser p = RFC5424 RFC5424_Init" using NewParser_simps(1) by simp
  let ?u = "\<lparr>uparser = p, upending = None\<rparr>"
  have 1: "sys_step (sys_init n) ((sys_init n)\<lparr>workers := workers (sys_init n) @ [UDP ?u]\<rparr>)" (is "sys_step _ ?s")
    by (rule sys_step.StartUDP [of "''syslog''"]) (simp add: udp_start_def p(1))
  have w: "workers ?s = [UDP ?u]" by (simp add: sys_init_def)
  obtain g u where r: "udp_read 5 (Datagram ''h'' (line_of ?m)) (glob ?s, ?u) = (g, u)" by fastforce
  have "sys_step ?s \<lparr>glob = g, workers = (workers ?s)[0 := UDP u]\<rparr>" (is "sys_step _ ?t")
    by (rule sys_step.ReadUDP [OF _ _ _ r]) (simp_all add: w)
  moreover obtain g' u' where d: "udp_send (g, u) = (g', u')" by fastforce
  have ex: "\<exists>lp. parsed_line lp (line_of ?m) = Some (line_of ?m, Some (fields_of ?m))" using parsed_line_of [OF ok] by blast
  obtain ev where ev: "created ev (glob ?s) g" "upending u = Some ev" "Text ev = line_of ?m"
    "Parsed ev = Some (fields_of ?m)" "referenceTime ev = 0"
    using r parsed_line_of [OF ok]
    by (cases rule: LogHandler_Parse_cases [of p "line_of ?m"])
      (auto simp: log p(2) make_event_def created_def parsed_event_def Let_def ex)
  have "sys_step ?t \<lparr>glob = g', workers = (workers ?t)[0 := UDP u']\<rparr>"
    by (rule sys_step.SendUDP [of 0 _ u]) (simp_all add: w ev(2) d)
  ultimately have "sys_step\<^sup>*\<^sup>* (sys_init n) \<lparr>glob = g', workers = (workers ?t)[0 := UDP u']\<rparr>" (is "sys_step\<^sup>*\<^sup>* _ ?last")
    using 1 by (meson converse_rtranclp_into_rtranclp rtranclp.rtrancl_refl)
  moreover have "out (glob ?last) = [ev]" "made (glob ?last) = [ev]"
    using udp_send_effect [OF d ev(2)] ev(1) by (simp_all add: effect_defs sys_init_def)
  ultimately show ?thesis using ev(3-5) by (intro exI [of _ ?last] conjI exI [of _ ev]) simp_all
qed

theorem collected_events_distinct_witness:
  "\<exists>s. sys_step\<^sup>*\<^sup>* (sys_init 7) s \<and> map Text (out (glob s)) = [line_of (a_msg ''x'')] \<and>
    distinct (map Sequence (out (glob s))) \<and>
    (\<exists>ids. map ID (out (glob s)) = map Some ids \<and> distinct (map snd ids))"
proof -
  obtain s ev where ev: "sys_step\<^sup>*\<^sup>* (sys_init 7) s" "length (made (glob s)) = 1" "out (glob s) = [ev]"
    "Text ev = line_of (a_msg ''x'')" using one_datagram_collected [of 7] by (elim exE conjE) (rule that)
  then have s: "sys_step\<^sup>*\<^sup>* (sys_init 7) s" "map Text (out (glob s)) = [line_of (a_msg ''x'')]" by simp_all
  from ev have "length (made (glob s)) < 2 ^ 64" by simp
  from collected_events_distinct [OF s(1) this] s(1,2) show ?thesis by (intro exI [of _ s] conjI) (elim conjE, assumption)+
qed

fun udp_event :: "LogParser \<Rightarrow> datagram \<Rightarrow> (bytes \<times> fields option \<times> string) option" where
  "udp_event lp (DatagramError n) = None"
| "udp_event lp (Datagram ip payload) =
     map_option (\<lambda>(l, f). (l, f, ip)) (parsed_line lp (trim [CR, LF] (take 256 payload)))"

fun is_datagram :: "datagram \<Rightarrow> bool" where
  "is_datagram (Datagram _ _) = True"
| "is_datagram (DatagramError _) = False"

lemma udp_loop_events:
  assumes "upending u = None" and "Parser (uparser u) = lp"
  shows "\<exists>g' u' evs. udp_loop (g, u) ds = (g', u') \<and> out g' = out g @ evs \<and>
    map (\<lambda>ev. (Text ev, Parsed ev, SourceIP ev)) evs = List.map_filter (udp_event lp) (map fst ds) \<and>
    stats g' ''udpEventsRx'' = stats g ''udpEventsRx'' + of_nat (length (filter is_datagram (map fst ds)))"
  using assms
proof (induction ds arbitrary: g u)
  case (Cons x ds)
  obtain d t where x: "x = (d, t)" by (cases x)
  show ?case
  proof (cases d)
    case (DatagramError n)
    with Cons.IH [OF Cons.prems, of "stat ''udpBytesRead'' (of_nat n) g"] x Cons.prems show ?thesis
      by (simp add: udp_send_def)
  next
    case (Datagram ip payload)
    from udp_one [OF Cons.prems, of t ip payload g] obtain g1 u1 where
      1: "udp_send (udp_read t (Datagram ip payload) (g, u)) = (g1, u1)" "upending u1 = None"
        "Parser (uparser u1) = lp" "emitted lp ip [udp_log payload] g g1"
        "stats g1 ''udpEventsRx'' = stats g ''udpEventsRx'' + 1" by blast
    from 1(4) obtain es where es: "out g1 = out g @ es"
      "map (\<lambda>ev. (Text ev, Parsed ev)) es = (case parsed_line lp (udp_log payload) of None \<Rightarrow> [] | Some y \<Rightarrow> [y])"
      "\<forall>ev\<in>set es. SourceIP ev = ip" by (auto simp: emitted_def)
    then have e: "map (\<lambda>ev. (Text ev, Parsed ev, SourceIP ev)) es =
        (case udp_event lp (Datagram ip payload) of None \<Rightarrow> [] | Some y \<Rightarrow> [y])"
      by (auto simp: udp_log_def msgBufSize_def split: option.splits)
    from Cons.IH [OF 1(2,3), of g1] obtain g' u' fs where
      2: "udp_loop (g1, u1) ds = (g', u')" "out g' = out g1 @ fs"
        "map (\<lambda>ev. (Text ev, Parsed ev, SourceIP ev)) fs = List.map_filter (udp_event lp) (map fst ds)"
        "stats g' ''udpEventsRx'' = stats g1 ''udpEventsRx'' + of_nat (length (filter is_datagram (map fst ds)))" by blast
    have "map (\<lambda>ev. (Text ev, Parsed ev, SourceIP ev)) (es @ fs) = List.map_filter (udp_event lp) (map fst (x # ds))"
      unfolding map_append e 2(3) using x Datagram by (simp split: option.splits)
    moreover have "udp_loop (g, u) (x # ds) = (g', u')" using x Datagram 1(1) 2(1) by simp
    ultimately show ?thesis using x Datagram 1(5) 2(2,4) es(1) by (intro exI [of _ g'] exI [of _ u'] exI [of _ "es @ fs"]) simp
  qed
qed simp

text \<open>
  C36. UDP. The loop of a UDP collector sends, in order, one event for each datagram whose text the
  parser accepts, with the sender's address. That text is the first \<open>msgBufSize\<close> (256) bytes of
  the datagram, without carriage returns and line feeds at both ends: what follows is dropped
  silently. Every datagram read is counted, accepted or not, and a failed read is skipped.
\<close>

theorem udp_datagram_events:
  assumes "NewParser fmt = Inr p"
  shows "\<exists>u g' u' evs. udp_start fmt = Some u \<and> udp_loop (g, u) ds = (g', u') \<and> out g' = out g @ evs \<and>
    map (\<lambda>ev. (Text ev, Parsed ev, SourceIP ev)) evs = List.map_filter (udp_event (Parser p)) (map fst ds) \<and>
    stats g' ''udpEventsRx'' = stats g ''udpEventsRx'' + of_nat (length (filter is_datagram (map fst ds)))"
  using udp_loop_events [of "\<lparr>uparser = p, upending = None\<rparr>" "Parser p" g ds] assms
  by (simp add: udp_start_def)

theorem udp_datagram_events_witness:
  "\<exists>u g' u' evs. udp_start ''syslog'' = Some u \<and>
    udp_loop (glob (sys_init 7), u) [(DatagramError 0, 1), (Datagram ''h'' (line_of (a_msg ''x'') @ [LF]), 2)] = (g', u') \<and>
    out g' = evs \<and> map (\<lambda>ev. (Text ev, SourceIP ev)) evs = [(line_of (a_msg ''x''), ''h'')]"
proof -
  let ?ds = "[(DatagramError 0, 1 :: gtime), (Datagram ''h'' (line_of (a_msg ''x'') @ [LF]), 2)]"
  have log: "trim [CR, LF] (take 256 (line_of (a_msg ''x'') @ [LF])) = line_of (a_msg ''x'')"
    by (simp add: line_of_def a_msg_def rfc5424_line_def trim_def trim_left_def trim_right_def)
  have "parsed_line (RFC5424 RFC5424_Init) (line_of (a_msg ''x'')) = Some (line_of (a_msg ''x''), Some (fields_of (a_msg ''x'')))"
    by (rule parsed_line_of [OF a_msg_ok]) simp_all
  then have e: "List.map_filter (udp_event (RFC5424 RFC5424_Init)) (map fst ?ds) =
      [(line_of (a_msg ''x''), Some (fields_of (a_msg ''x'')), ''h'')]"
    by (simp only: list.map fst_conv map_filter_simps udp_event.simps log option.map option.case prod.case)
  from udp_datagram_events [OF NewParser_simps(1), of "glob (sys_init 7)" ?ds] obtain u g' u' evs where
    r: "udp_start ''syslog'' = Some u" "udp_loop (glob (sys_init 7), u) ?ds = (g', u')" "out g' = out (glob (sys_init 7)) @ evs"
      "map (\<lambda>ev. (Text ev, Parsed ev, SourceIP ev)) evs = [(line_of (a_msg ''x''), Some (fields_of (a_msg ''x'')), ''h'')]"
    unfolding LogHandler.simps e by (elim exE conjE) (rule that)
  have "map (\<lambda>(t, f, ip). (t, ip)) (map (\<lambda>ev. (Text ev, Parsed ev, SourceIP ev)) evs) = [(line_of (a_msg ''x''), ''h'')]"
    unfolding r(4) by simp
  then have "map (\<lambda>ev. (Text ev, SourceIP ev)) evs = [(line_of (a_msg ''x''), ''h'')]" by (simp add: comp_def)
  moreover have "out g' = evs" using r(3) by (simp add: sys_init_def)
  ultimately show ?thesis
    using r(1,2) by (intro exI [of _ u] exI [of _ g'] exI [of _ u'] exI [of _ evs] conjI)
qed

text \<open>
  C37. Created collectors are usable. \<open>NewCollector\<close> fails exactly for an unknown format, a protocol
  other than TCP and UDP (in any case of letters) and, for UDP, an address that does not resolve; a
  collector it returns has the protocol, interface and format asked for, and starting to handle
  connections or datagrams with that format never panics.
\<close>

theorem new_collector_usable:
  "if ValidFormat fmt \<and> to_lower proto = ''tcp'' then
     (\<exists>c. NewCollector resolve proto ifc fmt tls = Inr (TCPC c) \<and> iface c = ifc \<and> tcp_format c = fmt \<and> tlsConfig c = tls \<and>
        (\<forall>ip g rs. \<exists>s. handleConnection (tcp_format c) ip g rs = Some s))
   else if ValidFormat fmt \<and> to_lower proto = ''udp'' then
     (case resolve ifc of
        Inl err \<Rightarrow> NewCollector resolve proto ifc fmt tls = Inl err
      | Inr a \<Rightarrow> \<exists>c u. NewCollector resolve proto ifc fmt tls = Inr (UDPC c) \<and> udp_addr c = a \<and> udp_format c = fmt \<and>
          udp_start (udp_format c) = Some u)
   else \<exists>err. NewCollector resolve proto ifc fmt tls = Inl err"
proof (cases "ValidFormat fmt")
  case True
  then obtain p where "NewParser fmt = Inr p"
    using NewParser_simps by (auto simp: ValidFormat_def supportedFormats_def)
  with True show ?thesis
    by (auto simp: NewCollector_def handleConnection_def tcp_accept_def udp_start_def split: sum.splits)
next
  case False
  then show ?thesis by (simp add: NewCollector_def NewParser_def)
qed

text \<open>
  A TLS configuration is ignored for UDP: the collector is the same, and not secure.
\<close>

lemma udp_ignores_tls:
  "to_lower proto = ''udp'' \<Longrightarrow> NewCollector resolve proto ifc fmt (Some t) = NewCollector resolve proto ifc fmt None"
  by (simp add: NewCollector_def split: sum.splits)

end
