(* ===== verification/Batcher.thy ===== *)
theory Batcher
  imports Event Storage
begin

text \<open>
  The batcher of \<open>engine.go\<close>: a goroutine that collects events from a channel and hands them to an
  \<open>EventIndexer\<close>, when it has a full batch or when a timer runs out. It is a state machine; its steps
  are those of the goroutine's \<open>select\<close> and of its environment (a producer sends an event, the timer
  fires). The indexer is a parameter. Shows that no event is lost, duplicated or reordered between
  the channel and the indexer; that without indexer errors a waiting batch always has a timer, so
  that all events are delivered once the producers pause; and that after an error at a full batch,
  with no tick of the timer pending, the batcher never calls the indexer again.
\<close>

section \<open>Model\<close>

text \<open>
  \<open>bduration\<close> is what the timer is set to; when it fires is up to the environment. \<open>armed\<close>: the timer runs; \<open>tick\<close>: it has fired and its channel holds the time. \<open>Stop\<close> and \<open>Reset\<close> do
  not drain the channel. The error channel is not nil and always drained, as in the daemon, so
  that sending on it does not block; \<open>errChan\<close> lists what was sent. \<open>ixs\<close> is the state of the indexer. The last three fields record history:
  the events sent to the batcher, the batches the indexer accepted, the number of calls to it.
\<close>

record 'w Batcher =
  bsize :: nat
  bduration :: duration
  cap :: nat
  chan :: "Event list"
  batch :: "Event list"
  armed :: bool
  tick :: bool
  ixs :: 'w
  batchIndexed :: nat
  batchIndexedError :: nat
  batchTimeout :: nat
  eventsIndexed :: nat
  errChan :: "go_error option list"
  sent :: "Event list"
  accepted :: "Event list list"
  calls :: nat

type_synonym 'w indexer = "'w \<Rightarrow> Event list \<Rightarrow> ('w \<times> go_error option) option"

definition NewBatcher :: "'w \<Rightarrow> nat \<Rightarrow> duration \<Rightarrow> nat \<Rightarrow> 'w Batcher" where
  "NewBatcher e n dur mx = \<lparr>bsize = n, bduration = dur, cap = mx, chan = [], batch = [], armed = False, tick = False, ixs = e,
     batchIndexed = 0, batchIndexedError = 0, batchTimeout = 0, eventsIndexed = 0, errChan = [],
     sent = [], accepted = [], calls = 0\<rparr>"

text \<open>The closure \<open>send\<close>. It panics when the indexer does.\<close>

definition send :: "'w indexer \<Rightarrow> 'w Batcher \<Rightarrow> 'w Batcher option" where
  "send index b =
     (case index (ixs b) (batch b) of
        None \<Rightarrow> None
      | Some (x, Some err) \<Rightarrow>
          Some (b\<lparr>ixs := x, batchIndexedError := batchIndexedError b + 1, calls := calls b + 1\<rparr>)
      | Some (x, None) \<Rightarrow>
          Some (b\<lparr>ixs := x, batchIndexed := batchIndexed b + 1,
                 eventsIndexed := eventsIndexed b + length (batch b), errChan := errChan b @ [None],
                 batch := [], accepted := accepted b @ [batch b], calls := calls b + 1\<rparr>))"

text \<open>The case \<open>event := <-b.c\<close> of the select.\<close>

definition receive :: "'w indexer \<Rightarrow> 'w Batcher \<Rightarrow> Event \<Rightarrow> 'w Batcher option" where
  "receive index b ev =
     (let b1 = b\<lparr>batch := batch b @ [ev]\<rparr>;
          b2 = (if length (batch b1) = 1 then b1\<lparr>armed := True\<rparr> else b1)
      in if length (batch b2) = bsize b2 then send index (b2\<lparr>armed := False\<rparr>) else Some b2)"

text \<open>The case \<open><-timer.C\<close>.\<close>

definition timeout :: "'w indexer \<Rightarrow> 'w Batcher \<Rightarrow> 'w Batcher option" where
  "timeout index b = send index (b\<lparr>tick := False, batchTimeout := batchTimeout b + 1\<rparr>)"

text \<open>
  The steps of the goroutine and of the timer (\<open>run\<close>), and those of the producers: a send fills the channel, or, if
  that has no buffer, hands the event to the goroutine.
\<close>

inductive run :: "'w indexer \<Rightarrow> 'w Batcher \<Rightarrow> 'w Batcher \<Rightarrow> bool" for index where
  Receive: "chan b = ev # q \<Longrightarrow> receive index (b\<lparr>chan := q\<rparr>) ev = Some b' \<Longrightarrow> run index b b'"
| Timeout: "tick b \<Longrightarrow> timeout index b = Some b' \<Longrightarrow> run index b b'"
| Fire: "armed b \<Longrightarrow> run index b (b\<lparr>armed := False, tick := True\<rparr>)"

inductive step :: "'w indexer \<Rightarrow> 'w Batcher \<Rightarrow> 'w Batcher \<Rightarrow> bool" for index where
  Produce: "length (chan b) < cap b \<Longrightarrow> step index b (b\<lparr>chan := chan b @ [ev], sent := sent b @ [ev]\<rparr>)"
| Handoff: "cap b = 0 \<Longrightarrow> receive index (b\<lparr>sent := sent b @ [ev]\<rparr>) ev = Some b' \<Longrightarrow> step index b b'"
| Run: "run index b b' \<Longrightarrow> step index b b'"

inductive_cases runE: "run index b b'"
inductive_cases stepE: "step index b b'"

inductive reachable :: "'w indexer \<Rightarrow> 'w Batcher \<Rightarrow> 'w Batcher \<Rightarrow> bool" for index b0 where
  Start: "reachable index b0 b0"
| Step: "reachable index b0 b \<Longrightarrow> step index b b' \<Longrightarrow> reachable index b0 b'"

section \<open>What one step does\<close>

lemma send_cases:
  assumes "send index b = Some b'"
  obtains (Error) x err where "index (ixs b) (batch b) = Some (x, Some err)"
      "b' = b\<lparr>ixs := x, batchIndexedError := batchIndexedError b + 1, calls := calls b + 1\<rparr>"
  | (Ok) x where "index (ixs b) (batch b) = Some (x, None)"
      "b' = b\<lparr>ixs := x, batchIndexed := batchIndexed b + 1, eventsIndexed := eventsIndexed b + length (batch b),
        errChan := errChan b @ [None], batch := [], accepted := accepted b @ [batch b], calls := calls b + 1\<rparr>"
  using assms by (auto simp: send_def split: option.splits)

lemma receive_cases:
  assumes "receive index b ev = Some b'"
  obtains (Full) "length (batch b) + 1 = bsize b"
      "send index (b\<lparr>batch := batch b @ [ev], armed := False\<rparr>) = Some b'"
  | (More) "length (batch b) + 1 \<noteq> bsize b" "b' = b\<lparr>batch := batch b @ [ev], armed := (batch b = [] \<or> armed b)\<rparr>"
  using assms by (auto simp: receive_def Let_def split: if_splits)

text \<open>
  Conservation: what was sent is what was accepted by the indexer, then the current batch, then the
  channel, in this order; the counters count accordingly.
\<close>

definition conserved :: "'w Batcher \<Rightarrow> bool" where
  "conserved b \<longleftrightarrow> sent b = concat (accepted b) @ batch b @ chan b \<and> length (chan b) \<le> cap b \<and>
     eventsIndexed b = length (concat (accepted b)) \<and> batchIndexed b = length (accepted b) \<and>
     errChan b = replicate (length (accepted b)) None \<and> calls b = batchIndexed b + batchIndexedError b"

lemma send_conserved: "send index b = Some b' \<Longrightarrow> conserved b \<Longrightarrow> conserved b'"
  by (erule send_cases) (auto simp: conserved_def replicate_append_same)

lemma receive_conserved: "receive index b ev = Some b' \<Longrightarrow> conserved (b\<lparr>batch := batch b @ [ev]\<rparr>) \<Longrightarrow> conserved b'"
proof (erule receive_cases)
  assume c: "conserved (b\<lparr>batch := batch b @ [ev]\<rparr>)" and "send index (b\<lparr>batch := batch b @ [ev], armed := False\<rparr>) = Some b'"
  then show ?thesis by (elim send_conserved) (simp add: conserved_def)
qed (simp add: conserved_def)

lemma step_conserved: "step index b b' \<Longrightarrow> conserved b \<Longrightarrow> conserved b'"
proof (induction rule: step.induct)
  case (Produce b ev)
  then show ?case by (simp add: conserved_def)
next
  case (Handoff b ev b')
  then show ?case by (intro receive_conserved [OF Handoff.hyps(2)]) (simp add: conserved_def)
next
  case (Run b b')
  from Run.hyps Run.prems show ?case
  proof (cases rule: run.cases)
    case (Receive ev q)
    then show ?thesis using Run.prems by (intro receive_conserved [OF Receive(2)]) (simp add: conserved_def)
  next
    case Timeout
    show ?thesis
      by (rule send_conserved [OF Timeout(2) [unfolded timeout_def]]) (use Run.prems in \<open>simp add: conserved_def\<close>)
  qed (auto simp: conserved_def)
qed

lemma reachable_conserved: "reachable index b0 b \<Longrightarrow> conserved b0 \<Longrightarrow> conserved b"
  by (induction rule: reachable.induct) (auto intro: step_conserved)

lemma new_conserved: "conserved (NewBatcher e n dur mx)"
  by (simp add: conserved_def NewBatcher_def)

section \<open>Progress\<close>

text \<open>A waiting batch has a timer and is not full.\<close>

definition timed :: "'w Batcher \<Rightarrow> bool" where
  "timed b \<longleftrightarrow> 0 < bsize b \<and> length (batch b) < bsize b \<and> (batch b \<noteq> [] \<longrightarrow> armed b \<or> tick b)"

text \<open>Every step of the goroutine or the timer decreases what is left to do.\<close>

definition work :: "'w Batcher \<Rightarrow> nat" where
  "work b = 3 * length (chan b) + (if armed b then 2 else 0) + (if tick b then 1 else 0)"

lemma send_keeps: "send index b = Some b' \<Longrightarrow>
    chan b' = chan b \<and> armed b' = armed b \<and> tick b' = tick b \<and> sent b' = sent b \<and> bsize b' = bsize b"
  by (erule send_cases) auto

lemma run_work:
  assumes "run index b b'"
  shows "work b' < work b \<and> sent b' = sent b \<and> bsize b' = bsize b"
  using assms
proof (cases rule: run.cases)
  case (Receive ev q)
  from Receive(2) show ?thesis
    by (cases rule: receive_cases) (use Receive(1) send_keeps in \<open>fastforce simp: work_def\<close>)+
next
  case Timeout
  then show ?thesis using send_keeps by (fastforce simp: timeout_def work_def)
qed (auto simp: work_def)

lemma no_infinite_run: "\<not> (\<forall>k. run index (f k) (f (Suc k)))"
proof
  assume "\<forall>k. run index (f k) (f (Suc k))"
  then have "\<forall>k. (f (Suc k), f k) \<in> measure work" using run_work by (simp, blast)
  then show False using wf_measure [of work] wf_iff_no_infinite_down_chain by blast
qed

lemma receive_sent: "receive index b ev = Some b' \<Longrightarrow> sent b' = sent b"
  by (erule receive_cases) (auto dest: send_keeps)

lemma step_sent: "step index b b' \<Longrightarrow> \<exists>evs. sent b' = sent b @ evs"
  by (erule step.cases) (auto dest: receive_sent run_work)

text \<open>A batcher in order, on an indexer in order (\<open>ok\<close>).\<close>

definition healthy :: "('w \<Rightarrow> bool) \<Rightarrow> 'w Batcher \<Rightarrow> bool" where
  "healthy ok b \<longleftrightarrow> ok (ixs b) \<and> conserved b \<and> timed b \<and> batchIndexedError b = 0"

text \<open>
  An indexer that accepts good events: in a good state it takes any batch of them, returns no error,
  and is in a good state again. The lemmas are about a batcher on such an indexer.
\<close>

locale reliable_indexer =
  fixes index :: "'w indexer" and ok :: "'w \<Rightarrow> bool" and good :: "Event \<Rightarrow> bool"
  assumes accepts: "\<lbrakk>ok x; \<forall>ev\<in>set evs. good ev\<rbrakk> \<Longrightarrow> \<exists>y. index x evs = Some (y, None) \<and> ok y"
begin

lemma send_healthy:
  assumes "ok (ixs b)" and "conserved b" and "0 < bsize b" and "batchIndexedError b = 0"
    and "\<forall>ev\<in>set (sent b). good ev"
  shows "\<exists>b'. send index b = Some b' \<and> healthy ok b'"
proof -
  have "\<forall>ev\<in>set (batch b). good ev" using assms(2,5) by (auto simp: conserved_def)
  from accepts [OF assms(1) this] obtain y where y: "index (ixs b) (batch b) = Some (y, None)" "ok y" by blast
  then obtain b' where b': "send index b = Some b'" "batch b' = []" "ixs b' = y" "bsize b' = bsize b"
    "batchIndexedError b' = 0" using assms(4) by (simp add: send_def)
  moreover have "conserved b'" by (rule send_conserved [OF b'(1) assms(2)])
  ultimately show ?thesis using y(2) assms(3) by (auto simp: healthy_def timed_def)
qed

lemma receive_healthy:
  assumes "ok (ixs b)" and "conserved (b\<lparr>batch := batch b @ [ev]\<rparr>)" and "timed b" and "batchIndexedError b = 0"
    and "\<forall>ev\<in>set (sent b). good ev"
  shows "\<exists>b'. receive index b ev = Some b' \<and> healthy ok b'"
proof (cases "length (batch b) + 1 = bsize b")
  case True
  let ?b = "b\<lparr>batch := batch b @ [ev], armed := False\<rparr>"
  have "\<exists>b'. send index ?b = Some b' \<and> healthy ok b'"
    by (rule send_healthy) (use assms in \<open>simp_all add: conserved_def timed_def\<close>)
  then show ?thesis using True by (simp add: receive_def Let_def)
next
  case False
  then show ?thesis using assms by (auto simp: receive_def Let_def healthy_def conserved_def timed_def)
qed

lemma run_receive_healthy:
  assumes "healthy ok b" and "chan b = ev # q" and "\<forall>ev\<in>set (sent b). good ev"
  shows "\<exists>b'. receive index (b\<lparr>chan := q\<rparr>) ev = Some b' \<and> healthy ok b'"
  by (rule receive_healthy) (use assms in \<open>simp_all add: healthy_def conserved_def timed_def\<close>)

lemma timeout_healthy:
  assumes "healthy ok b" and "\<forall>ev\<in>set (sent b). good ev"
  shows "\<exists>b'. timeout index b = Some b' \<and> healthy ok b'"
  unfolding timeout_def
  by (rule send_healthy) (use assms in \<open>auto simp: healthy_def conserved_def timed_def\<close>)

lemma run_healthy:
  assumes "run index b b'" and "healthy ok b" and "\<forall>ev\<in>set (sent b). good ev"
  shows "healthy ok b'"
  using assms(1)
proof (cases rule: run.cases)
  case (Receive ev q)
  from run_receive_healthy [OF assms(2) Receive(1) assms(3)] Receive(2) show ?thesis by auto
next
  case Timeout
  from timeout_healthy [OF assms(2,3)] Timeout(2) show ?thesis by auto
next
  case Fire
  then show ?thesis using assms(2) by (auto simp: healthy_def conserved_def timed_def)
qed

lemma step_good:
  assumes "step index b b'" and "\<forall>ev\<in>set (sent b'). good ev"
  shows "\<forall>ev\<in>set (sent b). good ev"
  using step_sent [OF assms(1)] assms(2) by auto

lemma step_healthy:
  assumes "step index b b'" and "healthy ok b" and "\<forall>ev\<in>set (sent b'). good ev"
  shows "healthy ok b'"
  using assms(1)
proof (cases rule: step.cases)
  case (Produce ev)
  then show ?thesis using assms(2) by (auto simp: healthy_def conserved_def timed_def)
next
  case (Handoff ev)
  let ?b = "b\<lparr>sent := sent b @ [ev]\<rparr>"
  have "sent b' = sent ?b" by (rule receive_sent [OF Handoff(2)])
  then have "\<forall>ev\<in>set (sent ?b). good ev" using assms(3) by metis
  with assms(2) Handoff(1) have "\<exists>b'. receive index ?b ev = Some b' \<and> healthy ok b'"
    by (intro receive_healthy) (simp_all add: healthy_def conserved_def timed_def)
  with Handoff(2) show ?thesis by auto
next
  case Run
  then show ?thesis using run_healthy assms(2) step_good [OF assms(1,3)] by blast
qed

lemma reachable_healthy:
  "reachable index b0 b \<Longrightarrow> healthy ok b0 \<Longrightarrow> \<forall>ev\<in>set (sent b). good ev \<Longrightarrow> healthy ok b"
proof (induction rule: reachable.induct)
  case (Step b b')
  with step_healthy step_good show ?case by blast
qed

text \<open>A batcher that can make no step of its own has delivered everything.\<close>

lemma idle_delivered:
  assumes "healthy ok b" and "\<forall>ev\<in>set (sent b). good ev" and "\<nexists>b'. run index b b'"
  shows "concat (accepted b) = sent b" and "chan b = []" and "batch b = []"
proof -
  show ch: "chan b = []"
  proof (cases "chan b")
    case (Cons ev q)
    from run_receive_healthy [OF assms(1) Cons assms(2)] run.Receive [OF Cons] assms(3) show ?thesis by blast
  qed
  have "\<not> armed b" using assms(3) run.Fire by blast
  moreover have "\<not> tick b" using assms(3) timeout_healthy [OF assms(1,2)] run.Timeout by blast
  ultimately show ba: "batch b = []" using assms(1) by (auto simp: healthy_def timed_def)
  show "concat (accepted b) = sent b" using assms(1) ch ba by (simp add: healthy_def conserved_def)
qed

lemma runs_healthy:
  assumes "(run index)\<^sup>*\<^sup>* b b'" and "healthy ok b" and "\<forall>ev\<in>set (sent b). good ev"
  shows "healthy ok b' \<and> sent b' = sent b"
  using assms
proof (induction rule: rtranclp_induct)
  case (step y z)
  then show ?case using run_healthy run_work by metis
qed simp

end

lemma new_healthy: "ok e \<Longrightarrow> 0 < n \<Longrightarrow> healthy ok (NewBatcher e n dur mx)"
  using new_conserved [of e n dur mx] by (simp add: healthy_def timed_def NewBatcher_def)

text \<open>What a step adds to the accepted events, it adds to the map \<open>held\<close> that the indexer keeps.\<close>

definition grown :: "('w \<Rightarrow> 'k \<rightharpoonup> 'v) \<Rightarrow> (Event list \<Rightarrow> 'k \<rightharpoonup> 'v) \<Rightarrow> 'w Batcher \<Rightarrow> 'w Batcher \<Rightarrow> bool" where
  "grown held entry b b' \<longleftrightarrow> (\<exists>evs. concat (accepted b') = concat (accepted b) @ evs \<and> held (ixs b') = held (ixs b) ++ entry evs)"

text \<open>
  An indexer that moreover keeps a map, to which a batch of events adds its entries.
\<close>

locale event_indexer = reliable_indexer index ok good
  for index :: "'w indexer" and ok and good +
  fixes held :: "'w \<Rightarrow> 'k \<rightharpoonup> 'v" and entry :: "Event list \<Rightarrow> 'k \<rightharpoonup> 'v"
  assumes adds: "\<lbrakk>ok x; \<forall>ev\<in>set evs. good ev; index x evs = Some (y, None)\<rbrakk> \<Longrightarrow> held y = held x ++ entry evs"
    and entry_append: "entry (xs @ ys) = entry xs ++ entry ys"
    and entry_Nil: "entry [] = Map.empty"
begin

lemma grown_same: "accepted b' = accepted b \<Longrightarrow> ixs b' = ixs b \<Longrightarrow> grown held entry b b'"
  by (auto simp: grown_def entry_Nil intro: exI [of _ "[]"])

lemma send_grown:
  assumes "send index b = Some b'" and "healthy ok b'" and "ok (ixs b)" and "\<forall>ev\<in>set (batch b). good ev"
    and "batchIndexedError b = 0"
  shows "grown held entry b b'"
  using assms(1)
proof (cases rule: send_cases)
  case (Error x err)
  then show ?thesis using assms(2,5) by (simp add: healthy_def)
next
  case (Ok x)
  then show ?thesis using adds [OF assms(3,4) Ok(1)] by (auto simp: grown_def intro: exI [of _ "batch b"])
qed

lemma receive_grown:
  assumes "receive index b ev = Some b'" and "healthy ok b'" and "ok (ixs b)" and "\<forall>ev\<in>set (batch b @ [ev]). good ev"
    and "batchIndexedError b = 0"
  shows "grown held entry b b'"
  using assms(1)
proof (cases rule: receive_cases)
  case Full
  have "grown held entry (b\<lparr>batch := batch b @ [ev], armed := False\<rparr>) b'"
    by (rule send_grown [OF Full(2) assms(2)]) (use assms(3-5) in simp_all)
  then show ?thesis by (simp add: grown_def)
next
  case More
  then show ?thesis by (intro grown_same) simp_all
qed

lemma step_grown:
  assumes "step index b b'" and "healthy ok b" and "\<forall>ev\<in>set (sent b'). good ev"
  shows "grown held entry b b'"
proof -
  note h = step_healthy [OF assms]
  have b: "ok (ixs b)" "batchIndexedError b = 0" "\<forall>ev\<in>set (batch b @ chan b). good ev"
    using assms(2) step_good [OF assms(1,3)] by (auto simp: healthy_def conserved_def)
  show ?thesis using assms(1)
  proof (cases rule: step.cases)
    case (Handoff ev)
    have "good ev" using assms(3) receive_sent [OF Handoff(2)] by simp
    with b have "grown held entry (b\<lparr>sent := sent b @ [ev]\<rparr>) b'" by (intro receive_grown [OF Handoff(2) h]) simp_all
    then show ?thesis by (simp add: grown_def)
  next
    case Run
    then show ?thesis
    proof (cases rule: run.cases)
      case (Receive ev q)
      with b have "grown held entry (b\<lparr>chan := q\<rparr>) b'" by (intro receive_grown [OF Receive(2) h]) simp_all
      then show ?thesis by (simp add: grown_def)
    next
      case Timeout
      have "grown held entry (b\<lparr>tick := False, batchTimeout := batchTimeout b + 1\<rparr>) b'"
        by (rule send_grown [OF Timeout(2) [unfolded timeout_def] h]) (use b in simp_all)
      then show ?thesis by (simp add: grown_def)
    qed (simp add: grown_same)
  qed (simp add: grown_same)
qed

lemma reachable_held:
  assumes "reachable index b0 b" and "healthy ok b0" and "accepted b0 = []" and "\<forall>ev\<in>set (sent b). good ev"
  shows "held (ixs b) = held (ixs b0) ++ entry (concat (accepted b))"
  using assms
proof (induction rule: reachable.induct)
  case Start
  then show ?case by (simp add: entry_Nil)
next
  case (Step b b')
  note g = step_good [OF Step.hyps(2) Step.prems(3)]
  have h: "healthy ok b" by (rule reachable_healthy [OF Step.hyps(1) Step.prems(1) g])
  from step_grown [OF Step.hyps(2) h Step.prems(3)] Step.IH [OF Step.prems(1,2) g] show ?case
    by (auto simp: grown_def entry_append)
qed

end

section \<open>Properties\<close>

text \<open>A log of batches as an indexer, and one event going through.\<close>

definition log_index :: "Event list list indexer" where
  "log_index x evs = Some (x @ [evs], None)"

lemma log_reliable: "reliable_indexer log_index (\<lambda>_. True) (\<lambda>_. True)"
  by unfold_locales (simp add: log_index_def)

lemma one_event_through:
  "\<exists>b. reachable log_index (NewBatcher [] 1 ns_per_sec 5) b \<and> accepted b = [[ev]]"
proof -
  let ?b0 = "NewBatcher [] 1 ns_per_sec 5 :: Event list list Batcher"
  let ?b1 = "?b0\<lparr>chan := chan ?b0 @ [ev], sent := sent ?b0 @ [ev]\<rparr>"
  have "step log_index ?b0 ?b1" by (rule step.Produce) (simp add: NewBatcher_def)
  moreover obtain b2 where b2: "receive log_index (?b1\<lparr>chan := []\<rparr>) ev = Some b2" "accepted b2 = [[ev]]"
    by (simp add: receive_def send_def log_index_def NewBatcher_def)
  have "run log_index ?b1 b2" by (rule run.Receive [OF _ b2(1)]) (simp add: NewBatcher_def)
  ultimately have "reachable log_index ?b0 b2"
    using reachable.Start reachable.Step step.Run by metis
  with b2(2) show ?thesis by blast
qed

text \<open>
  C13. The batcher neither loses, duplicates nor reorders events. In every state it can reach, with any
  indexer, the events sent to it are, in order, those of the batches the indexer accepted, then the
  batch it holds, then those in its channel; the statistics count the accepted batches and events,
  and the error channel has received one nil per accepted batch and nothing else, in particular no
  error.
\<close>

theorem batcher_conserves:
  assumes "reachable index (NewBatcher e n dur mx) b"
  shows "sent b = concat (accepted b) @ batch b @ chan b \<and> length (chan b) \<le> cap b \<and>
    eventsIndexed b = length (concat (accepted b)) \<and> batchIndexed b = length (accepted b) \<and>
    errChan b = replicate (length (accepted b)) None \<and> calls b = batchIndexed b + batchIndexedError b"
  using reachable_conserved [OF assms new_conserved] by (simp add: conserved_def)

theorem batcher_conserves_witness:
  "\<exists>b. reachable log_index (NewBatcher [] 1 ns_per_sec 5) b \<and> accepted b = [[NewEvent]] \<and>
    sent b = concat (accepted b) @ batch b @ chan b"
  using one_event_through [of NewEvent] batcher_conserves [of log_index "[]" 1 ns_per_sec 5] by blast

text \<open>
  Every event is delivered. With an indexer that returns no errors and a positive batch size, once
  the producers pause the batcher cannot run for ever, and when it and its timer have nothing more
  to do, all events sent to it have been accepted by the indexer, in the order sent.
\<close>

theorem batcher_delivers:
  assumes "\<And>x evs. \<exists>y. index x evs = Some (y, None)" and "0 < n" and "reachable index (NewBatcher e n dur mx) b"
  shows "(\<nexists>f. f 0 = b \<and> (\<forall>k. run index (f k) (f (Suc k)))) \<and>
    (\<forall>b'. (run index)\<^sup>*\<^sup>* b b' \<and> (\<nexists>b''. run index b' b'') \<longrightarrow> concat (accepted b') = sent b)"
proof -
  let ?T = "\<lambda>_. True"
  have rel: "reliable_indexer index ?T ?T" using assms(1) by unfold_locales auto
  have h: "healthy ?T b"
    using reliable_indexer.reachable_healthy [OF rel assms(3) new_healthy] assms(2) by simp
  have "concat (accepted b') = sent b" if "(run index)\<^sup>*\<^sup>* b b'" "\<nexists>b''. run index b' b''" for b'
    using reliable_indexer.runs_healthy [OF rel that(1) h] reliable_indexer.idle_delivered(1) [OF rel _ _ that(2)] by simp
  then show ?thesis using no_infinite_run by blast
qed

theorem batcher_delivers_witness:
  "\<exists>b. reachable log_index (NewBatcher [] 1 ns_per_sec 5) b \<and> accepted b = [[NewEvent]] \<and>
    (\<nexists>f. f 0 = b \<and> (\<forall>k. run log_index (f k) (f (Suc k)))) \<and>
    (\<forall>b'. (run log_index)\<^sup>*\<^sup>* b b' \<and> (\<nexists>b''. run log_index b' b'') \<longrightarrow> concat (accepted b') = sent b)"
proof -
  obtain b where b: "reachable log_index (NewBatcher [] 1 ns_per_sec 5) b" "accepted b = [[NewEvent]]"
    using one_event_through by blast
  have "\<exists>y. log_index x evs = Some (y, None)" for x evs by (simp add: log_index_def)
  from batcher_delivers [OF this _ b(1)] b show ?thesis by auto
qed

definition stalled :: "'w Batcher \<Rightarrow> bool" where
  "stalled b \<longleftrightarrow> 0 < bsize b \<and> bsize b \<le> length (batch b) \<and> \<not> armed b \<and> \<not> tick b"

lemma step_stalled:
  assumes "step index b b'" and "stalled b"
  shows "stalled b' \<and> calls b' = calls b \<and> accepted b' = accepted b \<and> prefix (batch b) (batch b')"
  using assms(1)
proof (cases rule: step.cases)
  case (Produce ev)
  then show ?thesis using assms(2) by (simp add: stalled_def)
next
  case (Handoff ev)
  from Handoff(2) show ?thesis by (cases rule: receive_cases) (use assms(2) in \<open>auto simp: stalled_def\<close>)
next
  case Run
  then show ?thesis
  proof (cases rule: run.cases)
    case (Receive ev q)
    from Receive(2) show ?thesis
      by (cases rule: receive_cases) (use assms(2) Receive(1) in \<open>auto simp: stalled_def\<close>)
  qed (use assms(2) in \<open>auto simp: stalled_def\<close>)
qed

lemma reachable_stalled:
  "reachable index b b' \<Longrightarrow> stalled b \<Longrightarrow>
    stalled b' \<and> calls b' = calls b \<and> accepted b' = accepted b \<and> prefix (batch b) (batch b')"
proof (induction rule: reachable.induct)
  case (Step b1 b2)
  then show ?case using step_stalled [of index b1 b2] by (metis prefix_order.trans)
qed simp

text \<open>
  C32. A failed full batch stops the batcher for good. When the indexer returns an error for a batch
  that is full, and no tick is pending, the batch is kept, the timer is off, and later events only
  make the batch longer than the size that would trigger the next call: whatever happens
  afterwards, the indexer is never called again.
\<close>

theorem batcher_stalls:
  assumes "length (batch b) + 1 = bsize b" and "\<not> tick b"
    and "index (ixs b) (batch b @ [ev]) = Some (x, Some err)"
    and "receive index b ev = Some b1" and "reachable index b1 b2"
  shows "calls b2 = calls b1 \<and> accepted b2 = accepted b1 \<and> prefix (batch b @ [ev]) (batch b2)"
proof -
  have "stalled b1 \<and> batch b1 = batch b @ [ev]"
    using assms(4)
  proof (cases rule: receive_cases)
    case Full
    then show ?thesis using assms(1-3) by (auto simp: send_def stalled_def)
  qed (use assms(1) in simp)
  with reachable_stalled [OF assms(5)] show ?thesis by auto
qed

theorem batcher_stalls_witness:
  "\<exists>b1. receive (\<lambda>x evs. Some (x, Some TooManyShards)) (NewBatcher () 1 ns_per_sec 5) NewEvent = Some b1 \<and>
    calls b1 = 1 \<and> prefix [NewEvent] (batch b1)"
proof -
  let ?index = "\<lambda>x evs. Some (x, Some TooManyShards)" and ?b = "NewBatcher () 1 ns_per_sec 5"
  obtain b1 where b1: "receive ?index ?b NewEvent = Some b1" "calls b1 = 1"
    by (simp add: receive_def Let_def send_def NewBatcher_def)
  have "prefix (batch ?b @ [NewEvent]) (batch b1)"
    using batcher_stalls [OF _ _ _ b1(1) reachable.Start, of "()" TooManyShards] by (simp add: NewBatcher_def)
  with b1 show ?thesis by (auto simp: NewBatcher_def)
qed

end
