(* ===== verification/Http.thy ===== *)
theory Http
  imports Prelude
begin

text \<open>
  What the two HTTP services use of \<open>net/http\<close>: requests, and a response writer with its headers,
  status code and body. A write may fail (the connection is gone): \<open>room\<close> is the number of bytes it
  still takes, \<^const>\<open>None\<close> when it never fails.
\<close>

section \<open>Requests and responses\<close>

text \<open>\<open>Form\<close> is what \<open>ParseForm\<close> finds: \<open>Inl\<close> its error, or the keys with their values.\<close>

record Request =
  Method :: string
  URLPath :: bytes
  Form :: "bytes + (bytes \<times> bytes list) list"

record Response =
  header :: "string \<Rightarrow> bytes list"
  code :: "nat option"
  body :: bytes
  room :: "nat option"

definition new_response :: "nat option \<Rightarrow> Response" where
  "new_response r = \<lparr>header = (\<lambda>_. []), code = None, body = [], room = r\<rparr>"

definition Header_Set :: "string \<Rightarrow> bytes \<Rightarrow> Response \<Rightarrow> Response" where
  "Header_Set k v w = w\<lparr>header := (header w)(k := [v])\<rparr>"

definition Header_Add :: "string \<Rightarrow> bytes \<Rightarrow> Response \<Rightarrow> Response" where
  "Header_Add k v w = w\<lparr>header := (header w)(k := header w k @ [v])\<rparr>"

text \<open>Only the first call has an effect.\<close>

definition WriteHeader :: "nat \<Rightarrow> Response \<Rightarrow> Response" where
  "WriteHeader c w = (case code w of None \<Rightarrow> w\<lparr>code := Some c\<rparr> | Some _ \<Rightarrow> w)"

definition Write :: "bytes \<Rightarrow> Response \<Rightarrow> Response \<times> bytes option" where
  "Write bs w =
     (let w1 = WriteHeader 200 w
      in case room w1 of
           None \<Rightarrow> (w1\<lparr>body := body w1 @ bs\<rparr>, None)
         | Some n \<Rightarrow>
             if length bs \<le> n then (w1\<lparr>body := body w1 @ bs, room := Some (n - length bs)\<rparr>, None)
             else (w1\<lparr>body := body w1 @ take n bs, room := Some 0\<rparr>, Some ''broken pipe''))"

definition http_Error :: "bytes \<Rightarrow> nat \<Rightarrow> Response \<Rightarrow> Response" where
  "http_Error msg c w =
     fst (Write (msg @ [LF]) (WriteHeader c
       (Header_Set ''X-Content-Type-Options'' ''nosniff'' (Header_Set ''Content-Type'' ''text/plain; charset=utf-8'' w))))"

text \<open>\<open>Request.FormValue\<close>: the first value of a key, or the empty string.\<close>

definition FormValue :: "(bytes \<times> bytes list) list \<Rightarrow> bytes \<Rightarrow> bytes" where
  "FormValue f k = (case map_of f k of Some (v # _) \<Rightarrow> v | _ \<Rightarrow> [])"

text \<open>The status a client sees.\<close>

definition status_of :: "Response \<Rightarrow> nat" where
  "status_of w = (case code w of None \<Rightarrow> 200 | Some c \<Rightarrow> c)"

section \<open>Lemmas\<close>

lemma header_simps [simp]:
  "header (WriteHeader c w) = header w" "header (fst (Write bs w)) = header w"
  "header (http_Error m c w) = (header w)(''Content-Type'' := [''text/plain; charset=utf-8''],
     ''X-Content-Type-Options'' := [''nosniff''])"
  by (auto simp: WriteHeader_def Write_def http_Error_def Header_Set_def Let_def split: option.splits)

lemma code_simps [simp]:
  "code (fst (Write bs w)) = Some (status_of w)"
  "code w = None \<Longrightarrow> code (http_Error m c w) = Some c"
  "code (Header_Set k v w) = code w" "code (Header_Add k v w) = code w"
  "code (WriteHeader c w) = Some (case code w of None \<Rightarrow> c | Some c' \<Rightarrow> c')"
  by (auto simp: WriteHeader_def Write_def http_Error_def Header_Set_def Header_Add_def status_of_def Let_def split: option.splits)

lemma write_simps [simp]:
  "room w = None \<Longrightarrow> snd (Write bs w) = None"
  "room w = None \<Longrightarrow> body (fst (Write bs w)) = body w @ bs"
  "room w = None \<Longrightarrow> room (fst (Write bs w)) = None"
  "room (WriteHeader c w) = room w" "body (WriteHeader c w) = body w"
  "room (Header_Set k v w) = room w" "body (Header_Set k v w) = body w"
  "room (Header_Add k v w) = room w" "body (Header_Add k v w) = body w"
  by (auto simp: WriteHeader_def Write_def Header_Set_def Header_Add_def Let_def split: option.splits)

lemma write_keeps [simp]:
  "header (Header_Set k v w) = (header w)(k := [v])" "header (Header_Add k v w) = (header w)(k := header w k @ [v])"
  by (simp_all add: Header_Set_def Header_Add_def)

end
