(* ===== verification/Query_Server.thy ===== *)
theory Query_Server
  imports Prelude
begin

text \<open>
  The line-based query server of \<open>server.go\<close>: a connection sends queries, one per line, and gets the
  results back, one per line, with two newlines after the last. The \<open>Searcher\<close> is a parameter.
  Shows what a connection is answered, that a client can read the results back from the bytes when they hold no newline,
  and that it cannot in general.
\<close>

section \<open>Model\<close>

text \<open>\<open>Searcher.Search\<close>: \<open>Inl\<close> the text of the error, or what the channel delivers.\<close>

type_synonym searcher = "bytes \<Rightarrow> bytes + bytes list"

record Server =
  srv_iface :: string
  Searcher :: searcher
  srv_addr :: "string option"

definition NewServer :: "string \<Rightarrow> searcher \<Rightarrow> Server" where
  "NewServer ifc search = \<lparr>srv_iface = ifc, Searcher = search, srv_addr = None\<rparr>"

text \<open>\<open>Start\<close> up to the goroutine: the result of \<open>net.Listen\<close> is an argument.\<close>

definition Server_Start :: "(string \<Rightarrow> string + string) \<Rightarrow> Server \<Rightarrow> Server \<times> string option" where
  "Server_Start listen s =
     (case listen (srv_iface s) of
        Inl err \<Rightarrow> (s, Some err)
      | Inr a \<Rightarrow> (s\<lparr>srv_addr := Some a\<rparr>, None))"

text \<open>
  \<open>bufio.Reader.ReadString\<close> with a newline, on the rest of the input: the line with its newline and
  what remains, or \<^const>\<open>None\<close> (an error) when the connection ends before a newline.
\<close>

definition ReadString :: "bytes \<Rightarrow> (bytes \<times> bytes) option" where
  "ReadString inp =
     (case dropWhile (\<lambda>c. c \<noteq> LF) inp of
        [] \<Rightarrow> None
      | c # rest \<Rightarrow> Some (takeWhile (\<lambda>c. c \<noteq> LF) inp @ [c], rest))"

lemma ReadString_shorter: "ReadString inp = Some (b, rest) \<Longrightarrow> length rest < length inp"
proof -
  assume "ReadString inp = Some (b, rest)"
  then obtain c where "dropWhile (\<lambda>c. c \<noteq> LF) inp = c # rest"
    by (cases "dropWhile (\<lambda>c. c \<noteq> LF) inp") (simp_all add: ReadString_def)
  then show ?thesis using length_dropWhile_le [of "\<lambda>c. c \<noteq> LF" inp] by simp
qed

text \<open>What is written to the connection for one query.\<close>

definition answer :: "searcher \<Rightarrow> bytes \<Rightarrow> bytes" where
  "answer search query =
     (case search query of
        Inl err \<Rightarrow> err
      | Inr c \<Rightarrow> concat (map (\<lambda>s. s @ [LF]) c)) @ [LF, LF]"

text \<open>\<open>handleConnection\<close>: what is written in answer to the bytes that arrive until the connection ends.\<close>

function Server_handleConnection :: "searcher \<Rightarrow> bytes \<Rightarrow> bytes" where
  "Server_handleConnection search inp =
     (case ReadString inp of
        None \<Rightarrow> []
      | Some (b, rest) \<Rightarrow>
          (let query = trim [CR, LF] b
           in if query = [] then Server_handleConnection search rest
              else answer search query @ Server_handleConnection search rest))"
  by pat_completeness auto
termination by (relation "measure (length \<circ> snd)") (auto dest: ReadString_shorter)

declare Server_handleConnection.simps [simp del]

section \<open>What a connection is answered\<close>

lemma ReadString_line: "LF \<notin> set l \<Longrightarrow> ReadString (l @ LF # rest) = Some (l @ [LF], rest)"
proof -
  assume "LF \<notin> set l"
  then have "x \<noteq> LF" if "x \<in> set l" for x using that by blast
  then have "dropWhile (\<lambda>c. c \<noteq> LF) (l @ LF # rest) = LF # rest" "takeWhile (\<lambda>c. c \<noteq> LF) (l @ LF # rest) = l"
    using dropWhile_append2 [of l "\<lambda>c. c \<noteq> LF" "LF # rest"] takeWhile_append2 [of l "\<lambda>c. c \<noteq> LF" "LF # rest"] by simp_all
  then show ?thesis by (simp add: ReadString_def)
qed

lemma ReadString_None: "LF \<notin> set l \<Longrightarrow> ReadString l = None"
proof -
  assume "LF \<notin> set l"
  then have "dropWhile (\<lambda>c. c \<noteq> LF) l = []" unfolding dropWhile_eq_Nil_conv by blast
  then show ?thesis unfolding ReadString_def by (simp only: list.case)
qed

lemma trim_newline: "trim [CR, LF] (l @ [LF]) = trim [CR, LF] l"
proof (cases "trim_left [CR, LF] l = []")
  case True
  then have "\<forall>x\<in>set l. x \<in> set [CR, LF]" unfolding trim_left_def dropWhile_eq_Nil_conv .
  then have "trim_left [CR, LF] (l @ [LF]) = []" unfolding trim_left_def dropWhile_eq_Nil_conv by simp
  with True show ?thesis by (simp add: trim_def)
next
  case False
  then have "trim_left [CR, LF] (l @ [LF]) = trim_left [CR, LF] l @ [LF]"
    unfolding trim_left_def dropWhile_eq_Nil_conv by (metis dropWhile_append1)
  then show ?thesis by (simp add: trim_def trim_right_snoc)
qed

definition queries_of :: "bytes list \<Rightarrow> bytes list" where
  "queries_of ls = filter (\<lambda>q. q \<noteq> []) (map (trim [CR, LF]) ls)"

lemma handle_lines:
  assumes "\<forall>l\<in>set ls. LF \<notin> set l" and "LF \<notin> set tail"
  shows "Server_handleConnection search (concat (map (\<lambda>l. l @ [LF]) ls) @ tail) = concat (map (answer search) (queries_of ls))"
  using assms(1)
proof (induction ls)
  case Nil
  then show ?case
    by (simp add: queries_of_def Server_handleConnection.simps [of _ tail] ReadString_None [OF assms(2)])
next
  case (Cons l ls)
  let ?rest = "concat (map (\<lambda>l. l @ [LF]) ls) @ tail"
  have "ReadString (l @ LF # ?rest) = Some (l @ [LF], ?rest)" using Cons.prems by (intro ReadString_line) simp
  with Cons show ?case
    by (simp add: queries_of_def Server_handleConnection.simps [of _ "l @ LF # ?rest"] trim_newline Let_def)
qed

text \<open>A client: it cuts the bytes it gets into lines at the newlines, and reads lines up to two empty ones.\<close>

fun lines_from :: "bytes \<Rightarrow> bytes \<Rightarrow> bytes list" where
  "lines_from l [] = (if l = [] then [] else [l])"
| "lines_from l (c # s) = (if c = LF then l # lines_from [] s else lines_from (l @ [c]) s)"

definition split_lines :: "bytes \<Rightarrow> bytes list" where
  "split_lines s = lines_from [] s"

fun client_read :: "bytes list \<Rightarrow> bytes list \<times> bytes list" where
  "client_read [] = ([], [])"
| "client_read [l] = ([l], [])"
| "client_read (l # m # ls) =
     (if l = [] \<and> m = [] then ([], ls) else (case client_read (m # ls) of (rs, rest) \<Rightarrow> (l # rs, rest)))"

fun client_all :: "nat \<Rightarrow> bytes list \<Rightarrow> bytes list list" where
  "client_all 0 ls = []"
| "client_all (Suc n) ls = (case client_read ls of (rs, rest) \<Rightarrow> rs # client_all n rest)"

definition lines_of :: "bytes list \<Rightarrow> bytes" where
  "lines_of ls = concat (map (\<lambda>l. l @ [LF]) ls)"

lemma lines_from_line: "LF \<notin> set l \<Longrightarrow> lines_from acc (l @ LF # s) = (acc @ l) # lines_from [] s"
  by (induction l arbitrary: acc) auto

lemma split_lines_of: "\<forall>l\<in>set ls. LF \<notin> set l \<Longrightarrow> split_lines (lines_of ls) = ls"
  unfolding split_lines_def lines_of_def by (induction ls) (simp_all add: lines_from_line)

lemma client_read_results: "\<forall>r\<in>set rs. r \<noteq> [] \<Longrightarrow> client_read (rs @ [] # [] # ls) = (rs, ls)"
proof (induction rs)
  case (Cons r rs)
  then obtain m ms where m: "rs @ [] # [] # ls = m # ms" by (cases "rs @ [] # [] # ls") auto
  with Cons show ?case by simp
qed simp

lemma client_all_results:
  "\<forall>rs\<in>set rss. \<forall>r\<in>set rs. r \<noteq> [] \<Longrightarrow> client_all (length rss) (concat (map (\<lambda>rs. rs @ [[], []]) rss)) = rss"
  by (induction rss) (simp_all add: client_read_results)

text \<open>A result that a client can read back.\<close>

definition one_line :: "bytes \<Rightarrow> bool" where
  "one_line r \<longleftrightarrow> r \<noteq> [] \<and> LF \<notin> set r"

lemma client_all_answers:
  assumes "\<forall>rs\<in>set rss. \<forall>r\<in>set rs. one_line r"
  shows "client_all (length rss) (split_lines (lines_of (concat (map (\<lambda>rs. rs @ [[], []]) rss)))) = rss"
proof -
  have "\<forall>l\<in>set (concat (map (\<lambda>rs. rs @ [[], []]) rss)). LF \<notin> set l" using assms by (auto simp: one_line_def)
  then show ?thesis using assms client_all_results by (simp add: split_lines_of one_line_def)
qed

lemma answer_lines: "search q = Inr rs \<Longrightarrow> answer search q = lines_of (rs @ [[], []])"
  by (simp add: answer_def lines_of_def)

lemma lines_of_append: "lines_of (xs @ ys) = lines_of xs @ lines_of ys"
  by (simp add: lines_of_def)

lemma answers_lines:
  "\<forall>q\<in>set qs. search q = Inr (f q) \<Longrightarrow>
    concat (map (answer search) qs) = lines_of (concat (map (\<lambda>rs. rs @ [[], []]) (map f qs)))"
  by (induction qs) (simp_all add: answer_lines lines_of_append, simp_all add: lines_of_def)

text \<open>
  The contract of a search service, whose answers depend on its state: in a good state it answers
  every query, with a certain list of results. The servers' lemmas are about such a service.
\<close>

locale search_service =
  fixes search :: "'s \<Rightarrow> searcher" and ok :: "'s \<Rightarrow> bool" and result :: "'s \<Rightarrow> bytes \<Rightarrow> bytes list"
  assumes answers: "ok s \<Longrightarrow> search s q = Inr (result s q)"
begin

lemma connection_answered:
  assumes "ok s" and "\<forall>l\<in>set ls. LF \<notin> set l" and "LF \<notin> set tail" and "\<And>q r. r \<in> set (result s q) \<Longrightarrow> one_line r"
  shows "client_all (length (queries_of ls)) (split_lines (Server_handleConnection (search s) (lines_of ls @ tail))) =
    map (result s) (queries_of ls)"
proof -
  have "Server_handleConnection (search s) (lines_of ls @ tail) = concat (map (answer (search s)) (queries_of ls))"
    unfolding lines_of_def by (rule handle_lines [OF assms(2,3)])
  also have "\<dots> = lines_of (concat (map (\<lambda>rs. rs @ [[], []]) (map (result s) (queries_of ls))))"
    using answers [OF assms(1)] by (intro answers_lines) blast
  finally show ?thesis using client_all_answers [of "map (result s) (queries_of ls)"] assms(4) by simp
qed

end

section \<open>Properties\<close>

text \<open>
  The query server answers every line. Whatever a connection sends, cut into lines ended by a
  newline and a rest without one, the server writes the answers to the lines in order, each line
  taken without carriage returns and newlines at its ends, empty ones skipped and the rest after the last newline never
  executed. If the search delivers, without an error, messages that are not empty and hold no newline, a client that cuts
  the bytes it gets into lines and reads lines up to two empty ones recovers exactly the results of each query.
\<close>

theorem server_answers:
  assumes "\<forall>l\<in>set ls. LF \<notin> set l" and "LF \<notin> set tail"
    and "\<forall>q\<in>set (queries_of ls). search q = Inr (f q) \<and> (\<forall>r\<in>set (f q). r \<noteq> [] \<and> LF \<notin> set r)"
  shows "Server_handleConnection search (lines_of ls @ tail) = concat (map (answer search) (queries_of ls)) \<and>
    client_all (length (queries_of ls)) (split_lines (Server_handleConnection search (lines_of ls @ tail))) = map f (queries_of ls)"
proof -
  have h: "Server_handleConnection search (lines_of ls @ tail) = concat (map (answer search) (queries_of ls))"
    unfolding lines_of_def by (rule handle_lines [OF assms(1,2)])
  also have a: "\<dots> = lines_of (concat (map (\<lambda>rs. rs @ [[], []]) (map f (queries_of ls))))"
    using assms(3) by (intro answers_lines) blast
  finally show ?thesis
    using h a client_all_answers [of "map f (queries_of ls)"] assms(3) by (simp add: one_line_def)
qed

theorem server_answers_witness:
  "client_all 2 (split_lines (Server_handleConnection (\<lambda>q. Inr [q, ''two'']) (lines_of [''GET'' @ [CR], [CR], ''PUT''] @ ''PO''))) =
    [[''GET'', ''two''], [''PUT'', ''two'']]"
proof -
  have q: "queries_of [''GET'' @ [CR], [CR], ''PUT''] = [''GET'', ''PUT'']" by code_simp
  have "client_all (length [''GET'', ''PUT'']) (split_lines (Server_handleConnection (\<lambda>q. Inr [q, ''two'']) (lines_of [''GET'' @ [CR], [CR], ''PUT''] @ ''PO''))) =
      map (\<lambda>q. [q, ''two'']) [''GET'', ''PUT'']"
    by (rule conjunct2 [OF server_answers [of "[''GET'' @ [CR], [CR], ''PUT'']" "''PO''" "\<lambda>q. Inr [q, ''two'']", unfolded q]])
      simp_all
  then show ?thesis by (simp only: list.map list.size numeral_2_eq_2 add_0 add_Suc_right plus_1_eq_Suc One_nat_def add.right_neutral)
qed

text \<open>
  Messages with newlines, which the collectors accept, are not marked in an answer. A client takes one that holds three
  newlines in a row for the end of the results, and what follows for the results of its next query.
\<close>

theorem message_cut_short:
  assumes "a \<noteq> []" and "LF \<notin> set a" and "search q = Inr [a @ [LF, LF, LF] @ b]"
  shows "client_read (split_lines (answer search q)) = ([a], split_lines (b @ [LF, LF, LF]))"
proof -
  have "answer search q = a @ LF # LF # LF # b @ [LF, LF, LF]" using assms(3) by (simp add: answer_def)
  then have "split_lines (answer search q) = a # [] # [] # split_lines (b @ [LF, LF, LF])"
    using assms(2) by (simp add: split_lines_def lines_from_line)
  with assms(1) show ?thesis by simp
qed

end
