(* ===== verification/HTTP_Server.thy ===== *)
theory HTTP_Server
  imports Http Query_Server
begin

text \<open>
  The HTTP query interface of \<open>server_http.go\<close>: the page template with the contextual escaping of
  \<open>html/template\<close>, and the handler. Shows the status of every branch, and that a result page lists all
  results, in order, escaped so that they can be read back and cannot hold markup.
\<close>

section \<open>Model\<close>

subsection \<open>The template\<close>

abbreviation TAB :: byte where "TAB \<equiv> CHR 0x09"

fun join_lines :: "bytes list \<Rightarrow> bytes" where
  "join_lines [] = []"
| "join_lines [l] = l"
| "join_lines (l # m # ls) = l @ LF # join_lines (m # ls)"

text \<open>The text of \<open>templateSource\<close> between its actions.\<close>

definition tmpl_head :: bytes where
  "tmpl_head = join_lines
     ['''',
      ''<!DOCTYPE html>'',
      ''<html>'',
      ''<head>'',
      ''<meta charset=\"utf-8\" />'',
      ''<title>'']"

definition tmpl_style :: bytes where
  "tmpl_style = join_lines
     [''</title>'',
      ''<style type=\"text/css\">'',
      ''body, h2 {'',
      [TAB] @ ''margin: 50px;'',
      [TAB] @ ''font-family: sans-serif;'',
      [TAB] @ ''font-size: 13px;'',
      ''}'',
      ''h2 {'',
      [TAB] @ ''font-size: 15px;'',
      ''}'',
      ''.button {'',
      [TAB] @ ''background: #3498db;'',
      [TAB] @ ''background-image: linear-gradient(to bottom, #3498db, #2980b9);'',
      [TAB] @ ''border-radius: 4px;'',
      [TAB] @ ''font-family: sans-serif;'',
      [TAB] @ ''color: #ffffff;'',
      [TAB] @ ''font-size: 15px;'',
      [TAB] @ ''padding: 10px 20px 10px 20px;'',
      [TAB] @ ''margin-bottom: 20px;'',
      [TAB] @ ''text-decoration: none;'',
      ''}'',
      ''hr {'',
      [TAB] @ ''margin-bottom: 10px;'',
      [TAB] @ ''margin-top: 10px;'',
      ''}'',
      ''.button:hover {'',
      [TAB] @ ''background: #3cb0fd;'',
      [TAB] @ ''background-image: linear-gradient(to bottom, #3cb0fd, #3498db);'',
      [TAB] @ ''text-decoration: none;'',
      ''}'',
      ''textarea {'',
      [TAB] @ ''margin: 20px 20px 20px 0;'',
      ''}'',
      ''</style>'',
      ''</head>'',
      ''<body>'',
      [TAB] @ ''<h2>'']"

definition tmpl_form :: bytes where
  "tmpl_form = join_lines
     [''</h2>'',
      [TAB] @ ''<div id=\"help\">Query language reference: <a href=\"http://godoc.org/github.com/blevesearch/bleve#NewQueryStringQuery\">bleve</a></div>'',
      [TAB] @ ''<form action=\"/\" method=\"POST\">'',
      ''    <textarea name=\"query\" cols=\"100\" rows=\"2\"></textarea>'',
      ''    <br>'',
      ''    <input name=\"submit\" type=\"submit\" class=\"button\" value=\"Query\">'',
      [TAB] @ ''</form>'',
      '''',
      '''']"

definition tmpl_list :: bytes where
  "tmpl_list = join_lines
     ['''',
      [TAB] @ ''<hr>'',
      [TAB] @ ''<ul>'',
      [TAB]]"

definition tmpl_item :: bytes where
  "tmpl_item = join_lines
     ['''',
      [TAB] @ ''<li>'']"

definition tmpl_item_end :: bytes where
  "tmpl_item_end = join_lines
     [''</li>'',
      [TAB]]"

definition tmpl_list_end :: bytes where
  "tmpl_list_end = join_lines
     ['''',
      [TAB] @ ''</ul>'',
      '''']"

definition tmpl_end :: bytes where
  "tmpl_end = join_lines
     ['''',
      ''</body>'',
      ''</html>'',
      '''']"

text \<open>The escaping of a string in the text of an element.\<close>

definition html_replacement :: "byte \<Rightarrow> bytes" where
  "html_replacement c =
     (if c = CHR 0x00 then [CHR 0xEF, CHR 0xBF, CHR 0xBD]
      else if c = CHR 0x22 then ''&#34;''
      else if c = CHR ''&'' then ''&amp;''
      else if c = CHR 0x27 then ''&#39;''
      else if c = CHR ''+'' then ''&#43;''
      else if c = CHR ''<'' then ''&lt;''
      else if c = CHR ''>'' then ''&gt;''
      else [c])"

definition html_escape :: "bytes \<Rightarrow> bytes" where
  "html_escape s = concat (map html_replacement s)"

record page =
  Title :: bytes
  Headline :: bytes
  ReturnResults :: bool
  LogMessages :: "bytes list"

definition render :: "page \<Rightarrow> bytes" where
  "render d =
     tmpl_head @ html_escape (Title d) @ tmpl_style @ html_escape (Headline d) @ tmpl_form @
     (if ReturnResults d
      then tmpl_list @ concat (map (\<lambda>m. tmpl_item @ html_escape m @ tmpl_item_end) (LogMessages d)) @ tmpl_list_end
      else []) @ tmpl_end"

subsection \<open>The handler\<close>

text \<open>What the handler reads from the clock, formatted: the epoch, the current time, the duration of a search.\<close>

record clock =
  epoch_stamp :: bytes
  now_stamp :: bytes
  dur_string :: bytes

record HTTPServer =
  http_iface :: string
  http_searcher :: searcher
  http_addr :: "string option"

definition NewHTTPServer :: "string \<Rightarrow> searcher \<Rightarrow> HTTPServer" where
  "NewHTTPServer ifc search = \<lparr>http_iface = ifc, http_searcher = search, http_addr = None\<rparr>"

text \<open>\<open>Start\<close> up to serving; parsing the constant template does not fail.\<close>

definition HTTPServer_Start :: "(string \<Rightarrow> string + string) \<Rightarrow> HTTPServer \<Rightarrow> HTTPServer \<times> string option" where
  "HTTPServer_Start listen s =
     (case listen (http_iface s) of
        Inl err \<Rightarrow> (s, Some err)
      | Inr a \<Rightarrow> (s\<lparr>http_addr := Some a\<rparr>, None))"

definition dontCache :: "clock \<Rightarrow> Response \<Rightarrow> Response" where
  "dontCache ck w =
     Header_Set ''Cache-Control'' ''private, no-store, max-age=0, no-cache, must-revalidate, post-check=0, pre-check=0''
       (Header_Set ''Last-Modified'' (now_stamp ck) (Header_Set ''Expires'' (epoch_stamp ck) w))"

definition serveIndex :: "Response \<Rightarrow> Response \<times> bytes option" where
  "serveIndex w =
     Write (render \<lparr>Title = ''Ekanite query interface'', Headline = ''Ekanite query interface'', ReturnResults = False,
                    LogMessages = []\<rparr>) w"

definition result_page :: "clock \<Rightarrow> bytes \<Rightarrow> bytes list \<Rightarrow> page" where
  "result_page ck userQuery resultSlice =
     \<lparr>Title = ''Ekanite query interface'',
      Headline = ''Ekanite - Listing '' @ itoa (length resultSlice) @ '' results for \"'' @ userQuery @ ''\" ('' @ dur_string ck @ '')'',
      ReturnResults = True, LogMessages = resultSlice\<rparr>"

definition ServeHTTP :: "searcher \<Rightarrow> clock \<Rightarrow> Request \<Rightarrow> Response \<Rightarrow> Response" where
  "ServeHTTP search ck r w0 =
     (let w = dontCache ck w0
      in if Method r = ''GET'' \<or> Method r = ''HEAD'' then
           (case serveIndex w of
              (w1, Some err) \<Rightarrow> http_Error (''Error executing template: '' @ err) 500 w1
            | (w1, None) \<Rightarrow> w1)
         else if Method r = ''POST'' then
           (case Form r of
              Inl err \<Rightarrow> http_Error ''Error parsing form'' 400 w
            | Inr f \<Rightarrow>
                if length (FormValue f ''query'') = 0 then fst (serveIndex w)
                else
                  (case search (FormValue f ''query'') of
                     Inl err \<Rightarrow> http_Error (''Error executing query: '' @ err) 500 w
                   | Inr resultSet \<Rightarrow> fst (Write (render (result_page ck (FormValue f ''query'') resultSet)) w)))
         else http_Error ''Unsupported method'' 405 w)"

section \<open>Escaping\<close>

text \<open>Reading an escaped string back.\<close>

definition entities :: "(bytes \<times> byte) list" where
  "entities = [(''&#34;'', CHR 0x22), (''&amp;'', CHR ''&''), (''&#39;'', CHR 0x27), (''&#43;'', CHR ''+''),
     (''&lt;'', CHR ''<''), (''&gt;'', CHR ''>'')]"

function html_unescape :: "bytes \<Rightarrow> bytes" where
  "html_unescape [] = []"
| "html_unescape (c # s) =
     (case find (\<lambda>(e, _). has_prefix (c # s) e) entities of
        None \<Rightarrow> c # html_unescape s
      | Some (e, x) \<Rightarrow> x # html_unescape (drop (length e - 1) s))"
  by pat_completeness auto
termination by (relation "measure length") auto

lemma unescape_replacement:
  assumes "c \<noteq> CHR 0x00"
  shows "html_unescape (html_replacement c @ s) = c # html_unescape s"
  using assms by (simp add: html_replacement_def entities_def)

lemma html_unescape_escape: "CHR 0x00 \<notin> set s \<Longrightarrow> html_unescape (html_escape s) = s"
proof (induction s)
  case (Cons c s)
  then have "c \<noteq> CHR 0x00" by auto
  with Cons show ?case using unescape_replacement [of c "html_escape s"] by (simp add: html_escape_def)
qed (simp add: html_escape_def)

lemma replacement_no_markup: "set (html_replacement c) \<inter> {CHR ''<'', CHR ''>'', CHR 0x22, CHR 0x27} = {}"
  by (simp add: html_replacement_def)

lemma escape_no_markup: "set (html_escape s) \<inter> {CHR ''<'', CHR ''>'', CHR 0x22, CHR 0x27} = {}"
  using replacement_no_markup unfolding html_escape_def set_concat set_map by blast

section \<open>Pages\<close>

definition page_items :: "bytes list \<Rightarrow> bytes" where
  "page_items rs = concat (map (\<lambda>m. tmpl_item @ html_escape m @ tmpl_item_end) rs)"

lemma results_body:
  assumes "Method req = ''POST''" and "Form req = Inr f" and "FormValue f ''query'' = q" and "q \<noteq> []" and "search q = Inr rs"
  shows "\<exists>pre post. body (ServeHTTP search ck req (new_response None)) = pre @ page_items rs @ post"
proof -
  let ?h = "Headline (result_page ck q rs)"
  have "body (ServeHTTP search ck req (new_response None)) = render (result_page ck q rs)"
    using assms by (simp add: ServeHTTP_def dontCache_def new_response_def)
  also have "\<dots> = (tmpl_head @ html_escape ''Ekanite query interface'' @ tmpl_style @ html_escape ?h @ tmpl_form @ tmpl_list) @
      page_items rs @ tmpl_list_end @ tmpl_end"
    by (simp add: render_def result_page_def page_items_def)
  finally show ?thesis by blast
qed

context search_service
begin

lemma page_lists:
  assumes "ok s" and "Method req = ''POST''" and "Form req = Inr f" and "FormValue f ''query'' \<noteq> []"
  shows "\<exists>pre post. body (ServeHTTP (search s) ck req (new_response None)) =
    pre @ page_items (result s (FormValue f ''query'')) @ post"
  by (rule results_body [OF assms(2,3) refl assms(4) answers [OF assms(1)]])

end

section \<open>Properties\<close>

text \<open>
  C39. Every request is answered with the right status. On a connection that takes all writes, GET and HEAD
  get the index page, POST gets 400 when the form does not parse, the index page when there is no
  query, 500 with the error when the search fails and the result page otherwise, and any other method
  405; every response forbids caching. Even when writing fails, the status is never another.
\<close>

theorem http_dispatch:
  assumes "w = new_response r"
  shows "status_of (ServeHTTP search ck req w) =
      (if Method req = ''GET'' \<or> Method req = ''HEAD'' then 200
       else if Method req = ''POST'' then
         (case Form req of
            Inl _ \<Rightarrow> 400
          | Inr f \<Rightarrow> if FormValue f ''query'' = [] then 200
                     else (case search (FormValue f ''query'') of Inl _ \<Rightarrow> 500 | Inr _ \<Rightarrow> 200))
       else 405) \<and>
    header (ServeHTTP search ck req w) ''Cache-Control'' =
      [''private, no-store, max-age=0, no-cache, must-revalidate, post-check=0, pre-check=0'']"
proof -
  let ?w = "dontCache ck w"
  have w: "code ?w = None" "header ?w ''Cache-Control'' =
      [''private, no-store, max-age=0, no-cache, must-revalidate, post-check=0, pre-check=0'']"
    using assms by (simp_all add: dontCache_def new_response_def)
  obtain w1 e where s: "serveIndex ?w = (w1, e)" by fastforce
  have "code (fst (serveIndex ?w)) = Some 200" "header (fst (serveIndex ?w)) = header ?w"
    using w(1) by (simp_all add: serveIndex_def status_of_def)
  then have i: "code w1 = Some 200" "header w1 = header ?w" unfolding s by simp_all
  have e: "code (http_Error m c w1) = Some 200" for m c
    using i(1) by (simp add: http_Error_def status_of_def)
  have g: "ServeHTTP search ck req w = (case e of None \<Rightarrow> w1 | Some err \<Rightarrow> http_Error (''Error executing template: '' @ err) 500 w1)"
    if "Method req = ''GET'' \<or> Method req = ''HEAD''"
    using that s by (cases e) (simp_all add: ServeHTTP_def)
  show ?thesis
  proof (cases "Method req = ''GET'' \<or> Method req = ''HEAD''")
    case True
    with g e i w(2) show ?thesis by (cases e) (simp_all add: status_of_def)
  next
    case False
    with w i s show ?thesis by (simp add: ServeHTTP_def status_of_def split: sum.splits)
  qed
qed

theorem http_dispatch_witness:
  "status_of (ServeHTTP (\<lambda>q. Inl ''no'') \<lparr>epoch_stamp = [], now_stamp = [], dur_string = []\<rparr>
     \<lparr>Method = ''POST'', URLPath = ''/'', Form = Inr [(''query'', [''GET''])]\<rparr> (new_response None)) = 500"
  using http_dispatch [OF refl, of "\<lambda>q. Inl ''no''" _ "\<lparr>Method = ''POST'', URLPath = ''/'', Form = Inr [(''query'', [''GET''])]\<rparr>" None]
  by (simp add: FormValue_def)

text \<open>
  C38. The result page. For a POST with a query the search answers without an error, on a connection that
  takes all writes, the page lists the results in order, one list item each; what stands in an item holds no
  angle bracket or quote, whatever the log message, so a message cannot inject markup, and unescaping it gives the message back (when
  it holds no NUL).
\<close>

theorem http_results_page:
  assumes "Method req = ''POST''" and "Form req = Inr f" and "FormValue f ''query'' = q" and "q \<noteq> []" and "search q = Inr rs"
  shows "\<exists>pre post. body (ServeHTTP search ck req (new_response None)) =
      pre @ concat (map (\<lambda>m. tmpl_item @ html_escape m @ tmpl_item_end) rs) @ post \<and>
    (\<forall>m\<in>set rs. set (html_escape m) \<inter> {CHR ''<'', CHR ''>'', CHR 0x22, CHR 0x27} = {} \<and>
      (CHR 0x00 \<notin> set m \<longrightarrow> html_unescape (html_escape m) = m))"
  using results_body [of req f q search rs ck, OF assms] escape_no_markup html_unescape_escape unfolding page_items_def by blast

theorem http_results_page_witness:
  "\<exists>pre post. body (ServeHTTP (\<lambda>q. Inr [''<b>x'']) \<lparr>epoch_stamp = [], now_stamp = [], dur_string = []\<rparr>
     \<lparr>Method = ''POST'', URLPath = ''/'', Form = Inr [(''query'', [''GET''])]\<rparr> (new_response None)) =
      pre @ (tmpl_item @ ''&lt;b&gt;x'' @ tmpl_item_end) @ post"
proof -
  have "html_escape ''<b>x'' = ''&lt;b&gt;x''" by (simp add: html_escape_def html_replacement_def)
  with http_results_page [of "\<lparr>Method = ''POST'', URLPath = ''/'', Form = Inr [(''query'', [''GET''])]\<rparr>"
      "[(''query'', [''GET''])]" "''GET''" "\<lambda>q. Inr [''<b>x'']" "[''<b>x'']"]
  show ?thesis by (simp add: FormValue_def)
qed

end
