(* ===== verification/Pipeline.thy ===== *)
theory Pipeline
  imports Collector Engine_Service Batcher HTTP_Server
begin

text \<open>
  The batcher on the engine, as \<open>cmd/ekanited/main.go\<close> puts them together: the engine is an
  \<open>event_indexer\<close>, the events the collectors send to the batcher end up in the engine's map, and the
  query servers answer from that map (the engine is a \<open>search_service\<close>).
\<close>

section \<open>The engine as the batcher's indexer\<close>

text \<open>The pair of the file system and the engine is the indexer's state.\<close>

definition engine_indexer :: "'b env \<Rightarrow> ('b world \<times> Engine) indexer" where
  "engine_indexer env x evs =
     map_option (\<lambda>(w, e, err). ((w, e), err)) (Engine_Index env (fst x) (snd x) evs)"

definition engine_up :: "'b env \<Rightarrow> 'b view \<Rightarrow> 'b world \<times> Engine \<Rightarrow> bool" where
  "engine_up env V x \<longleftrightarrow> no_faults env \<and> bleve_works (bleve env) V \<and> eng_ok V (fst x) (snd x)"

definition engine_map :: "'b view \<Rightarrow> 'b world \<times> Engine \<Rightarrow> DocID \<rightharpoonup> doc_data \<times> bytes" where
  "engine_map V x = eng_docs V (fst x) (snd x)"

text \<open>The entries of the documents of a list of events.\<close>

definition event_entry :: "Event list \<Rightarrow> DocID \<rightharpoonup> doc_data \<times> bytes" where
  "event_entry evs = doc_entry (List.map_filter as_document evs)"

lemma doc_entry_append: "doc_entry (xs @ ys) = doc_entry xs ++ doc_entry ys"
proof -
  have "doc_map (xs @ ys) = doc_map xs ++ doc_map ys" by (simp add: doc_map_def)
  then show ?thesis by (auto simp: doc_entry_def fun_eq_iff map_add_def split: option.splits)
qed

lemma event_entry_append: "event_entry (xs @ ys) = event_entry xs ++ event_entry ys"
  by (simp add: event_entry_def map_filter_def doc_entry_append)

lemma event_entry_Nil: "event_entry [] = Map.empty"
  by (simp add: event_entry_def map_filter_def doc_entry_def fun_eq_iff)

lemma those_map_filter: "those (map f xs) = Some ys \<Longrightarrow> List.map_filter f xs = ys"
  by (induction xs arbitrary: ys) (auto simp: map_filter_simps split: option.splits)

lemma event_docs_exist: "\<forall>ev\<in>set evs. event_ok ev \<Longrightarrow> \<exists>ds. those (map as_document evs) = Some ds"
proof (induction evs)
  case (Cons ev evs)
  then obtain ev1 t where "ReferenceTime ev = Some (ev1, t)" "in_range t" by (auto simp: event_ok_def)
  from as_document_ok [OF this] Cons show ?case by auto
qed simp

lemma engine_accepts:
  assumes "engine_up env V x" and "\<forall>ev\<in>set evs. event_ok ev"
  shows "\<exists>y. engine_indexer env x evs = Some (y, None) \<and> engine_up env V y \<and>
    engine_map V y = engine_map V x ++ event_entry evs"
proof -
  have e: "no_faults env" "bleve_works (bleve env) V" "eng_ok V (fst x) (snd x)"
    using assms(1) by (simp_all add: engine_up_def)
  from Engine_Index_ok [OF e assms(2)] obtain w' e' ds where
    i: "Engine_Index env (fst x) (snd x) evs = Some (w', e', None)" "those (map as_document evs) = Some ds"
      "eng_ok V w' e'" "eng_docs V w' e' = eng_docs V (fst x) (snd x) ++ doc_entry ds" by blast
  with e(1,2) those_map_filter [OF i(2)] show ?thesis
    by (simp add: engine_indexer_def engine_up_def engine_map_def event_entry_def)
qed

interpretation en: event_indexer "engine_indexer env" "engine_up env V" event_ok "engine_map V" event_entry
  for env V
proof
  show "\<exists>y. engine_indexer env x evs = Some (y, None) \<and> engine_up env V y"
    if "engine_up env V x" "\<forall>ev\<in>set evs. event_ok ev" for x evs
    using engine_accepts [OF that] by blast
  show "engine_map V y = engine_map V x ++ event_entry evs"
    if "engine_up env V x" "\<forall>ev\<in>set evs. event_ok ev" "engine_indexer env x evs = Some (y, None)" for x evs y
    using engine_accepts [OF that(1,2)] that(3) by auto
qed (rule event_entry_append, rule event_entry_Nil)

section \<open>The engine as the servers' searcher\<close>

definition engine_searcher :: "'b env \<Rightarrow> 'b world \<times> Engine \<Rightarrow> searcher" where
  "engine_searcher env x q =
     (case Engine_Search env (fst x) (snd x) q of None \<Rightarrow> Inl ''panic'' | Some rs \<Rightarrow> Inr rs)"

definition engine_result :: "'b env \<Rightarrow> 'b world \<times> Engine \<Rightarrow> bytes \<Rightarrow> bytes list" where
  "engine_result env x q = the (Engine_Search env (fst x) (snd x) q)"

interpretation es: search_service "engine_searcher env" "engine_up env V" "engine_result env" for env V
proof
  fix s q assume "engine_up env V s"
  then have "bleve_works (bleve env) V" "eng_ok V (fst s) (snd s)" by (simp_all add: engine_up_def)
  from Engine_Search_ok [OF this, of q] show "engine_searcher env s q = Inr (engine_result env s q)"
    by (auto simp: engine_searcher_def engine_result_def)
qed

lemma engine_results_held:
  assumes "engine_up env V x" and "r \<in> set (engine_result env x q)"
  shows "\<exists>i d. engine_map V x i = Some (d, r)"
proof -
  have "bleve_works (bleve env) V" "eng_ok V (fst x) (snd x)" using assms(1) by (simp_all add: engine_up_def)
  from Engine_Search_ok [OF this, of q] assms(2) show ?thesis
    by (fastforce simp: engine_result_def engine_map_def)
qed

section \<open>Properties\<close>

text \<open>The events a client has sent, when all of them are in the engine.\<close>

lemma drained_engine:
  assumes "engine_up env V x" and "0 < n" and "reachable (engine_indexer env) (NewBatcher x n dur mx) b"
    and "\<forall>ev\<in>set (sent b). event_ok ev" and "(run (engine_indexer env))\<^sup>*\<^sup>* b b'" and "\<nexists>b''. run (engine_indexer env) b' b''"
  shows "engine_up env V (ixs b') \<and> engine_map V (ixs b') = engine_map V x ++ event_entry (sent b)"
proof -
  let ?I = "engine_indexer env" and ?b0 = "NewBatcher x n dur mx"
  have h0: "healthy (engine_up env V) ?b0" using new_healthy [of "engine_up env V" x n dur mx] assms(1,2) by blast
  have r: "reachable ?I ?b0 b'"
    using assms(5,3) by (induction rule: rtranclp_induct) (blast intro: reachable.Step step.Run)+
  have h: "healthy (engine_up env V) b" by (rule en.reachable_healthy [OF assms(3) h0 assms(4)])
  from en.runs_healthy [OF assms(5) h assms(4)] have h': "healthy (engine_up env V) b'" "sent b' = sent b" by auto
  with assms(4) have g: "\<forall>ev\<in>set (sent b'). event_ok ev" by simp
  have "concat (accepted b') = sent b" using en.idle_delivered(1) [OF h'(1) g assms(6)] h'(2) by simp
  moreover have "engine_map V (ixs b') = engine_map V (ixs ?b0) ++ event_entry (concat (accepted b'))"
    by (rule en.reachable_held [OF r h0 _ g]) (simp add: NewBatcher_def)
  ultimately show ?thesis using h'(1) by (simp add: healthy_def NewBatcher_def)
qed

lemma run_drains: "\<exists>b'. (run index)\<^sup>*\<^sup>* b b' \<and> (\<nexists>b''. run index b' b'')"
proof (induction "work b" arbitrary: b rule: less_induct)
  case less
  show ?case
  proof (cases "\<exists>b1. run index b b1")
    case True
    then obtain b1 where b1: "run index b b1" by blast
    with run_work less obtain b' where "(run index)\<^sup>*\<^sup>* b1 b'" "\<nexists>b''. run index b' b''" by blast
    with b1 show ?thesis by (meson converse_rtranclp_into_rtranclp)
  qed blast
qed

text \<open>
  C6. From the batcher's channel to the index. Take a batcher of any positive size on an engine in
  order (no faults of the file system, a search library that works), in any state it reaches while
  producers send it events of 1970 to 2262. If the producers pause, the goroutine and its timer come
  to rest, and however they do, no event is lost: the engine is in order and holds what it held at the start,
  overridden by the documents of all events sent, in the order sent.
\<close>

theorem batched_events_indexed:
  assumes "no_faults env" and "bleve_works (bleve env) V" and "eng_ok V w e" and "0 < n"
    and "reachable (engine_indexer env) (NewBatcher (w, e) n dur mx) b" and "\<forall>ev\<in>set (sent b). event_ok ev"
  shows "\<exists>ds. those (map as_document (sent b)) = Some ds \<and>
    (\<exists>b'. (run (engine_indexer env))\<^sup>*\<^sup>* b b' \<and> (\<nexists>b''. run (engine_indexer env) b' b'')) \<and>
    (\<forall>b'. (run (engine_indexer env))\<^sup>*\<^sup>* b b' \<and> (\<nexists>b''. run (engine_indexer env) b' b'') \<longrightarrow>
       (case ixs b' of (w', e') \<Rightarrow> eng_ok V w' e' \<and> eng_docs V w' e' = eng_docs V w e ++ doc_entry ds))"
proof -
  have up: "engine_up env V (w, e)" using assms(1-3) by (simp add: engine_up_def)
  from event_docs_exist [OF assms(6)] obtain ds where ds: "those (map as_document (sent b)) = Some ds" by blast
  have "event_entry (sent b) = doc_entry ds" by (simp add: event_entry_def those_map_filter [OF ds])
  with drained_engine [OF up assms(4-6)] run_drains ds show ?thesis
    by (fastforce simp: engine_up_def engine_map_def split: prod.splits)
qed

theorem batched_events_indexed_witness:
  "\<exists>b ds. reachable (engine_indexer mem_env) (NewBatcher (mem_start, NewEngine [''data'']) 2 ns_per_sec 5) b \<and>
    sent b = [an_event 5 ''GET a''] \<and> those (map as_document (sent b)) = Some ds \<and>
    (\<exists>b'. (run (engine_indexer mem_env))\<^sup>*\<^sup>* b b' \<and> (\<nexists>b''. run (engine_indexer mem_env) b' b''))"
proof -
  let ?new = "NewBatcher (mem_start, NewEngine [''data'']) 2 ns_per_sec 5" and ?ev = "an_event 5 ''GET a''"
  let ?b = "?new\<lparr>chan := chan ?new @ [?ev], sent := sent ?new @ [?ev]\<rparr>"
  have "step (engine_indexer mem_env) ?new ?b" by (rule step.Produce) (simp add: NewBatcher_def)
  then have r: "reachable (engine_indexer mem_env) ?new ?b" by (rule reachable.Step [OF reachable.Start])
  moreover have s: "sent ?b = [?ev]" by (simp add: NewBatcher_def)
  moreover have "\<forall>ev\<in>set (sent ?b). event_ok ev" unfolding s using an_event_ok by simp
  ultimately show ?thesis
    using batched_events_indexed [OF mem_no_faults mem_env_works new_engine_ok _ r] by auto
qed

text \<open>The documents of collected events have different IDs.\<close>

lemma those_ids:
  "those (map as_document evs) = Some ds \<Longrightarrow> map ID evs = map Some ids \<Longrightarrow> map doc_id ds = map snd ids"
  by (induction evs arbitrary: ds ids) (auto simp: as_document_def split: option.splits)

lemma collected_docs:
  assumes "collected k s" and "length (made (glob s)) < 2 ^ 64"
    and "\<forall>ev\<in>set (out (glob s)). \<forall>ev1 t. ReferenceTime ev = Some (ev1, t) \<longrightarrow> in_range t"
  shows "\<exists>ds. those (map as_document (out (glob s))) = Some ds \<and> distinct (map doc_id ds) \<and>
    (\<forall>ev\<in>set (out (glob s)). event_ok ev)"
proof -
  have "set (out (glob s)) \<subseteq> set (made (glob s))"
    using assms(1) unfolding collected_def by (metis set_mset_mset set_mset_union sup_ge1)
  then have "\<forall>ev\<in>set (out (glob s)). event_ok ev"
    using assms(1,3) parsed_event_time unfolding collected_def event_ok_def by (meson subsetD)
  with event_docs_exist collected_ids [OF assms(1,2)] those_ids show ?thesis by metis
qed

text \<open>
  From the network to search results. Take the collectors in any state they reach, with fewer
  than \<open>2 ^ 64\<close> events made and all reference times in 1970 to 2262; a batcher of positive size on an
  engine in order that has been sent what the collectors sent, and that has come to rest after the
  last event. Then a search, as long as no index holds more than \<open>maxSearchHitSize\<close> matches, delivers the
  text of every collected event that the query matches.
\<close>

theorem ingest_to_search:
  assumes "no_faults env" and "bleve_works (bleve env) V" and "eng_ok V w e" and "0 < n"
    and "sys_step\<^sup>*\<^sup>* (sys_init k) s" and "length (made (glob s)) < 2 ^ 64"
    and "\<forall>ev\<in>set (out (glob s)). \<forall>ev1 t. ReferenceTime ev = Some (ev1, t) \<longrightarrow> in_range t"
    and "reachable (engine_indexer env) (NewBatcher (w, e) n dur mx) b" and "sent b = out (glob s)"
    and "\<nexists>b'. run (engine_indexer env) b b'" and "ixs b = (w', e')"
    and "\<forall>i\<in>set (indexes e'). card (matching V w' i q) \<le> maxSearchHitSize"
  shows "\<exists>res. Engine_Search env w' e' q = Some res \<and>
    (\<forall>ev\<in>set (out (glob s)). matches V q \<lparr>Message = Text ev\<rparr> \<longrightarrow> Text ev \<in> set res)"
proof -
  from collected_docs [OF sys_reachable_collected [OF assms(5)] assms(6,7)] obtain ds where
    ds: "those (map as_document (out (glob s))) = Some ds" "distinct (map doc_id ds)" "\<forall>ev\<in>set (out (glob s)). event_ok ev"
    by blast
  have "engine_up env V (w, e)" using assms(1-3) by (simp add: engine_up_def)
  from drained_engine [OF this assms(4,8) _ rtranclp.rtrancl_refl assms(10)] ds(3) assms(9,11)
  have "eng_ok V w' e'" "eng_docs V w' e' = eng_docs V w e ++ doc_entry ds"
    by (simp_all add: engine_up_def engine_map_def event_entry_def those_map_filter [OF ds(1)])
  from search_finds [OF assms(2) this ds(3,1,2) assms(12)] show ?thesis .
qed

theorem ingest_to_search_witness:
  "\<exists>s b w' e' res. sys_step\<^sup>*\<^sup>* (sys_init 7) s \<and>
    reachable (engine_indexer mem_env) (NewBatcher (mem_start, NewEngine [''data'']) 2 ns_per_sec 5) b \<and> sent b = out (glob s) \<and>
    ixs b = (w', e') \<and> Engine_Search mem_env w' e' ''ubuntu'' = Some res \<and> line_of (a_msg ''x'') \<in> set res"
proof -
  let ?new = "NewBatcher (mem_start, NewEngine [''data'']) 2 ns_per_sec 5" and ?I = "engine_indexer mem_env"
  obtain s ev where s: "sys_step\<^sup>*\<^sup>* (sys_init 7) s" "length (made (glob s)) = 1" "out (glob s) = [ev]"
    and ev: "Text ev = line_of (a_msg ''x'')" "Parsed ev = Some (fields_of (a_msg ''x''))" "referenceTime ev = 0"
    using one_datagram_collected [of 7] by (elim exE conjE) (rule that)
  have "parse_rfc3339 ''2003-08-24T05:14:15Z'' = Some (unix_epoch + 1061702055 * ns_per_sec)" by code_simp
  then have t: "\<forall>ev1 t. ReferenceTime ev = Some (ev1, t) \<longrightarrow> in_range t"
    using ev by (simp add: ReferenceTime_def IsZero_def fields_of_def a_msg_def in_range_def ns_per_sec_def)
  have lt: "length (made (glob s)) < 2 ^ 64" using s(2) by simp
  from collected_docs [OF sys_reachable_collected [OF s(1)] lt] t s(3) obtain ds where
    ds: "those (map as_document [ev]) = Some ds" "event_ok ev" by auto
  have "step ?I ?new (?new\<lparr>chan := chan ?new @ [ev], sent := sent ?new @ [ev]\<rparr>)" (is "step _ _ ?one")
    by (rule step.Produce) (simp add: NewBatcher_def)
  then have r: "reachable ?I ?new ?one" by (rule reachable.Step [OF reachable.Start])
  have sent: "sent ?one = [ev]" by (simp add: NewBatcher_def)
  obtain b where b: "(run ?I)\<^sup>*\<^sup>* ?one b" "\<nexists>b'. run ?I b b'" using run_drains by blast
  have rb: "reachable ?I ?new b"
    using b(1) r by (induction rule: rtranclp_induct) (blast intro: reachable.Step step.Run)+
  have sb: "sent b = [ev]" using b(1) sent by (induction rule: rtranclp_induct) (use run_work in metis)+
  obtain w' e' where x: "ixs b = (w', e')" by fastforce
  have "engine_up mem_env mem_view (mem_start, NewEngine [''data''])"
    using mem_no_faults mem_env_works new_engine_ok by (simp add: engine_up_def)
  from drained_engine [OF this _ rb _ rtranclp.rtrancl_refl b(2)] sb ds(2) x
  have e: "eng_ok mem_view w' e'" "eng_docs mem_view w' e' = eng_docs mem_view mem_start (NewEngine [''data'']) ++ doc_entry ds"
    by (simp_all add: engine_up_def engine_map_def event_entry_def those_map_filter [OF ds(1)] del: map_filter_simps)
  have "length ds \<le> 2" using ds(1) by (auto split: option.splits)
  note few = few_matches [OF e this]
  have "\<forall>ev\<in>set (out (glob s)). \<forall>ev1 t. ReferenceTime ev = Some (ev1, t) \<longrightarrow> in_range t" using t s(3) by simp
  from ingest_to_search [OF mem_no_faults mem_env_works new_engine_ok _ s(1) lt this rb _ b(2) x few, of "''ubuntu''"] sb s(3)
  obtain res where "Engine_Search mem_env w' e' ''ubuntu'' = Some res"
    "matches mem_view ''ubuntu'' \<lparr>Message = Text ev\<rparr> \<longrightarrow> Text ev \<in> set res" by auto
  moreover have "matches mem_view ''ubuntu'' \<lparr>Message = Text ev\<rparr>"
    unfolding ev(1) mem_view_def
    using sublist_appendI [of "''ubuntu''" "''<134>1 2003-08-24T05:14:15Z ''" "'' sshd 1999 - x''"]
    by (simp add: line_of_def a_msg_def rfc5424_line_def)
  ultimately show ?thesis
    using s(1,3) rb sb x ev(1) by (intro exI [of _ s] exI [of _ b] exI [of _ w'] exI [of _ e'] exI [of _ res]) simp
qed

text \<open>
  C16. Queries over the network. For an engine in order that holds no empty message and none with a newline, whatever lines a
  client sends to the query server, cutting the bytes of the response into lines at the newlines and reading these up to two empty lines per
  query recovers, for each non-empty line sent, in order, exactly the messages the engine finds; and the HTTP interface lists the same
  messages for the same query.
\<close>

theorem engine_answers_queries:
  assumes "bleve_works (bleve env) V" and "no_faults env" and "eng_ok V w e"
    and "\<forall>i d m. eng_docs V w e i = Some (d, m) \<longrightarrow> m \<noteq> [] \<and> LF \<notin> set m"
    and "\<forall>l\<in>set ls. LF \<notin> set l" and "LF \<notin> set tail"
  shows "client_all (length (queries_of ls)) (split_lines (Server_handleConnection (engine_searcher env (w, e)) (lines_of ls @ tail))) =
      map (\<lambda>q. the (Engine_Search env w e q)) (queries_of ls) \<and>
    (\<forall>req f. Method req = ''POST'' \<and> Form req = Inr f \<and> FormValue f ''query'' \<noteq> [] \<longrightarrow>
      (\<exists>pre post. body (ServeHTTP (engine_searcher env (w, e)) ck req (new_response None)) =
        pre @ page_items (the (Engine_Search env w e (FormValue f ''query''))) @ post))"
proof -
  have up: "engine_up env V (w, e)" using assms(1-3) by (simp add: engine_up_def)
  have r: "engine_result env (w, e) = (\<lambda>q. the (Engine_Search env w e q))" by (simp add: engine_result_def fun_eq_iff)
  have "one_line r" if "r \<in> set (engine_result env (w, e) q)" for q r
    using engine_results_held [OF up that] assms(4) by (auto simp: engine_map_def one_line_def)
  from es.connection_answered [OF up assms(5,6) this] es.page_lists [OF up] show ?thesis
    unfolding r by (intro conjI allI impI) (assumption, elim conjE, blast)
qed

theorem engine_answers_queries_witness:
  "\<exists>w' e'. Engine_Index mem_env mem_start (NewEngine [''data'']) [an_event 5 ''GET a''] = Some (w', e', None) \<and>
    client_all (length (queries_of [''GET'', ''PUT''])) (split_lines (Server_handleConnection (engine_searcher mem_env (w', e')) (lines_of [''GET'', ''PUT''] @ []))) = map (\<lambda>q. the (Engine_Search mem_env w' e' q)) (queries_of [''GET'', ''PUT''])"
proof -
  from Engine_Index_ok [OF mem_no_faults mem_env_works new_engine_ok, of "[an_event 5 ''GET a'']"] an_event_ok
  obtain w' e' ds where w: "Engine_Index mem_env mem_start (NewEngine [''data'']) [an_event 5 ''GET a''] = Some (w', e', None)"
    "those (map as_document [an_event 5 ''GET a'']) = Some ds" "eng_ok mem_view w' e'"
    "eng_docs mem_view w' e' = eng_docs mem_view mem_start (NewEngine [''data'']) ++ doc_entry ds" by auto
  have "eng_docs mem_view mem_start (NewEngine [''data'']) = Map.empty"
    by (simp add: eng_docs_def NewEngine_def indexForReferenceTime_def fun_eq_iff)
  moreover obtain d where d: "as_document (an_event 5 ''GET a'') = Some d" "ds = [d]" using w(2) by (auto split: option.splits)
  moreover have "source d = ''GET a''"
    using d(1) by (auto simp: as_document_def ID_def Source_def an_event_def NewEvent_def ReferenceTime_def IsZero_def)
  ultimately have "\<forall>i d m. eng_docs mem_view w' e' i = Some (d, m) \<longrightarrow> m \<noteq> [] \<and> LF \<notin> set m"
    unfolding w(4) by (auto simp: doc_entry_def split: if_splits)
  from engine_answers_queries [OF mem_env_works mem_no_faults w(3) this, of "[''GET'', ''PUT'']" "[]"] w(1) show ?thesis by auto
qed

end
