(* ===== verification/Engine_Restart.thy ===== *)
theory Engine_Restart
  imports Engine_Service
begin

text \<open>
  Durability of the engine: what it has on disk is what \<open>Engine.Open\<close> finds. The invariant \<open>disk_ok\<close> (the
  files of every index, as \<open>NewIndex\<close> left them) is kept by indexing and by retention, and from a
  directory in that state, with no shard open any more, a new process opens an engine with the same indexes and documents. A process
  that dies while it creates an index leaves a directory that cannot be opened.
\<close>

section \<open>What is on disk\<close>

definition on_disk :: "'b world \<Rightarrow> Index \<Rightarrow> bool" where
  "on_disk w i \<longleftrightarrow> (\<exists>n. 0 < n \<and> n < 10000 \<and> i = index_at (ipath i) (startTime i) (endTime i) n \<and>
     index_files (nodes w) (ipath i) (endTime i) n) \<and> four_digit_year (endTime i)"

text \<open>A \<open>time.Duration\<close> is a 64-bit number, hence the bound.\<close>

definition disk_ok :: "'b world \<Rightarrow> Engine \<Rightarrow> bool" where
  "disk_ok w e \<longleftrightarrow> epath e \<noteq> [] \<and> IndexDuration e < 2 ^ 63 \<and> (\<forall>i\<in>set (indexes e). on_disk w i)"

text \<open>Indexing and retention change the list of indexes only.\<close>

definition same_config :: "Engine \<Rightarrow> Engine \<Rightarrow> bool" where
  "same_config e e' \<longleftrightarrow> e' = e\<lparr>indexes := indexes e'\<rparr>"

lemma same_configD:
  assumes "same_config e e'"
  shows "epath e' = epath e" "NumShards e' = NumShards e" "IndexDuration e' = IndexDuration e"
    "RetentionPeriod e' = RetentionPeriod e" "isOpen e' = isOpen e"
  by (subst assms [unfolded same_config_def], simp)+

lemma demux_config: "demux env w e evs subs = Some (w', e', subs') \<Longrightarrow> same_config e e'"
proof (induction evs arbitrary: w e subs)
  case (Cons ev evs)
  have create: "same_config e e1" if "createIndexForReferenceTime env w e t = Some (w1, e1, r)" for t w1 e1 r
    using that by (auto simp: createIndexForReferenceTime_def createIndex_def Let_def same_config_def
        split: if_splits option.splits prod.splits sum.splits)
  have trans: "same_config e e'" if "same_config e e1" "same_config e1 e'" for e1
    using that by (cases e, cases e1, cases e') (simp add: same_config_def)
  from Cons.prems show ?case
    by (auto split: option.splits prod.splits sum.splits dest!: Cons.IH create intro: trans)
qed (simp add: same_config_def)

lemma Engine_Index_config: "Engine_Index env w e evs = Some (w', e', r) \<Longrightarrow> same_config e e'"
  by (auto simp: Engine_Index_def split: option.splits prod.splits dest: demux_config)

lemma retention_config: "enforceRetention env w e now = Some (w', e') \<Longrightarrow> same_config e e'"
  by (auto simp: enforceRetention_def same_config_def)

lemma index_files_frame:
  assumes "index_files ns p e n" and "distinct (map fst ns')" and "\<forall>q. prefix p q \<longrightarrow> map_of ns' q = map_of ns q"
  shows "index_files ns' p e n"
  using assms by (auto simp: index_files_def)

lemma on_disk_frame:
  assumes "on_disk w i" and "distinct (map fst (nodes w'))" and "\<forall>q. prefix (ipath i) q \<longrightarrow> map_of (nodes w') q = map_of (nodes w) q"
  shows "on_disk w' i"
  using assms index_files_frame unfolding on_disk_def by blast

lemma on_disk_cong: "nodes w' = nodes w \<Longrightarrow> on_disk w' i = on_disk w i"
  by (simp only: on_disk_def)

lemma eng_distinct: "eng_ok V w e \<Longrightarrow> distinct (map fst (nodes w))"
  by (simp add: eng_ok_def eng_files_def)

lemma in_range_end:
  assumes "in_range t" and "0 < d" and "d < 2 ^ 63"
  shows "four_digit_year (Truncate t d + d)"
proof -
  have "four_digit_year (Truncate t d)" by (rule in_range_year [OF assms(1,2)])
  moreover have "Truncate t d \<le> t" using Truncate_bounds [OF assms(2)] by blast
  moreover have "t < unix_epoch + 2 ^ 63" using assms(1) by (simp add: in_range_def)
  moreover have "unix_epoch + 2 ^ 63 + 2 ^ 63 \<le> date_ns 10000 1 1 0 0 0 0" by code_simp
  ultimately show ?thesis using assms(2,3) by (simp add: four_digit_year_def)
qed

lemma create_disk:
  assumes "no_faults env" and "bleve_works (bleve env) V" and "eng_ok V w e" and "disk_ok w e"
    and "indexForReferenceTime e t = None" and "in_range t"
    and "createIndexForReferenceTime env w e t = Some (w', e', Inr i)"
  shows "eng_ok V w' e' \<and> disk_ok w' e'"
proof -
  have sh: "0 < IndexDuration e" "0 < NumShards e" "NumShards e \<le> maxShardCount"
    using assms(3) by (auto simp: eng_ok_def eng_shape_def)
  have d: "IndexDuration e < 2 ^ 63" using assms(4) by (simp add: disk_ok_def)
  from create_ok [OF assms(1-3,5) in_range_year [OF assms(6) sh(1)]] assms(7) have
    c: "eng_ok V w' e'" "set (indexes e') = insert i (set (indexes e))" "e' = e\<lparr>indexes := indexes e'\<rparr>"
      "startTime i = Truncate t (IndexDuration e)" "i = index_at (ipath i) (startTime i) (endTime i) (nat (NumShards e))"
      "index_files (nodes w') (ipath i) (endTime i) (nat (NumShards e))"
      "\<forall>j\<in>set (indexes e). \<forall>q. prefix (ipath j) q \<longrightarrow> map_of (nodes w') q = map_of (nodes w) q" by auto
  have "window_ok e' i" using c(1,2) by (simp add: eng_ok_def eng_shape_def)
  moreover have e': "IndexDuration e' = IndexDuration e" "epath e' = epath e" by (subst c(3), simp)+
  ultimately have "endTime i = Truncate t (IndexDuration e) + IndexDuration e" using c(4) by (simp add: window_ok_def)
  with in_range_end [OF assms(6) sh(1) d] have y: "four_digit_year (endTime i)" by simp
  have "0 < nat (NumShards e) \<and> nat (NumShards e) < 10000" using sh by simp
  with c(5,6) y have "on_disk w' i" unfolding on_disk_def by blast
  moreover have "on_disk w' j" if "j \<in> set (indexes e)" for j
    using on_disk_frame [OF _ eng_distinct [OF c(1)], of w j] assms(4) c(7) that unfolding disk_ok_def by blast
  ultimately show ?thesis using c(1,2) e' assms(4) by (simp add: disk_ok_def)
qed

lemma demux_disk:
  assumes "no_faults env" and "bleve_works (bleve env) V" and "eng_ok V w e" and "disk_ok w e" and "\<forall>ev\<in>set evs. event_ok ev"
    and "demux env w e evs subs = Some (w', e', subs')"
  shows "disk_ok w' e'"
  using assms(3-6)
proof (induction evs arbitrary: w e subs)
  case (Cons ev evs)
  from Cons.prems(3) obtain ev1 t where t: "ReferenceTime ev = Some (ev1, t)" "in_range t" by (auto simp: event_ok_def)
  from as_document_ok [OF t] obtain d where d: "as_document ev = Some d" by blast
  show ?case
  proof (cases "indexForReferenceTime e t")
    case (Some i)
    with Cons t d show ?thesis by simp
  next
    case None
    with Cons.prems(4) t(1) d obtain w1 e1 i where c: "createIndexForReferenceTime env w e t = Some (w1, e1, Inr i)"
      "demux env w1 e1 evs (add_to i d subs) = Some (w', e', subs')"
      by (auto split: option.splits prod.splits sum.splits)
    from create_disk [OF assms(1,2) Cons.prems(1,2) None t(2) c(1)] Cons.IH [OF _ _ _ c(2)] Cons.prems(3) show ?thesis by simp
  qed
qed simp

lemma Engine_Index_disk:
  assumes "no_faults env" and "bleve_works (bleve env) V" and "eng_ok V w e" and "disk_ok w e" and "\<forall>ev\<in>set evs. event_ok ev"
    and "Engine_Index env w e evs = Some (w', e', None)"
  shows "disk_ok w' e'"
proof -
  have "subs_ok e [] []" by (simp add: subs_ok_def batch_for_def)
  from demux_ok [OF assms(1-3,5) this] obtain w1 subs ds where
    d: "demux env w e evs [] = Some (w1, e', subs)" "eng_ok V w1 e'" "subs_ok e' subs ds" "put_all (Index_Index env) w1 subs = Some w'"
    using assms(6) by (auto simp: Engine_Index_def)
  have "fst ` set subs \<subseteq> set (indexes e')" using d(3) by (auto simp: subs_ok_def)
  moreover have "\<forall>j\<in>set (indexes e'). idx_ok V w1 j" using d(2) by (simp add: eng_ok_def)
  moreover have "\<forall>i\<in>set (indexes e'). \<forall>j\<in>set (indexes e'). i \<noteq> j \<longrightarrow> apart i j" using eng_apart [OF d(2)] by blast
  ultimately have "nodes w' = nodes w1" using put_all_nodes [OF assms(2) _ _ _ d(4)] by blast
  with demux_disk [OF assms(1-5) d(1)] show ?thesis by (simp add: disk_ok_def on_disk_def)
qed

lemma retention_disk:
  assumes "no_faults env" and "eng_ok V w e" and "disk_ok w e" and "length now = length (indexes e)"
    and "enforceRetention env w e now = Some (w', e')"
  shows "disk_ok w' e'"
proof -
  from enforceRetention_ok [OF assms(1,2,4)] assms(5) have
    r: "eng_ok V w' e'" "indexes e' = kept_of (RetentionPeriod e) (zip now (indexes e))" "e' = e\<lparr>indexes := indexes e'\<rparr>"
      "\<forall>i\<in>set (indexes e'). \<forall>q. prefix (ipath i) q \<longrightarrow> map_of (nodes w') q = map_of (nodes w) q" by auto
  have "set (indexes e') \<subseteq> set (indexes e)"
    unfolding r(2) kept_of_def by (auto dest: set_zip_rightD)
  then have "on_disk w' i" if "i \<in> set (indexes e')" for i
    using on_disk_frame [OF _ eng_distinct [OF r(1)], of w i] assms(3) r(4) that by (auto simp: disk_ok_def)
  moreover have "IndexDuration e' = IndexDuration e" "epath e' = epath e" by (subst r(3), simp)+
  ultimately show ?thesis using assms(3) by (simp add: disk_ok_def)
qed

text \<open>What retention removes from the map of documents is older than the retention period.\<close>

lemma eng_docs_index:
  assumes "eng_docs V w e x = Some y"
  shows "\<exists>i\<in>set (indexes e). Contains i (id_time x) \<and> lookup_doc V w i x = Some y"
  using assms by (auto simp: eng_docs_def indexForReferenceTime_def find_Some_iff split: option.splits)

lemma retention_docs:
  assumes "no_faults env" and "eng_ok V w e" and "length now = length (indexes e)" and "enforceRetention env w e now = Some (w', e')"
  shows "eng_docs V w' e' \<subseteq>\<^sub>m eng_docs V w e"
    and "eng_docs V w e x = Some y \<Longrightarrow> eng_docs V w' e' x = Some y \<or> (\<exists>t\<in>set now. id_time x + RetentionPeriod e < t)"
proof -
  from enforceRetention_ok [OF assms(1-3)] assms(4) have
    r: "eng_ok V w' e'" "indexes e' = kept_of (RetentionPeriod e) (zip now (indexes e))"
      "\<forall>i\<in>set (indexes e'). lookup_doc V w' i = lookup_doc V w i" by auto
  have sub: "set (indexes e') \<subseteq> set (indexes e)" unfolding r(2) kept_of_def by (auto dest: set_zip_rightD)
  have sh: "eng_shape e" "eng_shape e'" using assms(2) r(1) by (simp_all add: eng_ok_def)
  show "eng_docs V w' e' \<subseteq>\<^sub>m eng_docs V w e"
    unfolding map_le_def
  proof
    fix x assume "x \<in> dom (eng_docs V w' e')"
    then obtain i where i: "i \<in> set (indexes e')" "Contains i (id_time x)" using eng_docs_index by blast
    have "i \<in> set (indexes e)" using sub i(1) by blast
    from eng_docs_at [OF sh(1) this i(2), of V w] eng_docs_at [OF sh(2) i, of V w'] r(3) i(1)
    show "eng_docs V w' e' x = eng_docs V w e x" by simp
  qed
  assume "eng_docs V w e x = Some y"
  then obtain i where i: "i \<in> set (indexes e)" "Contains i (id_time x)" "lookup_doc V w i x = Some y"
    using eng_docs_index by blast
  then obtain t where t: "(t, i) \<in> set (zip now (indexes e))" using assms(3) by (metis in_set_impl_in_set_zip2 length_map)
  show "eng_docs V w' e' x = Some y \<or> (\<exists>t\<in>set now. id_time x + RetentionPeriod e < t)"
  proof (cases "Expired i t (RetentionPeriod e)")
    case True
    then have "id_time x + RetentionPeriod e < t" using i(2) by (simp add: Expired_def Contains_def)
    then show ?thesis using t by (auto dest: set_zip_leftD)
  next
    case False
    then have "i \<in> set (indexes e')" using t unfolding r(2) kept_of_def by force
    with eng_docs_at [OF sh(2) this i(2), of V w'] r(3) i(3) show ?thesis by simp
  qed
qed

section \<open>Opening\<close>

text \<open>One index, then all of a directory.\<close>

lemma append_int_no_dot: "CHR ''.'' \<notin> set (append_int n k)"
  using itoa_digits [of "nat \<bar>n\<bar>"] by (auto simp: append_int_def Let_def list_all_iff is_digit_def)

lemma format_no_dot: "\<not> has_prefix (format_index_name t) ''.''"
proof -
  have "CHR ''.'' \<notin> set (format_index_name t)"
    by (auto simp: format_index_name_def Let_def append_int_no_dot split: prod.splits)
  then show ?thesis by (auto simp: has_prefix_iff)
qed

definition openable :: "'b view \<Rightarrow> 'b world \<Rightarrow> Engine \<Rightarrow> Index \<Rightarrow> bool" where
  "openable V w e i \<longleftrightarrow> on_disk w i \<and> ipath i = Join (epath e) (format_index_name (startTime i)) \<and>
     four_digit_year (startTime i) \<and> to_minute (startTime i) = startTime i \<and> to_minute (endTime i) = endTime i \<and>
     (\<forall>k<length (Shards i). shut V w (shard_path i k))"

lemma openable_frame:
  assumes "openable V w e i" and "nodes w' = nodes w" and "epath e' = epath e"
    and "\<forall>k<length (Shards i). stores w' (shard_path i k) = stores w (shard_path i k)"
  shows "openable V w' e' i"
  using assms unfolding openable_def on_disk_def shut_def by metis

lemma OpenIndex_same:
  assumes "no_faults env" and "bleve_reopens (bleve env) V" and "openable V w e i"
  shows "\<exists>w'. OpenIndex env w (ipath i) = (w', Inr i) \<and> nodes w' = nodes w \<and> same_index V w w' i \<and>
    (\<forall>q. q \<notin> sh_path ` set (Shards i) \<longrightarrow> stores w' q = stores w q)"
proof -
  from assms(3) obtain n where n: "0 < n" "n < 10000" "i = index_at (ipath i) (startTime i) (endTime i) n"
    "index_files (nodes w) (ipath i) (endTime i) n" "four_digit_year (endTime i)"
    unfolding openable_def on_disk_def by blast
  have paths: "map sh_path (Shards i) = shard_paths (ipath i) n"
    by (subst n(3)) (simp add: index_at_def comp_def)
  then have set: "sh_path ` set (Shards i) = set (shard_paths (ipath i) n)" by (metis list.set_map)
  have st: "\<forall>q\<in>set (shard_paths (ipath i) n). shut V w q"
    unfolding set [symmetric] using assms(3) by (auto simp: openable_def in_set_conv_nth)
  have "last (ipath i) = format_index_name (startTime i)" using assms(3) by (simp add: openable_def Join_def)
  note last = this
  have y: "four_digit_year (startTime i)" and tm: "to_minute (startTime i) = startTime i" "to_minute (endTime i) = endTime i"
    using assms(3) unfolding openable_def by blast+
  from OpenIndex_ok [OF assms(1,2) n(4,2) last y n(5) st] obtain w' where
    "OpenIndex env w (ipath i) = (w', Inr i)" "nodes w' = nodes w"
    "\<forall>q\<in>set (shard_paths (ipath i) n). \<exists>b'. stores w' q = Some b' \<and> same_docs V (the (stores w q)) b'"
    "\<forall>q. q \<notin> set (shard_paths (ipath i) n) \<longrightarrow> stores w' q = stores w q" unfolding tm n(3) [symmetric] by blast
  moreover have "same_index V w w' i"
    unfolding same_index_def
  proof (intro allI impI)
    fix k assume "k < length (Shards i)"
    then have "shard_path i k \<in> set (shard_paths (ipath i) n)" unfolding set [symmetric] by simp
    with calculation(3) st show "\<exists>b b'. stores w (shard_path i k) = Some b \<and> stores w' (shard_path i k) = Some b' \<and> same_docs V b b'"
      unfolding shut_def by (metis option.sel)
  qed
  ultimately show ?thesis unfolding set by blast
qed

lemma apart_paths:
  assumes "apart i j"
  shows "k < length (Shards j) \<Longrightarrow> shard_path j k \<notin> sh_path ` set (Shards i)"
    and "k < length (Shards i) \<Longrightarrow> shard_path i k \<notin> sh_path ` set (Shards j)"
  using assms unfolding apart_def by (metis disjoint_iff image_eqI nth_mem)+

lemma open_indexes_ok:
  assumes "no_faults env" and "bleve_reopens (bleve env) V"
    and "\<forall>i\<in>set is. openable V w e i" and "distinct is" and "\<forall>i\<in>set is. \<forall>j\<in>set is. i \<noteq> j \<longrightarrow> apart i j"
  shows "\<exists>w' e'. open_indexes env w e (map (\<lambda>i. (format_index_name (startTime i), Dir)) is) = (w', e', None) \<and>
    nodes w' = nodes w \<and> (\<forall>i\<in>set is. same_index V w w' i) \<and> e' = e\<lparr>indexes := indexes e'\<rparr> \<and>
    (\<forall>q. (\<forall>i\<in>set is. q \<notin> sh_path ` set (Shards i)) \<longrightarrow> stores w' q = stores w q) \<and>
    indexes e' = foldl (\<lambda>js i. sort_indexes (js @ [i])) (indexes e) is"
  using assms(3-5)
proof (induction "is" arbitrary: w e)
  case (Cons i "is")
  have dot: "\<not> has_prefix (format_index_name (startTime i)) ''.''" by (rule format_no_dot)
  from OpenIndex_same [OF assms(1,2), of w e i] Cons.prems(1) obtain w1 where
    w1: "OpenIndex env w (ipath i) = (w1, Inr i)" "nodes w1 = nodes w" "same_index V w w1 i"
      "\<forall>q. q \<notin> sh_path ` set (Shards i) \<longrightarrow> stores w1 q = stores w q" by auto
  let ?e = "e\<lparr>indexes := sort_indexes (indexes e @ [i])\<rparr>"
  have ap: "apart i j" if j: "j \<in> set is" for j
  proof -
    have "i \<noteq> j" using Cons.prems(2) j by auto
    then show ?thesis using Cons.prems(3) j unfolding list.set by (meson insertI1 insertI2)
  qed
  have fr: "stores w1 (shard_path j k) = stores w (shard_path j k)" if "j \<in> set is" "k < length (Shards j)" for j k
    using w1(4) apart_paths(1) [OF ap that(2)] that(1) by blast
  have "openable V w1 ?e j" if "j \<in> set is" for j
    by (rule openable_frame [of V w e j]) (use Cons.prems(1) that fr w1(2) in simp_all)
  moreover have "distinct is" using Cons.prems(2) by simp
  moreover have "\<forall>i\<in>set is. \<forall>j\<in>set is. i \<noteq> j \<longrightarrow> apart i j" using Cons.prems(3) unfolding list.set by blast
  ultimately obtain w' e' where
    2: "open_indexes env w1 ?e (map (\<lambda>i. (format_index_name (startTime i), Dir)) is) = (w', e', None)"
      "nodes w' = nodes w1" "\<forall>i\<in>set is. same_index V w1 w' i" "e' = ?e\<lparr>indexes := indexes e'\<rparr>"
      "\<forall>q. (\<forall>i\<in>set is. q \<notin> sh_path ` set (Shards i)) \<longrightarrow> stores w' q = stores w1 q"
      "indexes e' = foldl (\<lambda>js i. sort_indexes (js @ [i])) (indexes ?e) is" using Cons.IH [of w1 ?e] by blast
  have "same_index V w w' j" if "j \<in> set is" for j
    using 2(3) fr that unfolding same_index_def by metis
  moreover have "same_index V w w' i"
  proof -
    have "stores w' (shard_path i k) = stores w1 (shard_path i k)" if k: "k < length (Shards i)" for k
    proof -
      have "shard_path i k \<notin> sh_path ` set (Shards j)" if "j \<in> set is" for j
        by (rule apart_paths(2) [OF ap [OF that] k])
      with 2(5) show ?thesis by blast
    qed
    with w1(3) show ?thesis unfolding same_index_def by metis
  qed
  moreover have "open_indexes env w e (map (\<lambda>i. (format_index_name (startTime i), Dir)) (i # is)) = (w', e', None)"
    using w1(1) 2(1) dot Cons.prems(1) by (simp add: openable_def)
  moreover have "e' = e\<lparr>indexes := indexes e'\<rparr>" by (subst 2(4)) simp
  ultimately show ?case using 2(2,5,6) w1(2,4) by (intro exI [of _ w'] exI [of _ e']) simp
qed simp

lemma sorted_unique:
  assumes "sorted_wrt (\<lambda>i j. startTime j < startTime i) xs" and "sorted_wrt (\<lambda>i j. startTime j < startTime i) ys"
    and "set xs = set ys"
  shows "xs = ys"
proof -
  let ?f = "\<lambda>i. - startTime i"
  have s: "sorted_wrt (<) (map ?f xs)" "sorted_wrt (<) (map ?f ys)" using assms(1,2) by (simp_all add: sorted_wrt_map)
  moreover have "set (map ?f ys) = set (map ?f xs)" using assms(3) by simp
  ultimately have "map ?f ys = map ?f xs" by (rule strict_sorted_equal)
  then have "map ?f xs = map ?f ys" by (rule sym)
  moreover have "inj_on ?f (set xs \<union> set ys)"
    using s(1) assms(3) by (simp add: strict_sorted_iff distinct_map)
  ultimately show ?thesis by (rule map_inj_on)
qed

lemma sort_once:
  assumes "\<forall>i\<in>set (js @ is). endTime i = startTime i + d" and "distinct (map startTime (js @ is))"
    and "sorted_wrt (\<lambda>i j. startTime j < startTime i) js"
  shows "sorted_wrt (\<lambda>i j. startTime j < startTime i) (foldl (\<lambda>js i. sort_indexes (js @ [i])) js is) \<and>
    set (foldl (\<lambda>js i. sort_indexes (js @ [i])) js is) = set js \<union> set is"
  using assms
proof (induction "is" arbitrary: js)
  case (Cons i "is")
  let ?js = "sort_indexes (js @ [i])"
  have set: "set ?js = insert i (set js)" by simp
  have "mset ?js = mset (js @ [i])" by (rule gs.permutes)
  then have "mset (map startTime (?js @ is)) = mset (map startTime (js @ i # is))" by simp
  then have "distinct (map startTime (?js @ is))" using Cons.prems(2) mset_eq_imp_distinct_iff by blast
  moreover have "sorted_wrt (\<lambda>i j. startTime j < startTime i) ?js"
    using Cons.prems(1,2) by (intro sort_windows [of _ d]) auto
  ultimately show ?case using Cons.IH [of ?js] Cons.prems(1) set by simp
qed simp

text \<open>The listing of the engine's directory.\<close>

lemma list_as_map: "\<forall>y\<in>set ys. \<exists>x\<in>A. y = f x \<Longrightarrow> \<exists>xs. ys = map f xs \<and> set xs \<subseteq> A"
proof (induction ys)
  case (Cons y ys)
  then obtain x xs where "x \<in> A" "y = f x" "ys = map f xs" "set xs \<subseteq> A" by auto
  then show ?case by (intro exI [of _ "x # xs"]) simp
qed simp

lemma listing:
  assumes "eng_ok V w e" and "disk_ok w e" and "distinct (map fst ns)"
    and "\<forall>q. strict_prefix (epath e) q \<longrightarrow> map_of ns q = map_of (nodes w) q"
  shows "\<exists>is. entries ns (epath e) = map (\<lambda>i. (format_index_name (startTime i), Dir)) is \<and> distinct is \<and> set is = set (indexes e)"
proof -
  let ?L = "filter (\<lambda>(q, _). q \<noteq> [] \<and> butlast q = epath e) ns"
  have win: "ipath i = Join (epath e) (format_index_name (startTime i))" if "i \<in> set (indexes e)" for i
    using assms(1) that by (simp add: eng_ok_def eng_shape_def window_ok_def)
  have dir: "map_of ns (ipath i) = Some Dir" if i: "i \<in> set (indexes e)" for i
  proof -
    have "map_of (nodes w) (ipath i) = Some Dir" using assms(2) i by (auto simp: disk_ok_def on_disk_def index_files_def)
    moreover have "strict_prefix (epath e) (ipath i)" using win [OF i] by (auto simp: Join_def strict_prefix_def)
    ultimately show ?thesis using assms(4) by simp
  qed
  have "\<exists>i\<in>set (indexes e). x = (ipath i, Dir)" if x: "x \<in> set ?L" for x
  proof -
    obtain q nd where q: "x = (q, nd)" "(q, nd) \<in> set ns" "q \<noteq> []" "butlast q = epath e" using x by auto
    have m: "map_of ns q = Some nd" using q(2) assms(3) by simp
    have sp: "strict_prefix (epath e) q" using q(3,4) by (metis append_butlast_last_id prefixI strict_prefix_def self_append_conv not_Cons_self2)
    then have "map_of (nodes w) q \<noteq> None" using m assms(4) by (metis option.distinct(1))
    with sp assms(1) obtain i where i: "i \<in> set (indexes e)" "prefix (ipath i) q"
      unfolding eng_ok_def eng_files_def by blast
    have "length q = length (ipath i)" using win [OF i(1)] q(3,4) by (metis Join_def append_butlast_last_id length_append_singleton)
    then have "ipath i = q" using i(2) prefix_same_length [OF i(2) prefix_order.refl] by simp
    with dir [OF i(1)] m q(1) i(1) show ?thesis by auto
  qed
  then obtain "is" where L: "?L = map (\<lambda>i. (ipath i, Dir)) is" "set is \<subseteq> set (indexes e)"
    using list_as_map [of ?L "set (indexes e)" "\<lambda>i. (ipath i, Dir)"] by blast
  have "distinct (map fst ?L)" using assms(3) by (rule distinct_map_filter)
  then have "distinct is" unfolding L(1) by (simp add: comp_def distinct_map)
  moreover have "set (indexes e) \<subseteq> set is"
  proof
    fix i assume i: "i \<in> set (indexes e)"
    have "(ipath i, Dir) \<in> set ?L" using map_of_SomeD [OF dir [OF i]] win [OF i] by (simp add: Join_def)
    then obtain j where j: "j \<in> set is" "ipath j = ipath i" unfolding L(1) by auto
    have sh: "eng_shape e" using assms(1) by (simp add: eng_ok_def)
    have "window_ok e i" using sh i by (simp add: eng_shape_def)
    then have "startTime j = startTime i"
      using path_inj [OF sh, of j "startTime i" "ipath i"] j L(2) win [OF i] by (auto simp: window_ok_def)
    with start_inj [OF sh] j L(2) i show "i \<in> set is" by (metis subsetD)
  qed
  moreover have "entries ns (epath e) = map (\<lambda>i. (last (ipath i), Dir)) is"
    unfolding entries_def L(1) by (simp add: comp_def)
  then have "entries ns (epath e) = map (\<lambda>i. (format_index_name (startTime i), Dir)) is"
    using L(2) win by (auto simp: Join_def)
  ultimately show ?thesis using L(2) by blast
qed

text \<open>
  The world a new process finds: the same files, and the shards of the engine's indexes closed, with what they held.
\<close>

definition kept_world :: "'b view \<Rightarrow> 'b world \<Rightarrow> Engine \<Rightarrow> 'b world \<Rightarrow> bool" where
  "kept_world V w e w0 \<longleftrightarrow> distinct (map fst (nodes w0)) \<and> map_of (nodes w0) = map_of (nodes w) \<and>
     (\<forall>i\<in>set (indexes e). \<forall>q\<in>sh_path ` set (Shards i). closed_at V w w0 q)"

lemma engine_openable:
  assumes "eng_ok V w e" and "disk_ok w e" and "kept_world V w e w0" and "epath e0 = epath e" and "i \<in> set (indexes e)"
    and "distinct (map fst ns)" and "\<forall>q. strict_prefix (epath e) q \<longrightarrow> map_of ns q = map_of (nodes w) q"
  shows "openable V (w0\<lparr>nodes := ns\<rparr>) e0 i"
proof -
  have sh: "eng_shape e" "window_ok e i" using assms(1,5) by (auto simp: eng_ok_def eng_shape_def)
  have "ns_per_min dvd endTime i"
    using sh unfolding eng_shape_def window_ok_def by (auto elim: dvd_trans intro: dvd_add)
  then have "to_minute (endTime i) = endTime i" unfolding to_minute_def by (simp only: dvd_imp_mod_0 diff_0_right)
  moreover have "strict_prefix (epath e) q" if "prefix (ipath i) q" for q
    using that sh(2) by (auto simp: window_ok_def Join_def strict_prefix_def prefix_def)
  then have "on_disk (w0\<lparr>nodes := ns\<rparr>) i"
    using on_disk_frame [of w i "w0\<lparr>nodes := ns\<rparr>"] assms(2,5-7) by (simp add: disk_ok_def)
  moreover have "shut V (w0\<lparr>nodes := ns\<rparr>) (shard_path i k)" if k: "k < length (Shards i)" for k
  proof -
    have "closed_at V w w0 (shard_path i k)" using assms(3,5) k by (simp add: kept_world_def)
    from closed_at_shut [OF this] show ?thesis by (simp add: shut_def)
  qed
  ultimately show ?thesis
    using sh to_minute_window [OF sh] assms(4) by (simp add: openable_def window_ok_def)
qed

lemma kept_same:
  assumes "i \<in> set (indexes e)" and "kept_world V w e w0" and "same_index V w0 w' i"
  shows "same_index V w w' i"
  unfolding same_index_def
proof (intro allI impI)
  fix j assume j: "j < length (Shards i)"
  with assms(1,2) have "closed_at V w w0 (shard_path i j)" by (simp add: kept_world_def)
  then obtain b b0 where b: "stores w (shard_path i j) = Some b" "stores w0 (shard_path i j) = Some b0" "closed_docs V b b0"
    unfolding closed_at_def by blast
  moreover from b(2) assms(3) j obtain b' where "stores w' (shard_path i j) = Some b'" "same_docs V b0 b'"
    unfolding same_index_def by fastforce
  ultimately show "\<exists>b b'. stores w (shard_path i j) = Some b \<and> stores w' (shard_path i j) = Some b' \<and> same_docs V b b'"
    using closed_then_opened [of V b b0 b'] by simp
qed

lemma eng_docs_same:
  assumes "indexes e' = indexes e" and "\<And>i. i \<in> set (indexes e) \<Longrightarrow> lookup_doc V w' i = lookup_doc V w i"
  shows "eng_docs V w' e' = eng_docs V w e"
proof
  fix x
  show "eng_docs V w' e' x = eng_docs V w e x"
  proof (cases "indexForReferenceTime e (id_time x)")
    case (Some i)
    then have "i \<in> set (indexes e)" by (auto simp: indexForReferenceTime_def find_Some_iff)
    with Some assms show ?thesis by (simp add: eng_docs_def indexForReferenceTime_def)
  qed (use assms(1) in \<open>simp add: eng_docs_def indexForReferenceTime_def\<close>)
qed

lemma sorted_back:
  assumes "eng_shape e" and "distinct is" and "set is = set (indexes e)"
  shows "foldl (\<lambda>js i. sort_indexes (js @ [i])) [] is = indexes e"
proof (rule sorted_unique)
  have "\<forall>i\<in>set ([] @ is). endTime i = startTime i + IndexDuration e"
    using assms(1,3) by (auto simp: eng_shape_def window_ok_def)
  moreover have "distinct (map startTime is)"
    using assms(2,3) start_inj [OF assms(1)] by (auto simp: distinct_map inj_on_def)
  ultimately show "sorted_wrt (\<lambda>i j. startTime j < startTime i) (foldl (\<lambda>js i. sort_indexes (js @ [i])) [] is)"
    "set (foldl (\<lambda>js i. sort_indexes (js @ [i])) [] is) = set (indexes e)"
    using sort_once [of "[]" "is" "IndexDuration e"] assms(3) by auto
  show "sorted_wrt (\<lambda>i j. startTime j < startTime i) (indexes e)" using assms(1) by (simp add: eng_shape_def)
qed

lemma files_reopened:
  assumes "eng_files w e" and "distinct (map fst ns)" and "\<forall>q. prefix q (epath e) \<and> q \<noteq> [] \<longrightarrow> map_of ns q = Some Dir"
    and "\<forall>q. strict_prefix (epath e) q \<longrightarrow> map_of ns q = map_of (nodes w) q"
    and "nodes w' = ns" and "epath e' = epath e" and "indexes e' = indexes e"
  shows "eng_files w' e'"
proof -
  have "dirs_ok ns (epath e)" using assms(3) unfolding dirs_ok_def by (metis node.distinct(1) option.inject)
  moreover have "\<forall>q. strict_prefix (epath e) q \<and> map_of ns q \<noteq> None \<longrightarrow> (\<exists>i\<in>set (indexes e). prefix (ipath i) q)"
    using assms(1,4) unfolding eng_files_def by metis
  ultimately show ?thesis unfolding eng_files_def using assms(2,5-7) by metis
qed

lemma Engine_Open_ok:
  assumes "no_faults env" and "bleve_reopens (bleve env) V" and "eng_ok V w e" and "disk_ok w e" and "kept_world V w e w0"
    and "epath e0 = epath e" and "IndexDuration e0 = IndexDuration e" and "0 < NumShards e0" and "NumShards e0 \<le> maxShardCount"
    and "indexes e0 = []"
  shows "\<exists>w' e'. Engine_Open env w0 e0 = (w', e', None) \<and> isOpen e' \<and> indexes e' = indexes e \<and>
    eng_ok V w' e' \<and> disk_ok w' e' \<and> eng_docs V w' e' = eng_docs V w e \<and> RetentionPeriod e' = RetentionPeriod e0 \<and>
    epath e' = epath e \<and> IndexDuration e' = IndexDuration e \<and> NumShards e' = NumShards e0"
proof -
  have sh: "eng_shape e" and fl: "eng_files w e" using assms(3) by (auto simp: eng_ok_def)
  have k: "distinct (map fst (nodes w0))" "map_of (nodes w0) = map_of (nodes w)" using assms(5) by (auto simp: kept_world_def)
  have "dirs_ok (nodes w0) (epath e0)" using fl unfolding eng_files_def dirs_ok_def k(2) assms(6) by blast
  moreover have ne: "epath e0 \<noteq> []" using assms(4,6) by (simp add: disk_ok_def)
  ultimately obtain ns where ns: "os_MkdirAll env w0 (epath e0) = (w0\<lparr>nodes := ns\<rparr>, None)" "distinct (map fst ns)"
    "map_of ns (epath e0) = Some Dir" "\<forall>q. \<not> prefix q (epath e0) \<or> q = [] \<longrightarrow> map_of ns q = map_of (nodes w0) q"
    "\<forall>q. prefix q (epath e0) \<and> q \<noteq> [] \<longrightarrow> map_of ns q = Some Dir"
    using MkdirAll_ok [OF assms(1) _ k(1)] by blast
  have below: "\<forall>q. strict_prefix (epath e) q \<longrightarrow> map_of ns q = map_of (nodes w) q"
    using ns(4) k(2) assms(6) by (metis prefix_order.less_le_not_le)
  let ?w = "w0\<lparr>nodes := ns\<rparr>"
  from listing [OF assms(3,4) ns(2) below] obtain "is" where
    l: "entries ns (epath e) = map (\<lambda>i. (format_index_name (startTime i), Dir)) is" "distinct is" "set is = set (indexes e)"
    by blast
  have "\<forall>i\<in>set is. openable V ?w e0 i"
    using engine_openable [OF assms(3,4,5,6) _ ns(2) below] l(3) by blast
  from open_indexes_ok [OF assms(1,2) this l(2)] eng_apart [OF assms(3)] l(3) obtain w' e' where
    o: "open_indexes env ?w e0 (entries ns (epath e)) = (w', e', None)" "nodes w' = ns"
      "\<forall>i\<in>set is. same_index V ?w w' i" "e' = e0\<lparr>indexes := indexes e'\<rparr>"
      "indexes e' = foldl (\<lambda>js i. sort_indexes (js @ [i])) [] is" unfolding l(1) assms(10) by auto
  let ?e = "e'\<lparr>isOpen := True\<rparr>"
  have opened: "Engine_Open env w0 e0 = (w', ?e, None)"
    using ns(1,3) o(1) assms(1,6) by (simp add: Engine_Open_def os_Open_def file_Readdir_def no_faults_def)
  have e': "epath e' = epath e" "IndexDuration e' = IndexDuration e" "NumShards e' = NumShards e0" "RetentionPeriod e' = RetentionPeriod e0"
    using o(4) assms(6,7) by (metis Engine.select_convs Engine.surjective Engine.update_convs(5))+
  have idx: "indexes e' = indexes e" unfolding o(5) by (rule sorted_back [OF sh l(2,3)])
  have same: "same_index V w w' i" if "i \<in> set (indexes e)" for i
    using kept_same [OF that assms(5), of "w'"] o(3) l(3) that by (simp add: same_index_def)
  have ok: "idx_ok V w' i \<and> lookup_doc V w' i = lookup_doc V w i" if "i \<in> set (indexes e)" for i
    using same_index_ok [OF _ same [OF that]] assms(3) that by (auto simp: eng_ok_def idx_ok_def)
  have "eng_shape ?e" using sh e' idx assms(8,9) by (simp add: eng_shape_def window_ok_def)
  moreover have "eng_files w' ?e"
    by (rule files_reopened [OF fl ns(2) ns(5) [unfolded assms(6)] below o(2)]) (simp_all add: e'(1) idx)
  ultimately have eok: "eng_ok V w' ?e" using ok idx assms(3) by (simp add: eng_ok_def)
  moreover have "disk_ok w' ?e"
  proof -
    have "on_disk w' i" if i: "i \<in> set (indexes e)" for i
      using engine_openable [OF assms(3,4,5,6) i ns(2) below] on_disk_cong [of w' ?w i] o(2) unfolding openable_def by simp
    then show ?thesis using assms(4) e' idx by (simp add: disk_ok_def)
  qed
  moreover have "eng_docs V w' ?e = eng_docs V w e" using ok idx by (intro eng_docs_same) simp_all
  ultimately show ?thesis using opened idx e' by (intro exI [of _ w'] exI [of _ ?e]) simp
qed

section \<open>Closing\<close>

lemma close_indexes_keep:
  assumes "bleve_closes (bleve env) V" and "\<forall>i\<in>set is. idx_ok V w i" and "distinct is"
    and "\<forall>i\<in>set is. \<forall>j\<in>set is. i \<noteq> j \<longrightarrow> apart i j"
  shows "\<exists>w'. close_indexes env w is = Some (w', None) \<and> nodes w' = nodes w \<and>
    (\<forall>i\<in>set is. \<forall>q\<in>sh_path ` set (Shards i). closed_at V w w' q) \<and>
    (\<forall>q. (\<forall>i\<in>set is. q \<notin> sh_path ` set (Shards i)) \<longrightarrow> stores w' q = stores w q)"
  using assms(2-4)
proof (induction "is" arbitrary: w)
  case (Cons i "is")
  have ap: "apart i j" if j: "j \<in> set is" for j
  proof -
    have "i \<noteq> j" using Cons.prems(2) j by auto
    then show ?thesis using Cons.prems(3) j unfolding list.set by (meson insertI1 insertI2)
  qed
  have sep: "q \<notin> sh_path ` set (Shards i)" if "j \<in> set is" "q \<in> sh_path ` set (Shards j)" for j q
    using ap [OF that(1)] that(2) unfolding apart_def by blast
  have "idx_ok V w i" using Cons.prems(1) by simp
  from Index_Close_ok [OF assms(1) this] obtain w1 where w1: "Index_Close env w i = Some (w1, None)" "nodes w1 = nodes w"
    "\<forall>q\<in>sh_path ` set (Shards i). closed_at V w w1 q" "\<forall>q. q \<notin> sh_path ` set (Shards i) \<longrightarrow> stores w1 q = stores w q" by blast
  have "idx_ok V w1 j" if j: "j \<in> set is" for j
  proof -
    have "stores w1 (shard_path j k) = stores w (shard_path j k)" if "k < length (Shards j)" for k
      using w1(4) sep [OF j, of "shard_path j k"] that by simp
    then show ?thesis using Cons.prems(1) j by (simp add: idx_ok_def)
  qed
  moreover have "distinct is" using Cons.prems(2) by simp
  moreover have "\<forall>i\<in>set is. \<forall>j\<in>set is. i \<noteq> j \<longrightarrow> apart i j" using Cons.prems(3) unfolding list.set by blast
  ultimately obtain w' where w': "close_indexes env w1 is = Some (w', None)" "nodes w' = nodes w1"
    "\<forall>i\<in>set is. \<forall>q\<in>sh_path ` set (Shards i). closed_at V w1 w' q"
    "\<forall>q. (\<forall>i\<in>set is. q \<notin> sh_path ` set (Shards i)) \<longrightarrow> stores w' q = stores w1 q" using Cons.IH by blast
  have "closed_at V w w' q" if "j \<in> set is" "q \<in> sh_path ` set (Shards j)" for j q
  proof -
    have "closed_at V w1 w' q" "stores w1 q = stores w q" using w'(3) w1(4) sep [OF that] that by blast+
    then show ?thesis by (simp add: closed_at_def)
  qed
  moreover have "closed_at V w w' q" if q: "q \<in> sh_path ` set (Shards i)" for q
  proof -
    have "stores w' q = stores w1 q" "closed_at V w w1 q" using w'(4) w1(3) sep q by blast+
    then show ?thesis by (simp add: closed_at_def)
  qed
  moreover have "close_indexes env w (i # is) = Some (w', None)" using w1(1) w'(1) by simp
  ultimately show ?case using w1(2,4) w'(2,4) by (intro exI [of _ w']) simp
qed simp

lemma Engine_Close_ok:
  assumes "bleve_closes (bleve env) V" and "eng_ok V w e" and "isOpen e"
  shows "\<exists>w0 e0. Engine_Close env w e = Some (w0, e0, None) \<and> \<not> isOpen e0 \<and> indexes e0 = indexes e \<and> kept_world V w e w0"
proof -
  have "distinct (indexes e)" using distinct_indexes assms(2) by (simp add: eng_ok_def)
  with close_indexes_keep [OF assms(1), of "indexes e" w] eng_apart [OF assms(2)] assms(2) obtain w' where
    "close_indexes env w (indexes e) = Some (w', None)" "nodes w' = nodes w"
    "\<forall>i\<in>set (indexes e). \<forall>q\<in>sh_path ` set (Shards i). closed_at V w w' q" by (auto simp: eng_ok_def)
  then show ?thesis using assms(3) eng_distinct [OF assms(2)] by (auto simp: Engine_Close_def kept_world_def)
qed

section \<open>A torn index\<close>

text \<open>\<open>open_indexes\<close> fails if one of the directories has no end time.\<close>

lemma open_indexes_torn:
  assumes "no_faults env" and "(name, Dir) \<in> set fis" and "\<not> has_prefix name ''.''"
    and "map_of (nodes w) (Join (epath e) name @ [endTimeFileName]) = None"
  shows "\<exists>w' e' err. open_indexes env w e fis = (w', e', Some err)"
  using assms(2,4)
proof (induction fis arbitrary: w e)
  case (Cons fi fis)
  obtain n nd where fi: "fi = (n, nd)" by fastforce
  show ?case
  proof (cases "n = name \<and> nd = Dir")
    case True
    with OpenIndex_torn [OF assms(1) Cons.prems(2)] assms(3) fi show ?thesis by auto
  next
    case False
    then have rest: "(name, Dir) \<in> set fis" using Cons.prems(1) fi by auto
    show ?thesis
    proof (cases "nd \<noteq> Dir \<or> has_prefix n ''.''")
      case True
      with Cons.IH [OF rest Cons.prems(2)] fi show ?thesis by auto
    next
      case open_it: False
      obtain w1 r where o: "OpenIndex env w (Join (epath e) n) = (w1, r)" by fastforce
      have "Join (epath e) name \<noteq> Join (epath e) n" using False open_it by (simp add: Join_def)
      from OpenIndex_frame [OF this, of env w] o Cons.prems(2)
      have "map_of (nodes w1) (Join (epath e) name @ [endTimeFileName]) = None" by simp
      with Cons.IH [OF rest, of w1 "e\<lparr>indexes := _\<rparr>"] o open_it fi show ?thesis by (cases r) auto
    qed
  qed
qed simp

section \<open>Properties\<close>

text \<open>
  Durability. Take an open engine in order, with its files on disk, and index a batch of events. Closing it then succeeds
  and keeps files and documents; and in any world with the same files in which the shards are closed with the same documents, so after that
  \<open>Close\<close> or after the process ended without it once the batch was indexed, a new process that calls \<open>NewEngine\<close> on the same directory and
  opens it, with any number of shards in bounds and any retention period, gets an engine in order with the same indexes: what it held before,
  overridden by the documents of the batch.
\<close>

theorem engine_restarts:
  assumes "no_faults env" and "bleve_works (bleve env) V" and "bleve_reopens (bleve env) V" and "bleve_closes (bleve env) V"
    and "eng_ok V w e" and "disk_ok w e" and "isOpen e" and "IndexDuration e = IndexDuration (NewEngine (epath e))"
    and "\<forall>ev\<in>set evs. event_ok ev"
  shows "\<exists>w1 e1 ds. Engine_Index env w e evs = Some (w1, e1, None) \<and> those (map as_document evs) = Some ds \<and>
    (\<exists>w2 e2. Engine_Close env w1 e1 = Some (w2, e2, None) \<and> kept_world V w1 e1 w2) \<and>
    (\<forall>w2 n r. kept_world V w1 e1 w2 \<and> 0 < n \<and> n \<le> maxShardCount \<longrightarrow>
      (\<exists>w3 e3. Engine_Open env w2 ((NewEngine (epath e))\<lparr>NumShards := n, RetentionPeriod := r\<rparr>) = (w3, e3, None) \<and>
         isOpen e3 \<and> indexes e3 = indexes e1 \<and> eng_ok V w3 e3 \<and> disk_ok w3 e3 \<and>
         eng_docs V w3 e3 = eng_docs V w e ++ doc_entry ds))"
proof -
  from Engine_Index_ok [OF assms(1,2,5,9)] obtain w1 e1 ds where
    i: "Engine_Index env w e evs = Some (w1, e1, None)" "those (map as_document evs) = Some ds" "eng_ok V w1 e1"
      "eng_docs V w1 e1 = eng_docs V w e ++ doc_entry ds" by blast
  have d: "disk_ok w1 e1" by (rule Engine_Index_disk [OF assms(1,2,5,6,9) i(1)])
  have e1: "epath e1 = epath e" "IndexDuration e1 = IndexDuration e" "isOpen e1"
    using same_configD [OF Engine_Index_config [OF i(1)]] assms(7) by simp_all
  have "\<exists>w3 e3. Engine_Open env w2 ((NewEngine (epath e))\<lparr>NumShards := n, RetentionPeriod := r\<rparr>) = (w3, e3, None) \<and>
      isOpen e3 \<and> indexes e3 = indexes e1 \<and> eng_ok V w3 e3 \<and> disk_ok w3 e3 \<and> eng_docs V w3 e3 = eng_docs V w e ++ doc_entry ds"
    if "kept_world V w1 e1 w2" "0 < n" "n \<le> maxShardCount" for w2 n r
    using Engine_Open_ok [OF assms(1,3) i(3) d that(1), of "(NewEngine (epath e))\<lparr>NumShards := n, RetentionPeriod := r\<rparr>"]
      e1 assms(8) that(2,3) unfolding i(4) by (auto simp: NewEngine_def)
  with i(1,2) Engine_Close_ok [OF assms(4) i(3) e1(3)] show ?thesis by blast
qed

theorem engine_restarts_witness:
  "\<exists>w e w1 e1 w2 e2 w3 e3. Engine_Open mem_env mem_start (NewEngine [''data'']) = (w, e, None) \<and>
    Engine_Index mem_env w e [an_event 5 ''GET a''] = Some (w1, e1, None) \<and>
    Engine_Close mem_env w1 e1 = Some (w2, e2, None) \<and>
    Engine_Open mem_env w2 ((NewEngine [''data''])\<lparr>NumShards := 4, RetentionPeriod := 0\<rparr>) = (w3, e3, None) \<and>
    isOpen e3 \<and> indexes e3 = indexes e1 \<and> eng_ok mem_view w3 e3"
proof -
  let ?e = "NewEngine [''data'']"
  have d: "disk_ok mem_start ?e" by (simp add: disk_ok_def NewEngine_def ns_per_sec_def)
  have k: "kept_world mem_view mem_start ?e mem_start" by (simp add: kept_world_def NewEngine_def mem_start_def)
  have n: "epath ?e = [''data'']" "0 < NumShards ?e" "NumShards ?e \<le> maxShardCount" "indexes ?e = []" by (simp_all add: NewEngine_def)
  from Engine_Open_ok [OF mem_no_faults mem_reopens new_engine_ok d k refl refl n(2-4)] obtain w e where
    0: "Engine_Open mem_env mem_start ?e = (w, e, None)" "isOpen e" "eng_ok mem_view w e" "disk_ok w e" "epath e = [''data'']"
      "IndexDuration e = IndexDuration ?e" unfolding n(1) by blast
  have p: "IndexDuration e = IndexDuration (NewEngine (epath e))" using 0(5,6) by simp
  have ev: "\<forall>ev\<in>set [an_event 5 ''GET a'']. event_ok ev" using an_event_ok by simp
  from engine_restarts [OF mem_no_faults mem_env_works mem_reopens mem_closes 0(3,4,2) p ev, unfolded 0(5)]
  obtain w1 e1 ds w2 e2 where 1: "Engine_Index mem_env w e [an_event 5 ''GET a''] = Some (w1, e1, None)"
      "Engine_Close mem_env w1 e1 = Some (w2, e2, None)" "kept_world mem_view w1 e1 w2"
    and 2: "\<forall>w2 n r. kept_world mem_view w1 e1 w2 \<and> 0 < n \<and> n \<le> maxShardCount \<longrightarrow>
      (\<exists>w3 e3. Engine_Open mem_env w2 (?e\<lparr>NumShards := n, RetentionPeriod := r\<rparr>) = (w3, e3, None) \<and>
         isOpen e3 \<and> indexes e3 = indexes e1 \<and> eng_ok mem_view w3 e3 \<and> disk_ok w3 e3 \<and>
         eng_docs mem_view w3 e3 = eng_docs mem_view w e ++ doc_entry ds)"
    by (elim exE conjE) (rule that)
  from 2 [rule_format, of w2 4 0] 1 obtain w3 e3 where "Engine_Open mem_env w2 (?e\<lparr>NumShards := 4, RetentionPeriod := 0\<rparr>) = (w3, e3, None)"
    "isOpen e3" "indexes e3 = indexes e1" "eng_ok mem_view w3 e3" by auto
  with 0(1) 1(1,2) show ?thesis by (intro exI conjI)
qed

text \<open>
  C34. A kill while an index is created. The directory of the index is made first, the file with the end time follows. If the
  process ends in between, then no later \<open>Open\<close> of an engine on the data directory succeeds, an error that is fatal in \<open>main\<close>,
  until the directory is removed by hand.
\<close>

theorem torn_index_fatal:
  assumes "no_faults env" and "p = Join (epath e) name" and "\<not> has_prefix name ''.''" and "epath e \<noteq> []"
    and "dirs_ok (nodes w) p" and "distinct (map fst (nodes w))" and "path_free w p"
  shows "\<exists>w1. os_MkdirAll env w p = (w1, None) \<and>
    (\<forall>w2. nodes w2 = nodes w1 \<longrightarrow> (\<exists>w3 e3 err. Engine_Open env w2 e = (w3, e3, Some err)))"
proof -
  have "p \<noteq> []" by (simp add: assms(2) Join_def)
  from MkdirAll_ok [OF assms(1,5,6) this] obtain ns where ns: "os_MkdirAll env w p = (w\<lparr>nodes := ns\<rparr>, None)" "distinct (map fst ns)"
    "map_of ns p = Some Dir" "\<forall>q. \<not> prefix q p \<or> q = [] \<longrightarrow> map_of ns q = map_of (nodes w) q"
    "\<forall>q. prefix q p \<and> q \<noteq> [] \<longrightarrow> map_of ns q = Some Dir" by blast
  have none: "map_of ns (p @ [endTimeFileName]) = None"
    using ns(4) path_free_below [OF assms(7)] by (auto simp: prefix_def)
  have "\<exists>w3 e3 err. Engine_Open env w2 e = (w3, e3, Some err)" if n2: "nodes w2 = ns" for w2
  proof -
    have "prefix (epath e) p" by (simp add: assms(2) Join_def)
    then have "dirs_ok (nodes w2) (epath e)"
      using ns(5) unfolding n2 dirs_ok_def by (metis node.distinct(1) option.inject prefix_order.trans)
    from MkdirAll_ok [OF assms(1) this _ assms(4)] ns(2) n2 obtain ns2 where
      2: "os_MkdirAll env w2 (epath e) = (w2\<lparr>nodes := ns2\<rparr>, None)" "distinct (map fst ns2)" "map_of ns2 (epath e) = Some Dir"
        "\<forall>q. \<not> prefix q (epath e) \<or> q = [] \<longrightarrow> map_of ns2 q = map_of ns q" by auto
    have m: "map_of ns2 p = Some Dir" "map_of ns2 (p @ [endTimeFileName]) = None"
      using 2(4) ns(3) none by (simp_all add: assms(2) Join_def prefix_def)
    from map_of_SomeD [OF m(1)] have "(name, Dir) \<in> set (entries ns2 (epath e))"
      by (force simp: entries_def assms(2) Join_def image_iff)
    from open_indexes_torn [OF assms(1) this assms(3), of "w2\<lparr>nodes := ns2\<rparr>" e] m(2) obtain w3 e3 err where
      "open_indexes env (w2\<lparr>nodes := ns2\<rparr>) e (entries ns2 (epath e)) = (w3, e3, Some err)" by (auto simp: assms(2))
    then show ?thesis
      using 2(1,3) assms(1) by (simp add: Engine_Open_def os_Open_def file_Readdir_def no_faults_def)
  qed
  with ns(1) show ?thesis by auto
qed

theorem torn_index_fatal_witness:
  "\<exists>w1 w3 e3 err. os_MkdirAll mem_env mem_start [''data'', ''20240101_0000''] = (w1, None) \<and>
    Engine_Open mem_env w1 (NewEngine [''data'']) = (w3, e3, Some err)"
proof -
  have p: "[''data'', ''20240101_0000''] = Join (epath (NewEngine [''data''])) ''20240101_0000''" "epath (NewEngine [''data'']) \<noteq> []"
    by (simp_all add: NewEngine_def Join_def)
  from torn_index_fatal [OF mem_no_faults p(1) _ p(2), of mem_start]
  have "\<exists>w1. os_MkdirAll mem_env mem_start [''data'', ''20240101_0000''] = (w1, None) \<and>
      (\<forall>w2. nodes w2 = nodes w1 \<longrightarrow> (\<exists>w3 e3 err. Engine_Open mem_env w2 (NewEngine [''data'']) = (w3, e3, Some err)))"
    by (simp add: mem_start_def dirs_ok_def path_free_def)
  then show ?thesis by blast
qed

end
