(* ===== verification/Status_Service.thy ===== *)
theory Status_Service
  imports Http Event
begin

text \<open>
  The status service of \<open>status/service.go\<close>: providers, and the HTTP handler for \<open>/status\<close>, the
  \<open>expvar\<close> page and the profiler's pages. The values providers report are of any type; their JSON
  encoding and the handlers of \<open>net/http/pprof\<close> are parameters.
\<close>

section \<open>Model\<close>

text \<open>
  A provider is what its method \<open>Status\<close> returns. \<open>providers\<close> is \<^const>\<open>None\<close> for the nil map, else
  the entries in the order in which a loop over the map meets them.
\<close>

type_synonym 'v provider = "bytes + 'v"

datatype info = InfoString bytes | InfoOther

record 'v Service =
  svc_addr :: string
  svc_ln :: "string option"
  providers :: "(bytes \<times> 'v provider) list option"
  BuildInfo :: "bytes \<Rightarrow> info option"

definition NewService :: "string \<Rightarrow> 'v Service" where
  "NewService a = \<lparr>svc_addr = a, svc_ln = None, providers = None, BuildInfo = (\<lambda>_. None)\<rparr>"

definition Service_Start :: "(string \<Rightarrow> bytes + string) \<Rightarrow> 'v Service \<Rightarrow> 'v Service \<times> bytes option" where
  "Service_Start listen s =
     (case listen (svc_addr s) of
        Inl err \<Rightarrow> (s, Some err)
      | Inr ln \<Rightarrow> (s\<lparr>svc_ln := Some ln\<rparr>, None))"

text \<open>\<open>Register\<close> assigns to an entry of the map: with a nil map it panics (\<^const>\<open>None\<close>).\<close>

definition Register :: "bytes \<Rightarrow> 'v provider \<Rightarrow> 'v Service \<Rightarrow> 'v Service option" where
  "Register k p s =
     (case providers s of
        None \<Rightarrow> None
      | Some m \<Rightarrow> Some (s\<lparr>providers := Some ((k, p) # filter (\<lambda>(k', _). k' \<noteq> k) m)\<rparr>))"

definition queryParam :: "Request \<Rightarrow> bytes \<Rightarrow> bytes + bool" where
  "queryParam req param =
     (case Form req of
        Inl err \<Rightarrow> Inl err
      | Inr f \<Rightarrow> if map_of f param \<noteq> None then Inr True else Inr False)"

definition isPretty :: "Request \<Rightarrow> bytes + bool" where
  "isPretty req = queryParam req ''pretty''"

text \<open>The loop over the providers: it ends at the first error.\<close>

fun collect_status :: "(bytes \<times> 'v provider) list \<Rightarrow> (bytes \<times> 'v) list \<Rightarrow> bytes + (bytes \<times> 'v) list" where
  "collect_status [] acc = Inr acc"
| "collect_status ((k, p) # ps) acc =
     (case p of Inl err \<Rightarrow> Inl err | Inr st \<Rightarrow> collect_status ps (acc @ [(k, st)]))"

text \<open>\<open>marshal pretty m\<close>: the encoding of a map, indented or not, by \<open>encoding/json\<close>.\<close>

definition handleStatus ::
  "(bool \<Rightarrow> (bytes \<times> 'v) list \<Rightarrow> bytes + bytes) \<Rightarrow> 'v Service \<Rightarrow> Request \<Rightarrow> Response \<Rightarrow> Response" where
  "handleStatus marshal s r w =
     (case collect_status (case providers s of None \<Rightarrow> [] | Some m \<Rightarrow> m) [] of
        Inl _ \<Rightarrow> WriteHeader 500 w
      | Inr status \<Rightarrow>
          (case marshal (case isPretty r of Inl _ \<Rightarrow> False | Inr p \<Rightarrow> p) status of
             Inl err \<Rightarrow> http_Error err 500 w
           | Inr b \<Rightarrow> (case Write b w of (w1, None) \<Rightarrow> w1 | (w1, Some _) \<Rightarrow> WriteHeader 500 w1)))"

text \<open>The verb \<open>%q\<close>, for the ASCII keys of \<open>expvar\<close> variables.\<close>

definition quote_byte :: "byte \<Rightarrow> bytes" where
  "quote_byte c =
     (let n = of_char c :: nat
      in if c = CHR 0x22 then [CHR 0x5C, CHR 0x22]
         else if c = CHR 0x5C then [CHR 0x5C, CHR 0x5C]
         else if n = 7 then [CHR 0x5C, CHR ''a''] else if n = 8 then [CHR 0x5C, CHR ''b'']
         else if n = 9 then [CHR 0x5C, CHR ''t''] else if n = 10 then [CHR 0x5C, CHR ''n'']
         else if n = 11 then [CHR 0x5C, CHR ''v''] else if n = 12 then [CHR 0x5C, CHR ''f'']
         else if n = 13 then [CHR 0x5C, CHR ''r'']
         else if n < 32 \<or> n = 127 then [CHR 0x5C, CHR ''x''] @ to_hex 2 n
         else [c])"

definition quote :: "bytes \<Rightarrow> bytes" where
  "quote s = CHR 0x22 # concat (map quote_byte s) @ [CHR 0x22]"

text \<open>
  \<open>serveExpvar\<close>, for the variables in the order \<open>expvar.Do\<close> visits them, with their values as text.
  \<open>first\<close> is the variable of the source.
\<close>

fun expvar_do :: "bool \<Rightarrow> (bytes \<times> bytes) list \<Rightarrow> Response \<Rightarrow> Response" where
  "expvar_do first [] w = w"
| "expvar_do first ((k, v) # kvs) w =
     (let w1 = (if first then w else fst (Write ('','' @ [LF]) w))
      in expvar_do False kvs (fst (Write (quote k @ '': '' @ v) w1)))"

definition serveExpvar :: "(bytes \<times> bytes) list \<Rightarrow> Response \<Rightarrow> Response" where
  "serveExpvar vars w =
     (let w1 = fst (Write (''{'' @ [LF]) (Header_Set ''Content-Type'' ''application/json; charset=utf-8'' w))
      in fst (Write ([LF] @ ''}'' @ [LF]) (expvar_do True vars w1)))"

datatype pprof_page = Cmdline | Profile | Symbol | PprofIndex

definition servePprof :: "(pprof_page \<Rightarrow> Request \<Rightarrow> Response \<Rightarrow> Response) \<Rightarrow> Request \<Rightarrow> Response \<Rightarrow> Response" where
  "servePprof pprof r w =
     (if URLPath r = ''/debug/pprof/cmdline'' then pprof Cmdline r w
      else if URLPath r = ''/debug/pprof/profile'' then pprof Profile r w
      else if URLPath r = ''/debug/pprof/symbol'' then pprof Symbol r w
      else pprof PprofIndex r w)"

definition Service_ServeHTTP ::
  "(bool \<Rightarrow> (bytes \<times> 'v) list \<Rightarrow> bytes + bytes) \<Rightarrow> (pprof_page \<Rightarrow> Request \<Rightarrow> Response \<Rightarrow> Response) \<Rightarrow>
   (bytes \<times> bytes) list \<Rightarrow> 'v Service \<Rightarrow> Request \<Rightarrow> Response \<Rightarrow> Response" where
  "Service_ServeHTTP marshal pprof vars s r w0 =
     (let w = (case BuildInfo s ''version'' of
                 Some (InfoString v) \<Rightarrow> Header_Add ''X-EKANITE-VERSION'' v w0
               | _ \<Rightarrow> Header_Add ''X-EKANITE-VERSION'' ''unknown'' w0)
      in if has_prefix (URLPath r) ''/status'' then handleStatus marshal s r w
         else if URLPath r = ''/debug/vars'' then serveExpvar vars w
         else if has_prefix (URLPath r) ''/debug/pprof'' then servePprof pprof r w
         else WriteHeader 404 w)"

section \<open>Lemmas\<close>

lemma collect_status_eq:
  "collect_status ps acc =
     (case find (\<lambda>(_, p). isl p) ps of
        Some (_, Inl err) \<Rightarrow> Inl err
      | _ \<Rightarrow> Inr (acc @ map (\<lambda>(k, p). (k, projr p)) ps))"
proof (induction ps arbitrary: acc)
  case (Cons x ps)
  obtain k p where x: "x = (k, p)" by (cases x)
  show ?case
  proof (cases p)
    case (Inr st)
    with x Cons show ?thesis by (simp split: option.splits prod.splits sum.splits)
  qed (simp add: x)
qed simp

fun join_with :: "bytes \<Rightarrow> bytes list \<Rightarrow> bytes" where
  "join_with sep [] = []"
| "join_with sep [x] = x"
| "join_with sep (x # y # xs) = x @ sep @ join_with sep (y # xs)"

definition var_line :: "bytes \<times> bytes \<Rightarrow> bytes" where
  "var_line kv = quote (fst kv) @ '': '' @ snd kv"

lemma expvar_do_rest:
  assumes "room w = None"
  shows "room (expvar_do False vars w) = None \<and> code (expvar_do False vars w) = (if vars = [] then code w else Some (status_of w)) \<and>
    header (expvar_do False vars w) = header w \<and>
    body (expvar_do False vars w) = body w @ concat (map (\<lambda>kv. ('','' @ [LF]) @ var_line kv) vars)"
  using assms
proof (induction vars arbitrary: w)
  case (Cons x vars)
  then show ?case by (cases x) (auto simp: Let_def var_line_def status_of_def)
qed simp

lemma join_with_Cons: "join_with sep (x # xs) = x @ concat (map (\<lambda>y. sep @ y) xs)"
  by (induction xs arbitrary: x) simp_all

lemma serveExpvar_body:
  assumes "room w = None"
  shows "body (serveExpvar vars w) = body w @ (''{'' @ [LF]) @ join_with ('','' @ [LF]) (map var_line vars) @ [LF] @ ''}'' @ [LF]"
    and "code (serveExpvar vars w) = Some (status_of w)"
    and "header (serveExpvar vars w) = (header w)(''Content-Type'' := [''application/json; charset=utf-8''])"
proof -
  let ?w = "fst (Write (''{'' @ [LF]) (Header_Set ''Content-Type'' ''application/json; charset=utf-8'' w))"
  have r: "room ?w = None" "body ?w = body w @ ''{'' @ [LF]" "code ?w = Some (status_of w)"
    "header ?w = (header w)(''Content-Type'' := [''application/json; charset=utf-8''])"
    using assms by (simp_all add: status_of_def)
  have e: "room (expvar_do True vars ?w) = None \<and> code (expvar_do True vars ?w) = Some (status_of w) \<and>
      header (expvar_do True vars ?w) = header ?w \<and>
      body (expvar_do True vars ?w) = body ?w @ join_with ('','' @ [LF]) (map var_line vars)"
  proof (cases vars)
    case (Cons x vs)
    obtain k v where x: "x = (k, v)" by (cases x)
    let ?v = "fst (Write (quote k @ '': '' @ v) ?w)"
    have "room ?v = None" "body ?v = body ?w @ var_line x" "code ?v = Some (status_of w)" "header ?v = header ?w"
      using r x by (simp_all add: var_line_def status_of_def)
    with expvar_do_rest [of ?v vs] Cons x show ?thesis
      by (simp add: join_with_Cons status_of_def comp_def)
  qed (use r in simp)
  show "body (serveExpvar vars w) = body w @ (''{'' @ [LF]) @ join_with ('','' @ [LF]) (map var_line vars) @ [LF] @ ''}'' @ [LF]"
    "code (serveExpvar vars w) = Some (status_of w)"
    "header (serveExpvar vars w) = (header w)(''Content-Type'' := [''application/json; charset=utf-8''])"
    using e r by (simp_all add: serveExpvar_def Let_def status_of_def)
qed

text \<open>What a service reports: its entries, its version, and whether a request asks for indentation.\<close>

definition entries :: "'v Service \<Rightarrow> (bytes \<times> 'v provider) list" where
  "entries s = (case providers s of None \<Rightarrow> [] | Some m \<Rightarrow> m)"

definition version_of :: "'v Service \<Rightarrow> bytes" where
  "version_of s = (case BuildInfo s ''version'' of Some (InfoString v) \<Rightarrow> v | _ \<Rightarrow> ''unknown'')"

definition pretty :: "Request \<Rightarrow> bool" where
  "pretty r = (case Form r of Inl _ \<Rightarrow> False | Inr f \<Rightarrow> map_of f ''pretty'' \<noteq> None)"

lemma collect_status_cases:
  "collect_status ps [] =
     (if \<exists>(k, p)\<in>set ps. isl p then Inl (projl (snd (the (find (\<lambda>(_, p). isl p) ps))))
      else Inr (map (\<lambda>(k, p). (k, projr p)) ps))"
proof (cases "find (\<lambda>(_, p). isl p) ps")
  case None
  then have "\<not> (\<exists>(k, p)\<in>set ps. isl p)" by (auto simp: find_None_iff)
  with None show ?thesis by (simp add: collect_status_eq)
next
  case (Some x)
  then obtain k err where x: "x = (k, Inl err)" by (cases x; cases "snd x") (auto simp: find_Some_iff)
  from Some have "x \<in> set ps" unfolding find_Some_iff by (metis nth_mem)
  with x have "\<exists>(k, p)\<in>set ps. isl p" by force
  with Some x show ?thesis by (simp add: collect_status_eq)
qed

lemma handleStatus_fresh:
  assumes "room w = None" and "code w = None" and "body w = []"
  shows "(status_of (handleStatus marshal s r w), body (handleStatus marshal s r w)) =
      (if \<exists>(k, p)\<in>set (entries s). isl p then (500, [])
       else case marshal (pretty r) (map (\<lambda>(k, p). (k, projr p)) (entries s)) of
              Inl err \<Rightarrow> (500, err @ [LF]) | Inr b \<Rightarrow> (200, b))"
    and "header (handleStatus marshal s r w) ''X-EKANITE-VERSION'' = header w ''X-EKANITE-VERSION''"
proof -
  have p: "(case isPretty r of Inl _ \<Rightarrow> False | Inr p \<Rightarrow> p) = pretty r"
    by (simp add: isPretty_def queryParam_def pretty_def split: sum.splits)
  have wr: "(case Write b w of (w1, None) \<Rightarrow> w1 | (w1, Some _) \<Rightarrow> WriteHeader 500 w1) = fst (Write b w)" for b
    using assms(1) write_simps(1) [of w b] by (cases "Write b w") simp
  show "(status_of (handleStatus marshal s r w), body (handleStatus marshal s r w)) =
      (if \<exists>(k, p)\<in>set (entries s). isl p then (500, [])
       else case marshal (pretty r) (map (\<lambda>(k, p). (k, projr p)) (entries s)) of
              Inl err \<Rightarrow> (500, err @ [LF]) | Inr b \<Rightarrow> (200, b))"
    unfolding handleStatus_def collect_status_cases p entries_def [symmetric] using assms
    by (auto simp: wr status_of_def http_Error_def split: sum.splits)
  show "header (handleStatus marshal s r w) ''X-EKANITE-VERSION'' = header w ''X-EKANITE-VERSION''"
    unfolding handleStatus_def collect_status_cases p entries_def [symmetric] using assms
    by (auto simp: wr split: sum.splits)
qed

section \<open>Properties\<close>

text \<open>
  C40. The responses of the status service, on a connection that takes all writes and outside the
  profiler's pages. Every response has one version header. Paths that begin with \<open>/status\<close> get 500 and nothing
  else when a provider fails, 500 with the error when the encoding fails, and otherwise 200 and the
  encoding of what all providers report, indented if asked for; \<open>/debug/vars\<close> gets 200 and
  the variables as one object, separated by commas; any other path gets 404.
\<close>

theorem status_responses:
  assumes "\<not> has_prefix (URLPath r) ''/debug/pprof''" and "w = Service_ServeHTTP marshal pprof vars s r (new_response None)"
  shows "header w ''X-EKANITE-VERSION'' = [version_of s] \<and>
    (status_of w, body w) =
      (if has_prefix (URLPath r) ''/status'' then
         (if \<exists>(k, p)\<in>set (entries s). isl p then (500, [])
          else case marshal (pretty r) (map (\<lambda>(k, p). (k, projr p)) (entries s)) of
                 Inl err \<Rightarrow> (500, err @ [LF]) | Inr b \<Rightarrow> (200, b))
       else if URLPath r = ''/debug/vars'' then
         (200, ''{'' @ [LF] @ join_with ('','' @ [LF]) (map var_line vars) @ [LF] @ ''}'' @ [LF])
       else (404, []))"
proof -
  let ?w = "Header_Add ''X-EKANITE-VERSION'' (version_of s) (new_response None)"
  have f: "room ?w = None" "code ?w = None" "body ?w = []" "header ?w ''X-EKANITE-VERSION'' = [version_of s]"
    by (simp_all add: new_response_def)
  have v: "(case BuildInfo s ''version'' of
      Some (InfoString v) \<Rightarrow> Header_Add ''X-EKANITE-VERSION'' v (new_response None)
    | _ \<Rightarrow> Header_Add ''X-EKANITE-VERSION'' ''unknown'' (new_response None)) = ?w"
    by (simp add: version_of_def split: option.splits info.splits)
  consider (Status) "has_prefix (URLPath r) ''/status''"
    | (Vars) "URLPath r = ''/debug/vars''" "\<not> has_prefix (URLPath r) ''/status''"
    | (Other) "\<not> has_prefix (URLPath r) ''/status''" "URLPath r \<noteq> ''/debug/vars''" by blast
  then show ?thesis
  proof cases
    case Status
    then have "w = handleStatus marshal s r ?w" unfolding assms(2) Service_ServeHTTP_def Let_def v by simp
    with handleStatus_fresh [OF f(1-3), of marshal s r] f(4) Status show ?thesis by simp
  next
    case Vars
    then have "w = serveExpvar vars ?w" unfolding assms(2) Service_ServeHTTP_def Let_def v by simp
    with serveExpvar_body [OF f(1), of vars] f Vars show ?thesis by (simp add: status_of_def)
  next
    case Other
    then have "w = WriteHeader 404 ?w" using assms(1) unfolding assms(2) Service_ServeHTTP_def Let_def v by simp
    with f Other show ?thesis by (simp add: status_of_def)
  qed
qed

theorem status_responses_witness:
  "\<exists>w. w = Service_ServeHTTP (\<lambda>p m. Inr ''{}'') (\<lambda>_ _ w. w) [] (NewService ''h:1'' :: nat Service)
      \<lparr>Method = ''GET'', URLPath = ''/status'', Form = Inr []\<rparr> (new_response None) \<and>
    (status_of w, body w) = (200, ''{}'')"
  using status_responses [OF _ refl, of "\<lparr>Method = ''GET'', URLPath = ''/status'', Form = Inr []\<rparr>" "\<lambda>p m. Inr ''{}''" "\<lambda>_ _ w. w" "[]"
      "NewService ''h:1'' :: nat Service"]
  by (simp add: entries_def NewService_def)

text \<open>
  No provider can be registered: \<open>NewService\<close> leaves the map nil, so \<open>Register\<close> always panics.
\<close>

lemma register_panics: "Register k p (fst (Service_Start listen (NewService a))) = None"
  by (simp add: Register_def Service_Start_def NewService_def split: sum.splits)

end
