(* ===== verification/Daemon.thy ===== *)
theory Daemon
  imports Daemon_Flags Pipeline Engine_Restart Status_Service
begin

text \<open>
  The program \<open>ekanited\<close> of \<open>cmd/ekanited/main.go\<close>: its start, function by function and in the order of \<open>main\<close>, and its
  end. What \<open>log.Fatal\<close> and a panic end is a value of type \<open>fatal\<close>, beside the file system as the process leaves
  it. Shows what runs after a successful start and that every start error is fatal.
\<close>

section \<open>The machine\<close>

text \<open>
  What the daemon asks of the operating system and of cryptography: the file system and the search library
  (\<open>m_env\<close>), \<open>filepath.Abs\<close>, the network (\<open>net.Listen\<close> and \<open>tls.Listen\<close>, given the addresses the process listens on already,
  \<open>net.ResolveUDPAddr\<close> and \<open>net.ListenUDP\<close>), \<open>ioutil.ReadFile\<close> on the files of TLS, \<open>os.Create\<close> on those of the profiler, the parsers
  of package \<open>x509\<close>, and the fractions of \<open>time.ParseDuration\<close>. An \<open>Inl\<close> is the text of an error.
\<close>

datatype ClientAuthType =
  NoClientCert | RequestClientCert | RequireAnyClientCert | VerifyClientCertIfGiven | RequireAndVerifyClientCert

record 'k tls_Certificate =
  Certificate :: "bytes list"
  PrivateKey :: 'k

record ('c, 'k) tls_Config =
  ClientAuth :: ClientAuthType
  Certificates :: "'k tls_Certificate list"
  ClientCAs :: "'c list"

record ('b, 'c, 'k, 'a) machine =
  m_env :: "'b env"
  m_frac :: "bytes \<Rightarrow> int \<Rightarrow> nat"
  m_Abs :: "bytes \<Rightarrow> bytes + path"
  m_Listen :: "bytes list \<Rightarrow> bytes \<Rightarrow> bytes + bytes"
  m_TLSListen :: "bytes list \<Rightarrow> ('c, 'k) tls_Config \<Rightarrow> bytes \<Rightarrow> bytes + bytes"
  m_ResolveUDP :: "bytes \<Rightarrow> bytes + 'a"
  m_ListenUDP :: "'a \<Rightarrow> bytes option"
  m_ReadFile :: "bytes \<Rightarrow> bytes + bytes"
  m_ParseCertificate :: "bytes \<Rightarrow> bytes + 'c"
  m_ParseKey :: "bytes \<Rightarrow> bytes + 'k"
  m_Create :: "bytes \<Rightarrow> bytes option"

section \<open>The parts of main\<close>

datatype fatal =
    BadFlags flag_error
  | NoAbsolutePath bytes
  | BadRetention duration_error
  | StatusFailed bytes
  | EngineFailed go_error
  | QueryServerFailed bytes
  | HTTPServerFailed bytes
  | BatcherPanic
  | TLSFailed bytes
  | TCPNotCreated bytes
  | TCPNotStarted bytes
  | UDPNotCreated bytes
  | UDPNotStarted bytes
  | UDPPanic
  | CPUProfileFailed bytes
  | MemProfileFailed bytes

text \<open>
  The process as \<open>main\<close> builds it up. The servers search the engine as it is when a query comes; the field of the
  server holds it as it was at the start.
\<close>

record ('b, 'c, 'k, 'a) process =
  p_world :: "'b world"
  p_bound :: "bytes list"
  p_diag :: "bytes Service option"
  p_engine :: "Engine option"
  p_query :: "Server option"
  p_http :: "HTTPServer option"
  p_batcher :: "('b world \<times> Engine) Batcher option"
  p_tcp :: "('c, 'k) tls_Config TCPCollector option"
  p_udp :: "('a UDPCollector \<times> UDPConn) option"
  p_prof :: "bytes option \<times> bytes option"

definition new_process :: "'b world \<Rightarrow> ('b, 'c, 'k, 'a) process" where
  "new_process w = \<lparr>p_world = w, p_bound = [], p_diag = None, p_engine = None, p_query = None, p_http = None,
     p_batcher = None, p_tcp = None, p_udp = None, p_prof = (None, None)\<rparr>"

type_synonym ('b, 'c, 'k, 'a) started = "fatal \<times> 'b world + ('b, 'c, 'k, 'a) process"

definition die :: "fatal \<Rightarrow> ('b, 'c, 'k, 'a) process \<Rightarrow> ('b, 'c, 'k, 'a) started" where
  "die f p = Inl (f, p_world p)"

definition startDiagServer ::
  "('b, 'c, 'k, 'a) machine \<Rightarrow> bytes \<Rightarrow> ('b, 'c, 'k, 'a) process \<Rightarrow> ('b, 'c, 'k, 'a) started" where
  "startDiagServer m ifc p =
     (case Service_Start (m_Listen m (p_bound p)) (NewService ifc) of
        (s, Some err) \<Rightarrow> die (StatusFailed err) p
      | (s, None) \<Rightarrow> Inr (p\<lparr>p_diag := Some s, p_bound := p_bound p @ [ifc]\<rparr>))"

definition openEngine ::
  "('b, 'c, 'k, 'a) machine \<Rightarrow> path \<Rightarrow> int \<Rightarrow> duration \<Rightarrow> ('b, 'c, 'k, 'a) process \<Rightarrow> ('b, 'c, 'k, 'a) started" where
  "openEngine m dir n r p =
     (case Engine_Open (m_env m) (p_world p) ((NewEngine dir)\<lparr>NumShards := n, RetentionPeriod := r\<rparr>) of
        (w, e, Some err) \<Rightarrow> die (EngineFailed err) (p\<lparr>p_world := w\<rparr>)
      | (w, e, None) \<Rightarrow> Inr (p\<lparr>p_world := w, p_engine := Some e\<rparr>))"

text \<open>\<open>NewServer\<close> never returns nil.\<close>

definition startQueryServer ::
  "('b, 'c, 'k, 'a) machine \<Rightarrow> bytes \<Rightarrow> Engine \<Rightarrow> ('b, 'c, 'k, 'a) process \<Rightarrow> ('b, 'c, 'k, 'a) started" where
  "startQueryServer m ifc e p =
     (case Server_Start (m_Listen m (p_bound p)) (NewServer ifc (engine_searcher (m_env m) (p_world p, e))) of
        (s, Some err) \<Rightarrow> die (QueryServerFailed err) p
      | (s, None) \<Rightarrow> Inr (p\<lparr>p_query := Some s, p_bound := p_bound p @ [ifc]\<rparr>))"

definition startHTTPQueryServer ::
  "('b, 'c, 'k, 'a) machine \<Rightarrow> bytes \<Rightarrow> Engine \<Rightarrow> ('b, 'c, 'k, 'a) process \<Rightarrow> ('b, 'c, 'k, 'a) started" where
  "startHTTPQueryServer m ifc e p =
     (case HTTPServer_Start (m_Listen m (p_bound p)) (NewHTTPServer ifc (engine_searcher (m_env m) (p_world p, e))) of
        (s, Some err) \<Rightarrow> die (HTTPServerFailed err) p
      | (s, None) \<Rightarrow> Inr (p\<lparr>p_http := Some s, p_bound := p_bound p @ [ifc]\<rparr>))"

text \<open>
  The batch timeout is a number of milliseconds; its product with \<open>time.Millisecond\<close> is a 64-bit number and wraps.
  \<open>make\<close> panics for a channel or a slice of negative size: the first in \<open>NewBatcher\<close>, the second in the goroutine of
  \<open>Batcher.Start\<close>.
\<close>

definition milliseconds :: "int \<Rightarrow> duration" where
  "milliseconds n = sint (word_of_int (n * 1000000) :: 64 word)"

definition startBatcher :: "Engine \<Rightarrow> int \<Rightarrow> int \<Rightarrow> int \<Rightarrow> ('b, 'c, 'k, 'a) process \<Rightarrow> ('b, 'c, 'k, 'a) started" where
  "startBatcher e sz ms mx p =
     (if mx < 0 \<or> sz < 0 then die BatcherPanic p
      else Inr (p\<lparr>p_batcher := Some (NewBatcher (p_world p, e) (nat sz) (milliseconds ms) (nat mx))\<rparr>))"

definition newTLSConfig :: "('b, 'c, 'k, 'a) machine \<Rightarrow> bytes \<Rightarrow> bytes \<Rightarrow> bytes + ('c, 'k) tls_Config" where
  "newTLSConfig m caPemPath caKeyPath =
     (case m_ReadFile m caPemPath of
        Inl err \<Rightarrow> Inl err
      | Inr caPem \<Rightarrow>
          (case m_ParseCertificate m caPem of
             Inl err \<Rightarrow> Inl err
           | Inr ca \<Rightarrow>
               (case m_ReadFile m caKeyPath of
                  Inl err \<Rightarrow> Inl err
                | Inr caKey \<Rightarrow>
                    (case m_ParseKey m caKey of
                       Inl err \<Rightarrow> Inl err
                     | Inr key \<Rightarrow>
                         Inr \<lparr>ClientAuth = RequireAndVerifyClientCert,
                              Certificates = [\<lparr>Certificate = [caPem], PrivateKey = key\<rparr>], ClientCAs = [ca]\<rparr>))))"

definition startTCPCollector ::
  "('b, 'c, 'k, 'a) machine \<Rightarrow> bytes \<Rightarrow> bytes \<Rightarrow> ('c, 'k) tls_Config option \<Rightarrow> ('b, 'c, 'k, 'a) process \<Rightarrow>
    ('b, 'c, 'k, 'a) started" where
  "startTCPCollector m ifc fmt tls p =
     (case NewCollector (m_ResolveUDP m) ''tcp'' ifc fmt tls of
        Inl err \<Rightarrow> die (TCPNotCreated err) p
      | Inr (UDPC _) \<Rightarrow> die UDPPanic p
      | Inr (TCPC col) \<Rightarrow>
          (case TCPCollector_Start (m_Listen m (p_bound p)) (m_TLSListen m (p_bound p)) col of
             (s, Some err) \<Rightarrow> die (TCPNotStarted err) p
           | (s, None) \<Rightarrow> Inr (p\<lparr>p_tcp := Some s, p_bound := p_bound p @ [ifc]\<rparr>)))"

definition startUDPCollector ::
  "('b, 'c, 'k, 'a) machine \<Rightarrow> bytes \<Rightarrow> bytes \<Rightarrow> ('b, 'c, 'k, 'a) process \<Rightarrow> ('b, 'c, 'k, 'a) started" where
  "startUDPCollector m ifc fmt p =
     (case NewCollector (m_ResolveUDP m) ''udp'' ifc fmt (None :: ('c, 'k) tls_Config option) of
        Inl err \<Rightarrow> die (UDPNotCreated err) p
      | Inr (TCPC _) \<Rightarrow> die UDPPanic p
      | Inr (UDPC col) \<Rightarrow>
          (case UDPCollector_Start (m_ListenUDP m) col of
             None \<Rightarrow> die UDPPanic p
           | Some (Inl err) \<Rightarrow> die (UDPNotStarted err) p
           | Some (Inr u) \<Rightarrow> Inr (p\<lparr>p_udp := Some (col, u)\<rparr>)))"

definition startProfile :: "('b, 'c, 'k, 'a) machine \<Rightarrow> bytes \<Rightarrow> bytes \<Rightarrow> ('b, 'c, 'k, 'a) process \<Rightarrow> ('b, 'c, 'k, 'a) started" where
  "startProfile m cpu mem p =
     (case (if cpu = [] then None else m_Create m cpu) of
        Some err \<Rightarrow> die (CPUProfileFailed err) p
      | None \<Rightarrow>
          (case (if mem = [] then None else m_Create m mem) of
             Some err \<Rightarrow> die (MemProfileFailed err) p
           | None \<Rightarrow>
               Inr (p\<lparr>p_prof := (if cpu = [] then fst (p_prof p) else Some cpu,
                                if mem = [] then snd (p_prof p) else Some mem)\<rparr>)))"

text \<open>\<open>stopProfile\<close>: what it does with the files.\<close>

datatype prof_action = StopCPUProfile | WriteHeapProfile bytes | CloseFile bytes

definition stopProfile :: "bytes option \<times> bytes option \<Rightarrow> prof_action list" where
  "stopProfile prof =
     (case fst prof of None \<Rightarrow> [] | Some f \<Rightarrow> [StopCPUProfile, CloseFile f]) @
     (case snd prof of None \<Rightarrow> [] | Some f \<Rightarrow> [WriteHeapProfile f, CloseFile f])"

text \<open>\<open>drainLog\<close>: the lines it logs for what it receives.\<close>

definition drainLog :: "bytes \<Rightarrow> go_error option list \<Rightarrow> (bytes \<times> go_error) list" where
  "drainLog msg errs = List.map_filter (map_option (Pair msg)) errs"

section \<open>main\<close>

definition and_then :: "'e + 'x \<Rightarrow> ('x \<Rightarrow> 'e + 'y) \<Rightarrow> 'e + 'y" where
  "and_then r f = (case r of Inl err \<Rightarrow> Inl err | Inr x \<Rightarrow> f x)"

definition requested :: "bytes \<Rightarrow> ('x \<Rightarrow> 'e + 'x) \<Rightarrow> 'x \<Rightarrow> 'e + 'x" where
  "requested ifc f x = (if ifc \<noteq> [] then f x else Inr x)"

definition tls_of :: "('b, 'c, 'k, 'a) machine \<Rightarrow> Config \<Rightarrow> bytes + ('c, 'k) tls_Config option" where
  "tls_of m c =
     (if f_caPemPath c \<noteq> [] \<and> f_caKeyPath c \<noteq> [] then map_sum id Some (newTLSConfig m (f_caPemPath c) (f_caKeyPath c))
      else Inr None)"

definition start_tcp :: "('b, 'c, 'k, 'a) machine \<Rightarrow> Config \<Rightarrow> ('b, 'c, 'k, 'a) process \<Rightarrow> ('b, 'c, 'k, 'a) started" where
  "start_tcp m c p =
     (case tls_of m c of
        Inl err \<Rightarrow> die (TLSFailed err) p
      | Inr tls \<Rightarrow> startTCPCollector m (f_tcpIface c) (f_inputFormat c) tls p)"

definition start_input :: "('b, 'c, 'k, 'a) machine \<Rightarrow> Config \<Rightarrow> ('b, 'c, 'k, 'a) process \<Rightarrow> ('b, 'c, 'k, 'a) started" where
  "start_input m c p =
     and_then (requested (f_tcpIface c) (start_tcp m c) p) (\<lambda>p.
     and_then (requested (f_udpIface c) (startUDPCollector m (f_udpIface c) (f_inputFormat c)) p)
       (startProfile m (f_cpuProfile c) (f_memProfile c)))"

definition start_engine :: "('b, 'c, 'k, 'a) machine \<Rightarrow> Config \<Rightarrow> path \<Rightarrow> duration \<Rightarrow> ('b, 'c, 'k, 'a) process \<Rightarrow>
    ('b, 'c, 'k, 'a) started" where
  "start_engine m c dir r p =
     and_then (openEngine m dir (f_numShards c) r p) (\<lambda>p.
     and_then (requested (f_queryIface c) (startQueryServer m (f_queryIface c) (the (p_engine p))) p) (\<lambda>p.
     and_then (requested (f_queryIfaceHttp c) (startHTTPQueryServer m (f_queryIfaceHttp c) (the (p_engine p))) p) (\<lambda>p.
     startBatcher (the (p_engine p)) (f_batchSize c) (f_batchTimeout c) (f_indexMaxPending c) p)))"

text \<open>\<open>main\<close> up to \<open>waitForSignals\<close>, on given parameters and on a command line.\<close>

definition start :: "('b, 'c, 'k, 'a) machine \<Rightarrow> Config \<Rightarrow> 'b world \<Rightarrow> ('b, 'c, 'k, 'a) started" where
  "start m c w =
     (case m_Abs m (f_datadir c) of
        Inl err \<Rightarrow> Inl (NoAbsolutePath err, w)
      | Inr dir \<Rightarrow>
          (case ParseDuration (m_frac m) (f_retentionPeriod c) of
             Inl err \<Rightarrow> Inl (BadRetention err, w)
           | Inr r \<Rightarrow>
               and_then (requested (f_diagIface c) (startDiagServer m (f_diagIface c)) (new_process w)) (\<lambda>p.
               and_then (start_engine m c dir r p) (start_input m c))))"

definition main :: "('b, 'c, 'k, 'a) machine \<Rightarrow> bytes list \<Rightarrow> 'b world \<Rightarrow> ('b, 'c, 'k, 'a) started" where
  "main m args w =
     (case parse_flags args default_config of
        Inl err \<Rightarrow> Inl (BadFlags err, w)
      | Inr c \<Rightarrow> start m c w)"

text \<open>
  After the signal: the engine, in the state \<open>x\<close> it has reached, is closed, whatever \<open>Close\<close> returns, and the
  profiles are written.
\<close>

definition shut_down :: "'b env \<Rightarrow> 'b world \<times> Engine \<Rightarrow> bytes option \<times> bytes option \<Rightarrow> ('b world \<times> prof_action list) option" where
  "shut_down env x prof = map_option (\<lambda>(w, e, err). (w, stopProfile prof)) (Engine_Close env (fst x) (snd x))"

section \<open>After a successful start\<close>

lemma and_then_Inr [simp]: "and_then r f = Inr y \<longleftrightarrow> (\<exists>x. r = Inr x \<and> f x = Inr y)"
  by (auto simp: and_then_def split: sum.splits)

lemma and_then_simps [simp]: "and_then (Inr x) f = f x" "and_then (Inl err) f = Inl err"
  by (simp_all add: and_then_def)

lemma die_not_Inr [simp]: "die f p \<noteq> Inr q" "Inr q \<noteq> die f p"
  by (simp_all add: die_def)

text \<open>Each part alone.\<close>

lemma startDiagServer_Inr:
  "startDiagServer m a p = Inr p' \<longleftrightarrow> (\<exists>ln. m_Listen m (p_bound p) a = Inr ln \<and>
    p' = p\<lparr>p_diag := Some ((NewService a)\<lparr>svc_ln := Some ln\<rparr>), p_bound := p_bound p @ [a]\<rparr>)"
  by (auto simp: startDiagServer_def Service_Start_def NewService_def split: sum.splits)

lemma startQueryServer_Inr:
  "startQueryServer m a e p = Inr p' \<longleftrightarrow> (\<exists>ln. m_Listen m (p_bound p) a = Inr ln \<and>
    p' = p\<lparr>p_query := Some ((NewServer a (engine_searcher (m_env m) (p_world p, e)))\<lparr>srv_addr := Some ln\<rparr>),
      p_bound := p_bound p @ [a]\<rparr>)"
  by (auto simp: startQueryServer_def Server_Start_def NewServer_def split: sum.splits)

lemma startHTTPQueryServer_Inr:
  "startHTTPQueryServer m a e p = Inr p' \<longleftrightarrow> (\<exists>ln. m_Listen m (p_bound p) a = Inr ln \<and>
    p' = p\<lparr>p_http := Some ((NewHTTPServer a (engine_searcher (m_env m) (p_world p, e)))\<lparr>http_addr := Some ln\<rparr>),
      p_bound := p_bound p @ [a]\<rparr>)"
  by (auto simp: startHTTPQueryServer_def HTTPServer_Start_def NewHTTPServer_def split: sum.splits)

lemma openEngine_Inr:
  "openEngine m dir n r p = Inr p' \<longleftrightarrow>
    (\<exists>w e. Engine_Open (m_env m) (p_world p) ((NewEngine dir)\<lparr>NumShards := n, RetentionPeriod := r\<rparr>) = (w, e, None) \<and>
      p' = p\<lparr>p_world := w, p_engine := Some e\<rparr>)"
  by (auto simp: openEngine_def split: prod.splits option.splits)

lemma startBatcher_Inr:
  "startBatcher e sz ms mx p = Inr p' \<longleftrightarrow> 0 \<le> sz \<and> 0 \<le> mx \<and>
    p' = p\<lparr>p_batcher := Some (NewBatcher (p_world p, e) (nat sz) (milliseconds ms) (nat mx))\<rparr>"
  by (auto simp: startBatcher_def)

lemma lower_protocols: "to_lower ''tcp'' = ''tcp''" "to_lower ''udp'' = ''udp''"
  by code_simp+

lemma startTCPCollector_Inr:
  "startTCPCollector m a fmt tls p = Inr p' \<longleftrightarrow> ValidFormat fmt \<and>
    (\<exists>ln. (case tls of None \<Rightarrow> m_Listen m (p_bound p) a | Some t \<Rightarrow> m_TLSListen m (p_bound p) t a) = Inr ln \<and>
      p' = p\<lparr>p_tcp := Some \<lparr>iface = a, tcp_format = fmt, tcp_addr = Some ln, tlsConfig = tls\<rparr>, p_bound := p_bound p @ [a]\<rparr>)"
proof -
  have "NewCollector (m_ResolveUDP m) ''tcp'' a fmt tls =
      (case NewParser fmt of Inl err \<Rightarrow> Inl err
       | Inr _ \<Rightarrow> Inr (TCPC \<lparr>iface = a, tcp_format = fmt, tcp_addr = None, tlsConfig = tls\<rparr>))"
    by (simp add: NewCollector_def lower_protocols split: sum.splits)
  moreover have "ValidFormat fmt \<longleftrightarrow> (\<exists>h. NewParser fmt = Inr h)" by (rule ValidFormat_iff)
  ultimately show ?thesis
    by (auto simp: startTCPCollector_def TCPCollector_Start_def split: sum.splits option.splits)
qed

lemma startUDPCollector_Inr:
  fixes m :: "('b, 'c, 'k, 'a) machine"
  shows "startUDPCollector m a fmt p = Inr p' \<longleftrightarrow> ValidFormat fmt \<and>
    (\<exists>ad u. m_ResolveUDP m a = Inr ad \<and> m_ListenUDP m ad = None \<and> udp_start fmt = Some u \<and>
      p' = p\<lparr>p_udp := Some (\<lparr>udp_addr = ad, udp_format = fmt\<rparr>, u)\<rparr>)"
proof -
  have "NewCollector (m_ResolveUDP m) ''udp'' a fmt (None :: ('c, 'k) tls_Config option) =
      (case NewParser fmt of Inl err \<Rightarrow> Inl err
       | Inr _ \<Rightarrow> (case m_ResolveUDP m a of Inl err \<Rightarrow> Inl err | Inr ad \<Rightarrow> Inr (UDPC \<lparr>udp_addr = ad, udp_format = fmt\<rparr>)))"
    by (simp add: NewCollector_def lower_protocols split: sum.splits)
  moreover have "ValidFormat fmt \<longleftrightarrow> (\<exists>h. NewParser fmt = Inr h)" by (rule ValidFormat_iff)
  ultimately show ?thesis
    by (auto simp: startUDPCollector_def UDPCollector_Start_def split: sum.splits option.splits)
qed

lemma startProfile_Inr:
  "startProfile m cpu mem p = Inr p' \<longleftrightarrow> (cpu = [] \<or> m_Create m cpu = None) \<and> (mem = [] \<or> m_Create m mem = None) \<and>
    p' = p\<lparr>p_prof := (if cpu = [] then fst (p_prof p) else Some cpu, if mem = [] then snd (p_prof p) else Some mem)\<rparr>"
  by (auto simp: startProfile_def split: option.splits if_splits)

lemmas stages_Inr = startDiagServer_Inr startQueryServer_Inr startHTTPQueryServer_Inr openEngine_Inr startBatcher_Inr
  startTCPCollector_Inr startUDPCollector_Inr startProfile_Inr

text \<open>Interfaces that are asked for, and the services on them.\<close>

definition wanted :: "bytes \<Rightarrow> bytes option" where
  "wanted a = (if a = [] then None else Some a)"

definition given :: "bytes list \<Rightarrow> bytes list" where
  "given = filter (\<lambda>a. a \<noteq> [])"

lemma given_simps [simp]: "given [] = []" "given (a # as) = (if a = [] then given as else a # given as)"
  by (simp_all add: given_def)

lemma requested_Inr: "requested a f x = Inr y \<longleftrightarrow> (if a = [] then y = x else f x = Inr y)"
  by (auto simp: requested_def)

lemma start_engine_Inr:
  assumes "start_engine m c dir r p = Inr p'" and "p_query p = None" and "p_http p = None"
  shows "\<exists>w e q h. Engine_Open (m_env m) (p_world p) ((NewEngine dir)\<lparr>NumShards := f_numShards c, RetentionPeriod := r\<rparr>) = (w, e, None) \<and>
    p' = p\<lparr>p_world := w, p_engine := Some e, p_query := q, p_http := h,
      p_batcher := Some (NewBatcher (w, e) (nat (f_batchSize c)) (milliseconds (f_batchTimeout c)) (nat (f_indexMaxPending c))),
      p_bound := p_bound p @ given [f_queryIface c, f_queryIfaceHttp c]\<rparr> \<and>
    0 \<le> f_batchSize c \<and> 0 \<le> f_indexMaxPending c \<and>
    map_option srv_iface q = wanted (f_queryIface c) \<and> map_option http_iface h = wanted (f_queryIfaceHttp c)"
  using assms
  by (cases p) (auto simp: start_engine_def stages_Inr requested_Inr wanted_def NewServer_def NewHTTPServer_def split: if_splits)

text \<open>The TCP collector is secure exactly when both files of TLS are given.\<close>

definition tcp_as_asked :: "('b, 'c, 'k, 'a) machine \<Rightarrow> Config \<Rightarrow> ('c, 'k) tls_Config TCPCollector option \<Rightarrow> bool" where
  "tcp_as_asked m c t \<longleftrightarrow>
     (case t of
        None \<Rightarrow> f_tcpIface c = []
      | Some s \<Rightarrow> f_tcpIface c \<noteq> [] \<and> iface s = f_tcpIface c \<and> tcp_format s = f_inputFormat c \<and> ValidFormat (f_inputFormat c) \<and>
          (case tlsConfig s of
             None \<Rightarrow> f_caPemPath c = [] \<or> f_caKeyPath c = []
           | Some cfg \<Rightarrow> f_caPemPath c \<noteq> [] \<and> f_caKeyPath c \<noteq> [] \<and> newTLSConfig m (f_caPemPath c) (f_caKeyPath c) = Inr cfg \<and>
               ClientAuth cfg = RequireAndVerifyClientCert))"

definition udp_as_asked :: "('b, 'c, 'k, 'a) machine \<Rightarrow> Config \<Rightarrow> ('a UDPCollector \<times> UDPConn) option \<Rightarrow> bool" where
  "udp_as_asked m c t \<longleftrightarrow>
     (case t of
        None \<Rightarrow> f_udpIface c = []
      | Some (s, u) \<Rightarrow> f_udpIface c \<noteq> [] \<and> m_ResolveUDP m (f_udpIface c) = Inr (udp_addr s) \<and> udp_format s = f_inputFormat c \<and>
          udp_start (f_inputFormat c) = Some u)"

lemma newTLSConfig_auth: "newTLSConfig m a b = Inr cfg \<Longrightarrow> ClientAuth cfg = RequireAndVerifyClientCert"
  by (auto simp: newTLSConfig_def split: sum.splits)

lemma start_tcp_Inr:
  assumes "start_tcp m c p = Inr p'" and "f_tcpIface c \<noteq> []"
  shows "\<exists>s. p' = p\<lparr>p_tcp := Some s, p_bound := p_bound p @ [f_tcpIface c]\<rparr> \<and> tcp_as_asked m c (Some s)"
proof -
  from assms(1) obtain tls where tls: "tls_of m c = Inr tls" "startTCPCollector m (f_tcpIface c) (f_inputFormat c) tls p = Inr p'"
    by (auto simp: start_tcp_def split: sum.splits)
  then obtain ln where p': "ValidFormat (f_inputFormat c)"
    "p' = p\<lparr>p_tcp := Some \<lparr>iface = f_tcpIface c, tcp_format = f_inputFormat c, tcp_addr = Some ln, tlsConfig = tls\<rparr>,
      p_bound := p_bound p @ [f_tcpIface c]\<rparr>" unfolding startTCPCollector_Inr by blast
  moreover have "case tls of None \<Rightarrow> f_caPemPath c = [] \<or> f_caKeyPath c = []
      | Some cfg \<Rightarrow> f_caPemPath c \<noteq> [] \<and> f_caKeyPath c \<noteq> [] \<and> newTLSConfig m (f_caPemPath c) (f_caKeyPath c) = Inr cfg \<and>
          ClientAuth cfg = RequireAndVerifyClientCert"
    using tls(1) newTLSConfig_auth
    by (cases "newTLSConfig m (f_caPemPath c) (f_caKeyPath c)") (auto simp: tls_of_def split: if_splits)
  ultimately show ?thesis using assms(2) by (intro exI conjI) (assumption, simp add: tcp_as_asked_def)
qed

lemma start_input_Inr:
  assumes "start_input m c p = Inr p'" and "p_tcp p = None" and "p_udp p = None" and "p_prof p = (None, None)"
  shows "\<exists>t u. p' = p\<lparr>p_tcp := t, p_udp := u, p_prof := (wanted (f_cpuProfile c), wanted (f_memProfile c)),
      p_bound := p_bound p @ given [f_tcpIface c]\<rparr> \<and> tcp_as_asked m c t \<and> udp_as_asked m c u"
proof -
  from assms(1) obtain p1 p2 where 1: "requested (f_tcpIface c) (start_tcp m c) p = Inr p1"
    and 2: "requested (f_udpIface c) (startUDPCollector m (f_udpIface c) (f_inputFormat c)) p1 = Inr p2"
    and 3: "startProfile m (f_cpuProfile c) (f_memProfile c) p2 = Inr p'" by (auto simp: start_input_def)
  obtain t where t: "p1 = p\<lparr>p_tcp := t, p_bound := p_bound p @ given [f_tcpIface c]\<rparr>" "tcp_as_asked m c t"
  proof (cases "f_tcpIface c = []")
    case True
    then show ?thesis using 1 assms(2) by (intro that [of None]) (simp_all add: requested_Inr tcp_as_asked_def)
  next
    case False
    with 1 start_tcp_Inr [of m c p p1] that show ?thesis by (auto simp: requested_Inr)
  qed
  have none: "p_udp p1 = None" using assms(3) t(1) by simp
  obtain u where u: "p2 = p1\<lparr>p_udp := u\<rparr>" "udp_as_asked m c u"
  proof (cases "f_udpIface c = []")
    case True
    then show ?thesis using 2 none by (intro that [of None]) (simp_all add: requested_Inr udp_as_asked_def)
  next
    case False
    then show ?thesis using 2 that by (auto simp: requested_Inr startUDPCollector_Inr udp_as_asked_def)
  qed
  have "p' = p\<lparr>p_tcp := t, p_udp := u, p_prof := (wanted (f_cpuProfile c), wanted (f_memProfile c)),
      p_bound := p_bound p @ given [f_tcpIface c]\<rparr>"
    using 3 assms(4) unfolding startProfile_Inr t(1) u(1) by (simp add: wanted_def)
  with t(2) u(2) show ?thesis by blast
qed

section \<open>A start that succeeds\<close>

text \<open>
  A data directory that holds the documents \<open>M\<close>: what an engine in order left there, with no shard open any more.
  A directory with nothing below it holds none.
\<close>

definition data_dir :: "'b view \<Rightarrow> 'b world \<Rightarrow> path \<Rightarrow> (DocID \<rightharpoonup> doc_data \<times> bytes) \<Rightarrow> bool" where
  "data_dir V w0 dir M \<longleftrightarrow> (\<exists>w e. eng_ok V w e \<and> disk_ok w e \<and> kept_world V w e w0 \<and> epath e = dir \<and>
     IndexDuration e = IndexDuration (NewEngine dir) \<and> eng_docs V w e = M)"

lemma data_dir_empty:
  assumes "dir \<noteq> []" and "distinct (map fst (nodes w))" and "dirs_ok (nodes w) dir" and "\<forall>q. strict_prefix dir q \<longrightarrow> map_of (nodes w) q = None"
  shows "data_dir V w dir Map.empty"
proof -
  let ?e = "NewEngine dir"
  have e: "epath ?e = dir" "indexes ?e = []" by (simp_all add: NewEngine_def)
  have "eng_shape ?e" by (simp add: eng_shape_def NewEngine_def ns_per_min_def ns_per_sec_def)
  moreover have "eng_files w ?e" unfolding eng_files_def e using assms(2-4) by (metis)
  moreover have "eng_docs V w ?e = Map.empty" by (simp add: eng_docs_def indexForReferenceTime_def e fun_eq_iff)
  ultimately show ?thesis
    unfolding data_dir_def using assms(1,2) e
    by (intro exI [of _ w] exI [of _ ?e]) (simp add: eng_ok_def disk_ok_def kept_world_def NewEngine_def ns_per_sec_def)
qed

text \<open>The network, and parameters that make sense on the machine.\<close>

definition network_up :: "('b, 'c, 'k, 'a) machine \<Rightarrow> bool" where
  "network_up m \<longleftrightarrow> (\<forall>bs a t. a \<notin> set bs \<longrightarrow> (\<exists>ln. m_Listen m bs a = Inr ln) \<and> (\<exists>ln. m_TLSListen m bs t a = Inr ln)) \<and>
     (\<forall>a. \<exists>ad. m_ResolveUDP m a = Inr ad \<and> m_ListenUDP m ad = None)"

definition config_ok :: "('b, 'c, 'k, 'a) machine \<Rightarrow> Config \<Rightarrow> path \<Rightarrow> duration \<Rightarrow> bool" where
  "config_ok m c dir r \<longleftrightarrow> m_Abs m (f_datadir c) = Inr dir \<and> ParseDuration (m_frac m) (f_retentionPeriod c) = Inr r \<and>
     0 < f_numShards c \<and> f_numShards c \<le> maxShardCount \<and> 0 \<le> f_batchSize c \<and> 0 \<le> f_indexMaxPending c \<and>
     distinct (given [f_diagIface c, f_queryIface c, f_queryIfaceHttp c, f_tcpIface c]) \<and> ValidFormat (f_inputFormat c) \<and>
     (\<exists>tls. tls_of m c = Inr tls) \<and> (\<forall>f\<in>set (given [f_cpuProfile c, f_memProfile c]). m_Create m f = None)"

lemma openEngine_ok:
  assumes "no_faults (m_env m)" and "bleve_reopens (bleve (m_env m)) V" and "data_dir V (p_world p) dir M"
    and "0 < n" and "n \<le> maxShardCount"
  shows "\<exists>w e. openEngine m dir n r p = Inr (p\<lparr>p_world := w, p_engine := Some e\<rparr>) \<and>
    Engine_Open (m_env m) (p_world p) ((NewEngine dir)\<lparr>NumShards := n, RetentionPeriod := r\<rparr>) = (w, e, None) \<and>
    isOpen e \<and> eng_ok V w e \<and> disk_ok w e \<and> eng_docs V w e = M \<and> epath e = dir \<and>
    IndexDuration e = IndexDuration (NewEngine dir) \<and> RetentionPeriod e = r \<and> NumShards e = n"
proof -
  let ?e0 = "(NewEngine dir)\<lparr>NumShards := n, RetentionPeriod := r\<rparr>"
  from assms(3) obtain w e where e: "eng_ok V w e" "disk_ok w e" "kept_world V w e (p_world p)" "epath e = dir"
    "IndexDuration e = IndexDuration (NewEngine dir)" "eng_docs V w e = M" unfolding data_dir_def by blast
  have "epath ?e0 = epath e" "IndexDuration ?e0 = IndexDuration e" "0 < NumShards ?e0" "NumShards ?e0 \<le> maxShardCount" "indexes ?e0 = []"
    using e(4,5) assms(4,5) by (simp_all add: NewEngine_def)
  from Engine_Open_ok [OF assms(1,2) e(1-3) this] obtain w' e' where
    "Engine_Open (m_env m) (p_world p) ?e0 = (w', e', None)" "isOpen e'" "eng_ok V w' e'" "disk_ok w' e'" "eng_docs V w' e' = M"
    "RetentionPeriod e' = r" "epath e' = dir" "IndexDuration e' = IndexDuration (NewEngine dir)" "NumShards e' = n"
    unfolding e(4-6) by auto
  then show ?thesis by (intro exI [of _ w'] exI [of _ e']) (simp add: openEngine_Inr)
qed

lemma start_engine_ok:
  assumes "no_faults (m_env m)" and "bleve_reopens (bleve (m_env m)) V" and "network_up m" and "config_ok m c dir r"
    and "data_dir V (p_world p) dir M" and "p_bound p = given [f_diagIface c]"
  shows "\<exists>p'. start_engine m c dir r p = Inr p'"
proof -
  have n: "0 < f_numShards c" "f_numShards c \<le> maxShardCount" "0 \<le> f_batchSize c" "0 \<le> f_indexMaxPending c"
    using assms(4) unfolding config_ok_def by blast+
  from openEngine_ok [OF assms(1,2,5) n(1,2), of r] obtain p1 where
    p1: "openEngine m dir (f_numShards c) r p = Inr p1" "p_bound p1 = given [f_diagIface c]"
    using assms(6) by (elim exE conjE) (rule that, simp, simp)
  have listen: "\<exists>ln. m_Listen m bs a = Inr ln" if "a \<notin> set bs" for bs a using assms(3) that unfolding network_up_def by blast
  have d: "f_queryIface c \<noteq> [] \<Longrightarrow> f_queryIface c \<notin> set (given [f_diagIface c])"
    "f_queryIfaceHttp c \<noteq> [] \<Longrightarrow> f_queryIfaceHttp c \<notin> set (given [f_diagIface c, f_queryIface c])"
    using assms(4) by (auto simp: config_ok_def split: if_splits)
  obtain p2 where p2: "requested (f_queryIface c) (startQueryServer m (f_queryIface c) (the (p_engine p1))) p1 = Inr p2"
    "p_bound p2 = given [f_diagIface c, f_queryIface c]"
    using listen [OF d(1)] p1(2) by (cases "f_queryIface c = []") (auto simp: requested_def startQueryServer_Inr)
  obtain p3 where p3: "requested (f_queryIfaceHttp c) (startHTTPQueryServer m (f_queryIfaceHttp c) (the (p_engine p2))) p2 = Inr p3"
    using listen [OF d(2)] p2(2) by (cases "f_queryIfaceHttp c = []") (auto simp: requested_def startHTTPQueryServer_Inr)
  have "startBatcher (the (p_engine p3)) (f_batchSize c) (f_batchTimeout c) (f_indexMaxPending c) p3 \<noteq> Inl x" for x
    using n(3,4) by (simp add: startBatcher_def)
  with p1(1) p2(1) p3 show ?thesis by (cases "startBatcher (the (p_engine p3)) (f_batchSize c) (f_batchTimeout c) (f_indexMaxPending c) p3") (auto simp: start_engine_def)
qed

lemma start_input_ok:
  assumes "network_up m" and "config_ok m c dir r"
    and "p_bound p = given [f_diagIface c, f_queryIface c, f_queryIfaceHttp c]"
  shows "\<exists>p'. start_input m c p = Inr p'"
proof -
  obtain tls where tls: "tls_of m c = Inr tls" and fmt: "ValidFormat (f_inputFormat c)"
    and cr: "\<forall>f\<in>set (given [f_cpuProfile c, f_memProfile c]). m_Create m f = None"
    using assms(2) unfolding config_ok_def by blast
  have d: "f_tcpIface c \<noteq> [] \<Longrightarrow> f_tcpIface c \<notin> set (p_bound p)"
    using assms(2,3) by (auto simp: config_ok_def split: if_splits)
  have "\<exists>p1. requested (f_tcpIface c) (start_tcp m c) p = Inr p1"
  proof (cases "f_tcpIface c = []")
    case False
    then have "\<exists>ln. (case tls of None \<Rightarrow> m_Listen m (p_bound p) (f_tcpIface c)
        | Some t \<Rightarrow> m_TLSListen m (p_bound p) t (f_tcpIface c)) = Inr ln"
      using assms(1) d by (cases tls) (simp_all add: network_up_def)
    with False fmt tls show ?thesis by (simp add: requested_def start_tcp_def startTCPCollector_Inr)
  qed (simp add: requested_def)
  then obtain p1 where p1: "requested (f_tcpIface c) (start_tcp m c) p = Inr p1" by blast
  obtain ad where ad: "m_ResolveUDP m (f_udpIface c) = Inr ad" "m_ListenUDP m ad = None"
    using assms(1) unfolding network_up_def by blast
  obtain u where u: "udp_start (f_inputFormat c) = Some u" using fmt by (auto simp: udp_start_def ValidFormat_iff)
  obtain p2 where p2: "requested (f_udpIface c) (startUDPCollector m (f_udpIface c) (f_inputFormat c)) p1 = Inr p2"
    using ad fmt u by (cases "f_udpIface c = []") (auto simp: requested_def startUDPCollector_Inr)
  have "f_cpuProfile c = [] \<or> m_Create m (f_cpuProfile c) = None" "f_memProfile c = [] \<or> m_Create m (f_memProfile c) = None"
    using cr by (auto split: if_splits)
  then have "\<exists>p'. startProfile m (f_cpuProfile c) (f_memProfile c) p2 = Inr p'" unfolding startProfile_Inr by blast
  then show ?thesis using p1 p2 by (auto simp: start_input_def)
qed

text \<open>What the process consists of, in terms of the parameters.\<close>

definition as_configured :: "('b, 'c, 'k, 'a) machine \<Rightarrow> Config \<Rightarrow> ('b, 'c, 'k, 'a) process \<Rightarrow> bool" where
  "as_configured m c p \<longleftrightarrow>
     map_option (\<lambda>s. svc_addr s) (p_diag p) = wanted (f_diagIface c) \<and>
     map_option srv_iface (p_query p) = wanted (f_queryIface c) \<and>
     map_option http_iface (p_http p) = wanted (f_queryIfaceHttp c) \<and>
     tcp_as_asked m c (p_tcp p) \<and> udp_as_asked m c (p_udp p) \<and>
     p_bound p = given [f_diagIface c, f_queryIface c, f_queryIfaceHttp c, f_tcpIface c] \<and>
     p_prof p = (wanted (f_cpuProfile c), wanted (f_memProfile c)) \<and>
     p_batcher p = Some (NewBatcher (p_world p, the (p_engine p)) (nat (f_batchSize c)) (milliseconds (f_batchTimeout c)) (nat (f_indexMaxPending c))) \<and>
     0 \<le> f_batchSize c \<and> 0 \<le> f_indexMaxPending c"

lemma start_Inr:
  assumes "start m c w = Inr p"
  shows "\<exists>dir r e. m_Abs m (f_datadir c) = Inr dir \<and> ParseDuration (m_frac m) (f_retentionPeriod c) = Inr r \<and>
    Engine_Open (m_env m) w ((NewEngine dir)\<lparr>NumShards := f_numShards c, RetentionPeriod := r\<rparr>) = (p_world p, e, None) \<and>
    p_engine p = Some e \<and> as_configured m c p"
proof -
  from assms obtain dir r p1 p2 where c: "m_Abs m (f_datadir c) = Inr dir" "ParseDuration (m_frac m) (f_retentionPeriod c) = Inr r"
    and 1: "requested (f_diagIface c) (startDiagServer m (f_diagIface c)) (new_process w) = Inr p1"
    and 2: "start_engine m c dir r p1 = Inr p2" and 3: "start_input m c p2 = Inr p"
    unfolding start_def by (auto split: sum.splits)
  have p1: "p_world p1 = w" "p_bound p1 = given [f_diagIface c]" "map_option (\<lambda>s. svc_addr s) (p_diag p1) = wanted (f_diagIface c)"
    "p_query p1 = None" "p_http p1 = None" "p_tcp p1 = None" "p_udp p1 = None" "p_prof p1 = (None, None)"
    using 1 by (cases "f_diagIface c = []"; auto simp: requested_Inr startDiagServer_Inr new_process_def NewService_def wanted_def)+
  from start_engine_Inr [OF 2 p1(4,5)] obtain w' e q h where
    e: "Engine_Open (m_env m) w ((NewEngine dir)\<lparr>NumShards := f_numShards c, RetentionPeriod := r\<rparr>) = (w', e, None)"
      "p2 = p1\<lparr>p_world := w', p_engine := Some e, p_query := q, p_http := h,
        p_batcher := Some (NewBatcher (w', e) (nat (f_batchSize c)) (milliseconds (f_batchTimeout c)) (nat (f_indexMaxPending c))),
        p_bound := p_bound p1 @ given [f_queryIface c, f_queryIfaceHttp c]\<rparr>"
      "0 \<le> f_batchSize c" "0 \<le> f_indexMaxPending c" "map_option srv_iface q = wanted (f_queryIface c)"
      "map_option http_iface h = wanted (f_queryIfaceHttp c)" unfolding p1(1) by blast
  have "p_tcp p2 = None" "p_udp p2 = None" "p_prof p2 = (None, None)" using p1(6-8) by (simp_all add: e(2))
  from start_input_Inr [OF 3 this] obtain t u where
    p: "p = p2\<lparr>p_tcp := t, p_udp := u, p_prof := (wanted (f_cpuProfile c), wanted (f_memProfile c)),
        p_bound := p_bound p2 @ given [f_tcpIface c]\<rparr>" "tcp_as_asked m c t" "udp_as_asked m c u" by blast
  have "as_configured m c p"
    unfolding as_configured_def p(1) e(2) using p1 p(2,3) e(3-6) by simp
  moreover have "p_world p = w'" "p_engine p = Some e" by (simp_all add: p(1) e(2))
  ultimately show ?thesis using c e(1) by blast
qed

lemma start_ok:
  assumes "no_faults (m_env m)" and "bleve_reopens (bleve (m_env m)) V" and "network_up m" and "config_ok m c dir r"
    and "data_dir V w dir M"
  shows "\<exists>p e. start m c w = Inr p \<and> p_engine p = Some e \<and> as_configured m c p \<and> isOpen e \<and> eng_ok V (p_world p) e \<and>
    disk_ok (p_world p) e \<and> eng_docs V (p_world p) e = M \<and> epath e = dir \<and>
    IndexDuration e = IndexDuration (NewEngine dir) \<and> RetentionPeriod e = r \<and> NumShards e = f_numShards c"
proof -
  have c: "m_Abs m (f_datadir c) = Inr dir" "ParseDuration (m_frac m) (f_retentionPeriod c) = Inr r"
    "0 < f_numShards c" "f_numShards c \<le> maxShardCount" using assms(4) unfolding config_ok_def by blast+
  have "\<exists>ln. m_Listen m [] (f_diagIface c) = Inr ln" using assms(3) unfolding network_up_def by simp
  then obtain p1 where p1: "requested (f_diagIface c) (startDiagServer m (f_diagIface c)) (new_process w) = Inr p1"
    "p_world p1 = w" "p_bound p1 = given [f_diagIface c]" "p_query p1 = None" "p_http p1 = None"
    by (cases "f_diagIface c = []") (auto simp: requested_def startDiagServer_Inr new_process_def)
  from start_engine_ok [OF assms(1-4) _ p1(3), of M] assms(5) p1(2) obtain p2 where 2: "start_engine m c dir r p1 = Inr p2" by auto
  have "p_bound p2 = given [f_diagIface c, f_queryIface c, f_queryIfaceHttp c]"
    using start_engine_Inr [OF 2 p1(4,5)] p1(3) by auto
  from start_input_ok [OF assms(3,4) this] obtain p where "start_input m c p2 = Inr p" by blast
  with p1(1) 2 c have st: "start m c w = Inr p" by (simp add: start_def)
  from start_Inr [OF st] c obtain e where
    e: "Engine_Open (m_env m) w ((NewEngine dir)\<lparr>NumShards := f_numShards c, RetentionPeriod := r\<rparr>) = (p_world p, e, None)"
      "p_engine p = Some e" "as_configured m c p" by auto
  have w: "p_world (new_process w) = w" by (simp add: new_process_def)
  from openEngine_ok [OF assms(1,2), where p = "new_process w", unfolded w, OF assms(5) c(3,4), of r] e(1)
  have "isOpen e" "eng_ok V (p_world p) e" "disk_ok (p_world p) e" "eng_docs V (p_world p) e = M" "epath e = dir"
    "IndexDuration e = IndexDuration (NewEngine dir)" "RetentionPeriod e = r" "NumShards e = f_numShards c" by auto
  with st e(2,3) show ?thesis by blast
qed

text \<open>
  A machine: the search library of \<open>Storage\<close>, a network on which every address is free until it is used, and no
  files of TLS.
\<close>

definition mem_machine :: "(mem_index, unit, unit, bytes) machine" where
  "mem_machine =
     \<lparr>m_env = mem_env, m_frac = (\<lambda>_ _. 0), m_Abs = (\<lambda>s. if s = [] then Inl ''getwd'' else Inr [s]),
      m_Listen = (\<lambda>bs a. if a \<in> set bs then Inl ''address already in use'' else Inr a),
      m_TLSListen = (\<lambda>bs _ a. if a \<in> set bs then Inl ''address already in use'' else Inr a),
      m_ResolveUDP = Inr, m_ListenUDP = (\<lambda>_. None), m_ReadFile = (\<lambda>_. Inl ''no such file or directory''),
      m_ParseCertificate = (\<lambda>_. Inl ''asn1''), m_ParseKey = (\<lambda>_. Inl ''asn1''), m_Create = (\<lambda>_. None)\<rparr>"

abbreviation default_dir :: path where "default_dir \<equiv> [''/var/opt/ekanite'']"

lemma mem_machine_up: "network_up mem_machine" "m_env mem_machine = mem_env"
  by (simp_all add: network_up_def mem_machine_def)

lemma mem_dir_empty: "data_dir mem_view mem_start default_dir Map.empty"
  by (rule data_dir_empty) (simp_all add: mem_start_def dirs_ok_def)

lemma default_config_ok: "config_ok mem_machine default_config default_dir (168 * 3600 * ns_per_sec)"
proof -
  have "ParseDuration frac ''168h'' = Inr (168 * 3600 * ns_per_sec)" for frac
  proof -
    have "print_term (168, ''h'') = ''168h''" by code_simp
    then show ?thesis
      using ParseDuration_terms [of "[(168, ''h'')]" frac False] by (simp add: term_ns_def unit_of_def ns_per_sec_def max_int_def)
  qed
  then show ?thesis
    by (simp add: config_ok_def default_config_def mem_machine_def tls_of_def ValidFormat_def supportedFormats_def)
qed

section \<open>Properties\<close>

text \<open>
  C9. What a successful start has started. If \<open>main\<close> gets to waiting for signals, then whatever the machine: the data
  directory has an absolute path, the retention period is a duration, and the engine opened on that directory has it, and the number
  of shards asked for; the batcher works for that engine with the batch size and the channel size asked for, both not
  negative, and with the batch timeout asked for, in nanoseconds and wrapped to 64 bits; the diagnostic server, the two query servers and the collectors run on exactly the addresses asked for, and no others; and
  the TCP collector is secure, requiring client certificates, exactly if both files of TLS are given.
\<close>

theorem daemon_started:
  assumes "start m c w = Inr p"
  shows "\<exists>dir r e. m_Abs m (f_datadir c) = Inr dir \<and> ParseDuration (m_frac m) (f_retentionPeriod c) = Inr r \<and>
    Engine_Open (m_env m) w ((NewEngine dir)\<lparr>NumShards := f_numShards c, RetentionPeriod := r\<rparr>) = (p_world p, e, None) \<and>
    p_engine p = Some e \<and> 0 \<le> f_batchSize c \<and> 0 \<le> f_indexMaxPending c \<and>
    p_batcher p = Some (NewBatcher (p_world p, e) (nat (f_batchSize c)) (sint (word_of_int (f_batchTimeout c * 1000000) :: 64 word))
      (nat (f_indexMaxPending c))) \<and>
    map_option svc_addr (p_diag p) = wanted (f_diagIface c) \<and> map_option srv_iface (p_query p) = wanted (f_queryIface c) \<and>
    map_option http_iface (p_http p) = wanted (f_queryIfaceHttp c) \<and>
    tcp_as_asked m c (p_tcp p) \<and> udp_as_asked m c (p_udp p) \<and>
    p_bound p = given [f_diagIface c, f_queryIface c, f_queryIfaceHttp c, f_tcpIface c]"
  using start_Inr [OF assms] by (elim exE conjE) (auto simp: as_configured_def milliseconds_def)

theorem daemon_started_witness:
  "\<exists>p. start mem_machine default_config mem_start = Inr p \<and>
    map_option srv_iface (p_query p) = Some ''localhost:9950'' \<and> p_udp p = None \<and>
    p_bound p = [''localhost:9951'', ''localhost:9950'', ''localhost:8080'', ''localhost:5514'']"
proof -
  obtain p where p: "start mem_machine default_config mem_start = Inr p"
    using start_ok [OF _ _ mem_machine_up(1) default_config_ok mem_dir_empty] mem_no_faults mem_reopens
    unfolding mem_machine_up by blast
  from daemon_started [OF p] have "map_option srv_iface (p_query p) = wanted (f_queryIface default_config)"
    "udp_as_asked mem_machine default_config (p_udp p)"
    "p_bound p = given [f_diagIface default_config, f_queryIface default_config, f_queryIfaceHttp default_config, f_tcpIface default_config]"
    by blast+
  then have "map_option srv_iface (p_query p) = Some ''localhost:9950''" "p_udp p = None"
    "p_bound p = [''localhost:9951'', ''localhost:9950'', ''localhost:8080'', ''localhost:5514'']"
    by (auto simp: default_config_def wanted_def udp_as_asked_def split: option.splits)
  with p show ?thesis by (intro exI conjI)
qed

section \<open>What the start does not check\<close>

text \<open>
  The help text of \<open>-retention\<close> says that the minimum is 24 hours. Any duration is accepted, down to negative ones, and
  becomes the retention period of the engine.
\<close>

theorem retention_unchecked:
  assumes "no_faults (m_env m)" and "bleve_reopens (bleve (m_env m)) V" and "network_up m" and "config_ok m c dir r"
    and "data_dir V w dir M" and "ts \<noteq> []" and "\<forall>t\<in>set ts. unit_of (snd t) \<noteq> None" and "sum_list (map term_ns ts) \<le> max_int"
  shows "\<exists>p e. start m (c\<lparr>f_retentionPeriod := (if neg then ''-'' else []) @ concat (map print_term ts)\<rparr>) w = Inr p \<and>
    p_engine p = Some e \<and> RetentionPeriod e = (if neg then -1 else 1) * sum_list (map term_ns ts)"
proof -
  let ?s = "(if neg then ''-'' else []) @ concat (map print_term ts)" and ?r = "(if neg then -1 else 1) * sum_list (map term_ns ts)"
  have "ParseDuration (m_frac m) ?s = Inr ?r" using ParseDuration_terms [OF assms(6,7), of "m_frac m" neg] assms(8) by simp
  moreover have "tls_of m (c\<lparr>f_retentionPeriod := ?s\<rparr>) = tls_of m c" by (simp add: tls_of_def)
  ultimately have "config_ok m (c\<lparr>f_retentionPeriod := ?s\<rparr>) dir ?r"
    using assms(4) by (simp add: config_ok_def)
  from start_ok [OF assms(1-3) this assms(5)] show ?thesis by blast
qed

text \<open>
  \<open>-tlspem\<close> is described as the path of a PEM file, but its content goes to \<open>x509.ParseCertificate\<close>, which wants the ASN.1 data
  themselves. If that rejects a text that starts as a PEM file does, the daemon never starts with one.
\<close>

theorem pem_file_fatal:
  assumes "\<forall>b. has_prefix b ''-----BEGIN'' \<longrightarrow> (\<exists>err. m_ParseCertificate m b = Inl err)"
    and "m_ReadFile m (f_caPemPath c) = Inr pem" and "has_prefix pem ''-----BEGIN''"
    and "f_tcpIface c \<noteq> []" and "f_caPemPath c \<noteq> []" and "f_caKeyPath c \<noteq> []"
  shows "start m c w \<noteq> Inr p"
proof
  assume "start m c w = Inr p"
  from start_Inr [OF this] have "tcp_as_asked m c (p_tcp p)" by (auto simp: as_configured_def)
  then obtain cfg where "newTLSConfig m (f_caPemPath c) (f_caKeyPath c) = Inr cfg"
    using assms(4-6) by (auto simp: tcp_as_asked_def split: option.splits)
  moreover obtain err where "m_ParseCertificate m pem = Inl err" using assms(1,3) by blast
  ultimately show False using assms(2) by (simp add: newTLSConfig_def)
qed

text \<open>Nothing is ever logged about batches that could not be indexed.\<close>

theorem indexing_errors_not_logged:
  assumes "reachable index (NewBatcher x n dur mx) b"
  shows "drainLog msg (errChan b) = []"
proof -
  have "errChan b = replicate (length (accepted b)) None"
    using reachable_conserved [OF assms new_conserved] by (simp add: conserved_def)
  then show ?thesis by (simp add: drainLog_def map_filter_def)
qed

text \<open>
  \<open>-numshards=0\<close> is accepted too. The first event that needs an index is then routed among no shards, and the process
  panics.
\<close>

theorem zero_shards_panic:
  assumes "NumShards e = 0" and "ReferenceTime ev = Some (ev1, t)" and "indexForReferenceTime e t = None"
  shows "Engine_Index env w e [ev] = None"
proof (cases "createIndexForReferenceTime env w e t")
  case None
  with assms(2,3) show ?thesis by (simp add: Engine_Index_def split: option.splits)
next
  case (Some x)
  then obtain w1 e1 r where x: "createIndexForReferenceTime env w e t = Some (w1, e1, r)" by (metis prod_cases3)
  show ?thesis
  proof (cases r)
    case (Inl err)
    with x assms(2,3) show ?thesis by (simp add: Engine_Index_def split: option.splits)
  next
    case (Inr i)
    have "Shards i = []"
      using x assms(1) Inr by (auto simp: createIndexForReferenceTime_def createIndex_def NewIndex_def Let_def
          split: if_splits option.splits prod.splits sum.splits)
    then have "Index_Index env w1 i [doc] = None" for doc
      by (simp add: Index_Index_def Index_Shard_def)
    with x Inr assms(2,3) show ?thesis by (auto simp: Engine_Index_def add_to_def split: option.splits)
  qed
qed

end
