(* ===== verification/Daemon_Run.thy ===== *)
theory Daemon_Run
  imports Daemon
begin

text \<open>
  The running daemon: the collectors, the batcher on the engine and the periodic retention enforcement, as one step
  relation that interleaves their goroutines, from what \<open>main\<close> has started to the signal that ends it. Shows, for every
  interleaving, that no event is lost on its way into the engine, that the engine drops nothing before its
  retention period is over, and that what it holds when the process ends between two steps is what the next one starts with.
\<close>

section \<open>The steps\<close>

text \<open>
  \<open>r_clock\<close> is the time at the last retention check, or at the start. Queries change nothing; a search is taken to
  see one state of the engine (\<open>Search_Race\<close> has what happens otherwise). \<open>Engine.Index\<close> is one step: it runs under
  the engine's lock except where it creates an index, and that retention comes in between there is left out.
\<close>

record 'b running =
  r_in :: system
  r_bat :: "('b world \<times> Engine) Batcher"
  r_clock :: gtime

text \<open>
  A send of a collector on the batcher's channel is one step of both. \<open>Retain\<close> is a turn of the loop of
  \<open>runRetentionEnforcement\<close> (\<open>engine.go\<close>) after the timer has fired: the clock is read once for each index.
\<close>

inductive daemon_step :: "'b env \<Rightarrow> 'b running \<Rightarrow> 'b running \<Rightarrow> bool" for env where
  Collect: "\<lbrakk>sys_step (r_in d) s; out (glob s) = out (glob (r_in d))\<rbrakk> \<Longrightarrow> daemon_step env d (d\<lparr>r_in := s\<rparr>)"
| Send: "\<lbrakk>sys_step (r_in d) s; out (glob s) = out (glob (r_in d)) @ [ev];
    step (engine_indexer env) (r_bat d) b; sent b = sent (r_bat d) @ [ev]\<rbrakk> \<Longrightarrow> daemon_step env d (d\<lparr>r_in := s, r_bat := b\<rparr>)"
| Batch: "run (engine_indexer env) (r_bat d) b \<Longrightarrow> daemon_step env d (d\<lparr>r_bat := b\<rparr>)"
| Retain: "\<lbrakk>ixs (r_bat d) = (w, e); length now = length (indexes e); sorted (r_clock d # now @ [t]);
    enforceRetention env w e now = Some (w', e')\<rbrakk> \<Longrightarrow>
    daemon_step env d (d\<lparr>r_bat := (r_bat d)\<lparr>ixs := (w', e')\<rparr>, r_clock := t\<rparr>)"

text \<open>The daemon after its start at time \<open>t\<close>, with the first sequence number \<open>n\<close>.\<close>

definition boot :: "64 word \<Rightarrow> gtime \<Rightarrow> ('b, 'c, 'k, 'a) process \<Rightarrow> 'b running" where
  "boot n t p = \<lparr>r_in = sys_init n, r_bat = the (p_batcher p), r_clock = t\<rparr>"

section \<open>The engine with its files\<close>

text \<open>An engine in order, on disk, with the configuration of \<open>e0\<close>: what indexing and retention keep.\<close>

definition durable :: "'b env \<Rightarrow> 'b view \<Rightarrow> Engine \<Rightarrow> 'b world \<times> Engine \<Rightarrow> bool" where
  "durable env V e0 x \<longleftrightarrow> engine_up env V x \<and> disk_ok (fst x) (snd x) \<and> same_config e0 (snd x)"

lemma same_config_trans: "same_config e e1 \<Longrightarrow> same_config e1 e2 \<Longrightarrow> same_config e e2"
  by (cases e, cases e1, cases e2) (simp add: same_config_def)

lemma durable_accepts:
  assumes "durable env V e0 x" and "\<forall>ev\<in>set evs. event_ok ev"
  shows "\<exists>y. engine_indexer env x evs = Some (y, None) \<and> durable env V e0 y"
proof -
  have x: "no_faults env" "bleve_works (bleve env) V" "eng_ok V (fst x) (snd x)" "disk_ok (fst x) (snd x)" "same_config e0 (snd x)"
    using assms(1) by (simp_all add: durable_def engine_up_def)
  from Engine_Index_ok [OF x(1-3) assms(2)] obtain w' e' where
    i: "Engine_Index env (fst x) (snd x) evs = Some (w', e', None)" "eng_ok V w' e'" by blast
  have "disk_ok w' e'" by (rule Engine_Index_disk [OF x(1-4) assms(2) i(1)])
  moreover have "same_config e0 e'" using x(5) Engine_Index_config [OF i(1)] by (rule same_config_trans)
  ultimately show ?thesis using x(1,2) i by (simp add: engine_indexer_def durable_def engine_up_def)
qed

interpretation du: event_indexer "engine_indexer env" "durable env V e0" event_ok "engine_map V" event_entry
  for env V e0
proof
  show "\<exists>y. engine_indexer env x evs = Some (y, None) \<and> durable env V e0 y"
    if "durable env V e0 x" "\<forall>ev\<in>set evs. event_ok ev" for x evs
    using that by (rule durable_accepts)
  show "engine_map V y = engine_map V x ++ event_entry evs"
    if "durable env V e0 x" "\<forall>ev\<in>set evs. event_ok ev" "engine_indexer env x evs = Some (y, None)" for x evs y
    using en.adds that unfolding durable_def by blast
qed (rule event_entry_append, rule event_entry_Nil)

lemma durable_retains:
  assumes "durable env V e0 (w, e)" and "length now = length (indexes e)" and "enforceRetention env w e now = Some (w', e')"
  shows "durable env V e0 (w', e')" and "engine_map V (w', e') \<subseteq>\<^sub>m engine_map V (w, e)"
    and "engine_map V (w, e) x = Some y \<Longrightarrow> engine_map V (w', e') x = Some y \<or> (\<exists>t\<in>set now. id_time x + RetentionPeriod e0 < t)"
proof -
  have e: "no_faults env" "bleve_works (bleve env) V" "eng_ok V w e" "disk_ok w e" "same_config e0 e"
    using assms(1) by (simp_all add: durable_def engine_up_def)
  from enforceRetention_ok [OF e(1,3) assms(2)] assms(3) have "eng_ok V w' e'" by auto
  with e retention_disk [OF e(1,3,4) assms(2,3)] same_config_trans [OF e(5) retention_config [OF assms(3)]]
  show "durable env V e0 (w', e')" by (simp add: durable_def engine_up_def)
  have "RetentionPeriod e = RetentionPeriod e0" by (rule same_configD [OF e(5)])
  with retention_docs [OF e(1,3) assms(2,3)]
  show "engine_map V (w', e') \<subseteq>\<^sub>m engine_map V (w, e)"
    and "engine_map V (w, e) x = Some y \<Longrightarrow> engine_map V (w', e') x = Some y \<or> (\<exists>t\<in>set now. id_time x + RetentionPeriod e0 < t)"
    by (simp_all add: engine_map_def)
qed

section \<open>The invariant\<close>

text \<open>A map that is \<open>whole\<close> without some of the keys for which \<open>old\<close> holds.\<close>

definition all_but :: "('k \<Rightarrow> bool) \<Rightarrow> ('k \<rightharpoonup> 'v) \<Rightarrow> ('k \<rightharpoonup> 'v) \<Rightarrow> bool" where
  "all_but old whole held \<longleftrightarrow> (\<forall>x. held x = whole x \<or> held x = None \<and> old x)"

lemma all_but_add: "all_but old t h \<Longrightarrow> all_but old (t ++ e) (h ++ e)"
  by (auto simp: all_but_def map_add_def split: option.splits)

lemma all_but_drop:
  assumes "all_but old t h" and "h' \<subseteq>\<^sub>m h" and "\<And>x y. h x = Some y \<Longrightarrow> h' x = Some y \<or> old' x" and "\<And>x. old x \<Longrightarrow> old' x"
  shows "all_but old' t h'"
  unfolding all_but_def
proof
  fix x
  show "h' x = t x \<or> h' x = None \<and> old' x"
  proof (cases "h' x")
    case (Some y)
    then have "h x = Some y" using assms(2) by (metis domI map_le_def)
    with Some assms(1) show ?thesis by (metis all_but_def option.distinct(1))
  next
    case None
    with assms(1,3,4) show ?thesis by (cases "h x") (metis all_but_def option.distinct(1))+
  qed
qed

text \<open>
  \<open>retained V M r d\<close>: of the documents \<open>M\<close> and those of the accepted events, later ones before earlier ones, the engine
  holds all but some that are older than the retention period \<open>r\<close>, and nothing else.
\<close>

definition retained :: "'b view \<Rightarrow> (DocID \<rightharpoonup> doc_data \<times> bytes) \<Rightarrow> duration \<Rightarrow> 'b running \<Rightarrow> bool" where
  "retained V M r d \<longleftrightarrow>
     all_but (\<lambda>x. id_time x + r < r_clock d) (M ++ event_entry (concat (accepted (r_bat d)))) (engine_map V (ixs (r_bat d)))"

definition daemon_inv :: "'b env \<Rightarrow> 'b view \<Rightarrow> 64 word \<Rightarrow> Engine \<Rightarrow> (DocID \<rightharpoonup> doc_data \<times> bytes) \<Rightarrow> 'b running \<Rightarrow> bool" where
  "daemon_inv env V n e0 M d \<longleftrightarrow> sys_step\<^sup>*\<^sup>* (sys_init n) (r_in d) \<and> sent (r_bat d) = out (glob (r_in d)) \<and>
     healthy (durable env V e0) (r_bat d) \<and> retained V M (RetentionPeriod e0) d"

lemma retained_grown:
  assumes "grown (engine_map V) event_entry (r_bat d) (r_bat d')" and "retained V M r d" and "r_clock d' = r_clock d"
  shows "retained V M r d'"
proof -
  obtain evs where "concat (accepted (r_bat d')) = concat (accepted (r_bat d)) @ evs"
    "engine_map V (ixs (r_bat d')) = engine_map V (ixs (r_bat d)) ++ event_entry evs" using assms(1) by (auto simp: grown_def)
  with all_but_add [OF assms(2) [unfolded retained_def], of "event_entry evs"] assms(3) show ?thesis
    by (simp add: retained_def event_entry_append)
qed

lemma daemon_step_batcher:
  assumes "step (engine_indexer env) (r_bat d) b" and "healthy (durable env V e0) (r_bat d)" and "retained V M (RetentionPeriod e0) d"
    and "\<forall>ev\<in>set (sent b). event_ok ev" and "r_bat d' = b" and "r_clock d' = r_clock d"
  shows "healthy (durable env V e0) b" and "retained V M (RetentionPeriod e0) d'"
proof -
  show "healthy (durable env V e0) b" by (rule du.step_healthy [OF assms(1,2,4)])
  from du.step_grown [OF assms(1,2,4)] assms(5) show "retained V M (RetentionPeriod e0) d'"
    by (intro retained_grown [OF _ assms(3,6)]) simp
qed

text \<open>The steps keep the invariant, as long as all events sent are good ones.\<close>

lemma daemon_step_inv:
  assumes "daemon_step env d d'" and "daemon_inv env V n e0 M d" and "\<forall>ev\<in>set (sent (r_bat d')). event_ok ev"
  shows "daemon_inv env V n e0 M d'"
proof -
  have inv: "sys_step\<^sup>*\<^sup>* (sys_init n) (r_in d)" "sent (r_bat d) = out (glob (r_in d))" "healthy (durable env V e0) (r_bat d)"
    "retained V M (RetentionPeriod e0) d" using assms(2) by (simp_all add: daemon_inv_def)
  from assms(1) show ?thesis
  proof (cases rule: daemon_step.cases)
    case (Collect s)
    then show ?thesis using inv by (auto simp: daemon_inv_def retained_def)
  next
    case (Send s ev b)
    then have "\<forall>ev\<in>set (sent b). event_ok ev" using assms(3) by simp
    from daemon_step_batcher [OF Send(4) inv(3,4) this, of d'] Send inv(1,2) show ?thesis
      by (auto simp: daemon_inv_def)
  next
    case (Batch b)
    then have "\<forall>ev\<in>set (sent b). event_ok ev" using assms(3) by simp
    from daemon_step_batcher [OF step.Run [OF Batch(2)] inv(3,4) this, of d'] Batch inv(1,2) run_work [OF Batch(2)] show ?thesis
      by (simp add: daemon_inv_def)
  next
    case (Retain w e now t w' e')
    have du: "durable env V e0 (w, e)" using inv(3) Retain(2) by (simp add: healthy_def)
    note r = durable_retains [OF du Retain(3,5)]
    have clk: "\<forall>t'\<in>set now. t' \<le> t" "r_clock d \<le> t" using Retain(4) by (auto simp: sorted_append)
    have acc: "accepted (r_bat d') = accepted (r_bat d)" using Retain(1) by simp
    have "retained V M (RetentionPeriod e0) d'"
      unfolding retained_def acc
    proof (rule all_but_drop [OF inv(4) [unfolded retained_def]])
      fix x y
      assume "engine_map V (ixs (r_bat d)) x = Some y"
      then show "engine_map V (ixs (r_bat d')) x = Some y \<or> id_time x + RetentionPeriod e0 < r_clock d'"
        using r(3) [of x y] clk(1) Retain(1,2) by fastforce
    qed (use r(2) clk(2) Retain(1,2) in auto)
    then show ?thesis
      using Retain(1) inv r(1) by (auto simp: daemon_inv_def healthy_def conserved_def timed_def)
  qed
qed

lemma daemon_step_sent: "daemon_step env d d' \<Longrightarrow> \<exists>evs. sent (r_bat d') = sent (r_bat d) @ evs"
  by (erule daemon_step.cases) (auto dest: run_work)

lemma daemon_reach_inv:
  assumes "(daemon_step env)\<^sup>*\<^sup>* d0 d" and "daemon_inv env V n e0 M d0" and "\<forall>ev\<in>set (sent (r_bat d)). event_ok ev"
  shows "daemon_inv env V n e0 M d"
  using assms
proof (induction rule: rtranclp_induct)
  case (step d d')
  obtain evs where "sent (r_bat d') = sent (r_bat d) @ evs" using daemon_step_sent [OF step.hyps(2)] by blast
  then have "\<forall>ev\<in>set (sent (r_bat d)). event_ok ev" using step.prems(2) by simp
  with step daemon_step_inv show ?case by blast
qed

text \<open>The collectors' part of the daemon, and that the channel's events are theirs.\<close>

lemma daemon_step_in:
  assumes "daemon_step env d d'"
  shows "sys_step\<^sup>*\<^sup>* (r_in d) (r_in d')" and "sent (r_bat d) = out (glob (r_in d)) \<Longrightarrow> sent (r_bat d') = out (glob (r_in d'))"
  using assms by (cases rule: daemon_step.cases; auto dest: run_work)+

lemma daemon_reach_in:
  "(daemon_step env)\<^sup>*\<^sup>* d0 d \<Longrightarrow> sys_step\<^sup>*\<^sup>* (r_in d0) (r_in d) \<and>
    (sent (r_bat d0) = out (glob (r_in d0)) \<longrightarrow> sent (r_bat d) = out (glob (r_in d)))"
proof (induction rule: rtranclp_induct)
  case (step d d')
  then show ?case using daemon_step_in [OF step.hyps(2)] by (meson rtranclp_trans)
qed simp

text \<open>The daemon that \<open>main\<close> has started, and every state it reaches while the events are of 1970 to 2262.\<close>

definition times_ok :: "Event list \<Rightarrow> bool" where
  "times_ok evs \<longleftrightarrow> (\<forall>ev\<in>set evs. \<forall>ev1 t. ReferenceTime ev = Some (ev1, t) \<longrightarrow> in_range t)"

definition runs_to :: "'b env \<Rightarrow> ('b, 'c, 'k, 'a) process \<Rightarrow> 'b running \<Rightarrow> bool" where
  "runs_to env p d \<longleftrightarrow> (\<exists>n t. (daemon_step env)\<^sup>*\<^sup>* (boot n t p) d) \<and> length (made (glob (r_in d))) < 2 ^ 64 \<and>
     times_ok (out (glob (r_in d)))"

lemma boot_inv:
  assumes "bleve_works (bleve env) V" and "no_faults env" and "as_configured m c p" and "p_engine p = Some e"
    and "eng_ok V (p_world p) e" and "disk_ok (p_world p) e" and "0 < f_batchSize c"
  shows "daemon_inv env V n e (eng_docs V (p_world p) e) (boot n t p)"
proof -
  have b: "r_bat (boot n t p) = NewBatcher (p_world p, e) (nat (f_batchSize c)) (milliseconds (f_batchTimeout c)) (nat (f_indexMaxPending c))"
    using assms(3,4) by (simp add: boot_def as_configured_def)
  have "durable env V e (p_world p, e)"
    using assms(1,2,5,6) by (simp add: durable_def engine_up_def same_config_def)
  then have "healthy (durable env V e) (r_bat (boot n t p))" unfolding b using assms(7) by (intro new_healthy) simp_all
  moreover have "retained V (eng_docs V (p_world p) e) (RetentionPeriod e) (boot n t p)"
    by (simp add: retained_def b NewBatcher_def event_entry_Nil all_but_def engine_map_def)
  ultimately show ?thesis by (simp add: daemon_inv_def b) (simp add: boot_def NewBatcher_def sys_init_def)
qed

lemma runs_inv:
  assumes "runs_to env p d" and "bleve_works (bleve env) V" and "no_faults env" and "as_configured m c p" and "p_engine p = Some e"
    and "eng_ok V (p_world p) e" and "disk_ok (p_world p) e" and "0 < f_batchSize c"
  shows "\<exists>n ds. daemon_inv env V n e (eng_docs V (p_world p) e) d \<and>
    those (map as_document (out (glob (r_in d)))) = Some ds \<and> distinct (map doc_id ds) \<and> (\<forall>ev\<in>set (out (glob (r_in d))). event_ok ev)"
proof -
  from assms(1) obtain n t where r: "(daemon_step env)\<^sup>*\<^sup>* (boot n t p) d" "length (made (glob (r_in d))) < 2 ^ 64"
    "times_ok (out (glob (r_in d)))" unfolding runs_to_def by blast
  have inv: "daemon_inv env V n e (eng_docs V (p_world p) e) (boot n t p)" by (rule boot_inv [OF assms(2-8)])
  have "r_in (boot n t p) = sys_init n" by (simp add: boot_def)
  with daemon_reach_in [OF r(1)] inv have s: "sys_step\<^sup>*\<^sup>* (sys_init n) (r_in d)" "sent (r_bat d) = out (glob (r_in d))"
    by (simp_all add: daemon_inv_def)
  from collected_docs [OF sys_reachable_collected [OF s(1)] r(2) r(3) [unfolded times_ok_def]] obtain ds where
    ds: "those (map as_document (out (glob (r_in d)))) = Some ds" "distinct (map doc_id ds)"
      "\<forall>ev\<in>set (out (glob (r_in d))). event_ok ev" by blast
  with daemon_reach_inv [OF r(1) inv] s(2) show ?thesis by auto
qed

text \<open>All events sent have documents, with different IDs.\<close>

definition events_ok :: "Event list \<Rightarrow> bool" where
  "events_ok evs \<longleftrightarrow> (\<exists>ds. those (map as_document evs) = Some ds \<and> distinct (map doc_id ds)) \<and> (\<forall>ev\<in>set evs. event_ok ev)"

lemma started_runs:
  assumes "no_faults (m_env m)" and "bleve_works (bleve (m_env m)) V" and "bleve_reopens (bleve (m_env m)) V"
    and "network_up m" and "config_ok m c dir r" and "0 < f_batchSize c" and "data_dir V w dir M"
  shows "\<exists>p e. start m c w = Inr p \<and> epath e = dir \<and> IndexDuration e = IndexDuration (NewEngine dir) \<and> RetentionPeriod e = r \<and> isOpen e \<and>
    (\<forall>d. runs_to (m_env m) p d \<longrightarrow> (\<exists>n. daemon_inv (m_env m) V n e M d) \<and> events_ok (out (glob (r_in d))))"
proof -
  from start_ok [OF assms(1,3-5,7)] obtain p e where
    p: "start m c w = Inr p" "p_engine p = Some e" "as_configured m c p" "eng_ok V (p_world p) e" "disk_ok (p_world p) e"
      "eng_docs V (p_world p) e = M" "epath e = dir" "IndexDuration e = IndexDuration (NewEngine dir)" "RetentionPeriod e = r" "isOpen e" by blast
  have "(\<exists>n. daemon_inv (m_env m) V n e M d) \<and> events_ok (out (glob (r_in d)))" if "runs_to (m_env m) p d" for d
    using runs_inv [OF that assms(2,1) p(3,2,4,5) assms(6)] unfolding p(6) events_ok_def by blast
  with p(1,7-10) show ?thesis by blast
qed

section \<open>Properties\<close>

text \<open>The event is in the engine, with its text, or older than the retention period \<open>r\<close> at the last check.\<close>

definition held_or_old :: "'b view \<Rightarrow> duration \<Rightarrow> 'b running \<Rightarrow> Event \<Rightarrow> bool" where
  "held_or_old V r d ev \<longleftrightarrow> (\<exists>ev1 t doc. ReferenceTime ev = Some (ev1, t) \<and> as_document ev = Some doc \<and>
     (engine_map V (ixs (r_bat d)) (doc_id doc) = Some (\<lparr>Message = Text ev\<rparr>, Text ev) \<or> t + r < r_clock d))"

lemma accepted_entry:
  assumes "those (map as_document (acc @ rest)) = Some ds" and "distinct (map doc_id ds)" and "ev \<in> set acc" and "event_ok ev"
  shows "\<exists>ev1 t doc. ReferenceTime ev = Some (ev1, t) \<and> as_document ev = Some doc \<and> id_time (doc_id doc) = t \<and>
    event_entry acc (doc_id doc) = Some (\<lparr>Message = Text ev\<rparr>, Text ev)"
proof -
  from assms(4) obtain ev1 t where t: "ReferenceTime ev = Some (ev1, t)" "in_range t" by (auto simp: event_ok_def)
  from as_document_ok [OF this] obtain doc where doc: "as_document ev = Some doc" "data doc = \<lparr>Message = Text ev\<rparr>"
    "source doc = Text ev" "id_time (doc_id doc) = t" by blast
  let ?ds = "List.map_filter as_document acc"
  have "ds = ?ds @ List.map_filter as_document rest"
    using those_map_filter [OF assms(1)] by (simp add: map_filter_def)
  then have "distinct (map doc_id ?ds)" using assms(2) by simp
  moreover have "doc \<in> set ?ds" using doc(1) assms(3) by (force simp: map_filter_def)
  ultimately have "event_entry acc (doc_id doc) = Some (data doc, source doc)"
    using doc_map_distinct [of ?ds doc] by (simp add: event_entry_def doc_entry_def)
  with t(1) doc show ?thesis by auto
qed

lemma event_entry_dom: "event_entry evs x \<noteq> None \<Longrightarrow> \<exists>ev\<in>set evs. \<exists>doc. as_document ev = Some doc \<and> doc_id doc = x"
proof -
  assume "event_entry evs x \<noteq> None"
  then have "doc_map (List.map_filter as_document evs) x \<noteq> None" by (auto simp: event_entry_def doc_entry_def)
  then have "x \<in> doc_id ` set (List.map_filter as_document evs)" unfolding doc_map_None by simp
  then show ?thesis by (force simp: map_filter_def)
qed

lemma event_entry_text:
  assumes "event_entry evs x = Some (md, msg)"
  shows "\<exists>ev\<in>set evs. Text ev = msg"
proof -
  from assms obtain doc where "doc_map (List.map_filter as_document evs) x = Some doc" "source doc = msg"
    by (auto simp: event_entry_def doc_entry_def)
  then have "doc \<in> set (List.map_filter as_document evs)" using doc_map_Some by blast
  then obtain ev where "ev \<in> set evs" "as_document ev = Some doc" by (auto simp: map_filter_def)
  with \<open>source doc = msg\<close> show ?thesis by (intro bexI [of _ ev]) (auto simp: as_document_def ID_def Source_def split: option.splits prod.splits dest: ReferenceTime_memo)
qed

lemma retained_old:
  assumes "retained V M r d" and "M x = Some y"
  shows "engine_map V (ixs (r_bat d)) x = Some y \<or> id_time x + r < r_clock d \<or>
    (\<exists>ev\<in>set (concat (accepted (r_bat d))). \<exists>doc. as_document ev = Some doc \<and> doc_id doc = x)"
proof (cases "event_entry (concat (accepted (r_bat d))) x")
  case None
  then have "(M ++ event_entry (concat (accepted (r_bat d)))) x = Some y" using assms(2) by (simp add: map_add_def)
  with assms(1) show ?thesis unfolding retained_def all_but_def by metis
next
  case (Some y)
  then show ?thesis using event_entry_dom [of "concat (accepted (r_bat d))" x] by simp
qed

lemma inv_held_or_old:
  assumes "daemon_inv env V n e M d" and "events_ok (out (glob (r_in d)))" and "ev \<in> set (concat (accepted (r_bat d)))"
  shows "held_or_old V (RetentionPeriod e) d ev"
proof -
  let ?acc = "concat (accepted (r_bat d))"
  have inv: "out (glob (r_in d)) = ?acc @ batch (r_bat d) @ chan (r_bat d)" "retained V M (RetentionPeriod e) d"
    using assms(1) by (auto simp: daemon_inv_def healthy_def conserved_def)
  obtain ds where ds: "those (map as_document (out (glob (r_in d)))) = Some ds" "distinct (map doc_id ds)" and "event_ok ev"
    using assms(2,3) inv(1) by (auto simp: events_ok_def)
  from accepted_entry [OF ds(1) [unfolded inv(1)] ds(2) assms(3) this(3)] obtain ev1 t doc where
    e: "ReferenceTime ev = Some (ev1, t)" "as_document ev = Some doc" "id_time (doc_id doc) = t"
      "event_entry ?acc (doc_id doc) = Some (\<lparr>Message = Text ev\<rparr>, Text ev)" by blast
  have "(M ++ event_entry ?acc) (doc_id doc) = Some (\<lparr>Message = Text ev\<rparr>, Text ev)" using e(4) by simp
  with inv(2) e(3) have "engine_map V (ixs (r_bat d)) (doc_id doc) = Some (\<lparr>Message = Text ev\<rparr>, Text ev) \<or>
      t + RetentionPeriod e < r_clock d" unfolding retained_def all_but_def by metis
  with e(1,2) show ?thesis unfolding held_or_old_def by blast
qed

text \<open>
  Every step of the collectors is one of the daemon, as long as the channel has room; and the daemon can bring its batcher
  to rest.
\<close>

lemma sys_step_out: "sys_step s s' \<Longrightarrow> out (glob s') = out (glob s) \<or> (\<exists>ev. out (glob s') = out (glob s) @ [ev])"
proof (induction rule: sys_step.induct)
  case (Read i s c t r g c')
  then show ?case using tcp_read_effect [of t r "glob s" c g c'] by (auto simp: effect_defs)
next
  case (Send i s c g c')
  then show ?case using tcp_send_effect [of "glob s" c g c'] by (auto simp: effect_defs)
next
  case (ReadUDP i s u t d g u')
  then show ?case using udp_read_effect [of t d "glob s" u g u'] by (auto simp: effect_defs)
next
  case (SendUDP i s u g u')
  then show ?case using udp_send_effect [of "glob s" u g u'] by (auto simp: effect_defs)
qed (auto simp: tcp_accept_def split: sum.splits)

lemma collectors_run:
  assumes "sys_step\<^sup>*\<^sup>* (r_in d0) s" and "length (out (glob s)) \<le> cap (r_bat d0)" and "chan (r_bat d0) = out (glob (r_in d0))"
    and "sent (r_bat d0) = out (glob (r_in d0))"
  shows "(daemon_step env)\<^sup>*\<^sup>* d0 (d0\<lparr>r_in := s, r_bat := (r_bat d0)\<lparr>chan := out (glob s), sent := out (glob s)\<rparr>\<rparr>)"
  using assms
proof (induction rule: rtranclp_induct)
  case base
  have "(r_bat d0)\<lparr>chan := out (glob (r_in d0)), sent := out (glob (r_in d0))\<rparr> = r_bat d0"
    using base.prems(2,3) by (cases "r_bat d0") simp
  then show ?case by simp
next
  case (step s s')
  let ?d = "\<lambda>s. d0\<lparr>r_in := s, r_bat := (r_bat d0)\<lparr>chan := out (glob s), sent := out (glob s)\<rparr>\<rparr>"
  from sys_step_out [OF step.hyps(2)] have "length (out (glob s)) \<le> length (out (glob s'))" by auto
  with step have run: "(daemon_step env)\<^sup>*\<^sup>* d0 (?d s)" by simp
  from sys_step_out [OF step.hyps(2)] have "daemon_step env (?d s) (?d s')"
  proof (elim disjE exE)
    assume "out (glob s') = out (glob s)"
    moreover from this have "daemon_step env (?d s) ((?d s)\<lparr>r_in := s'\<rparr>)"
      using step.hyps(2) by (intro daemon_step.Collect) simp_all
    moreover have "(?d s)\<lparr>r_in := s'\<rparr> = ?d s'" using calculation(1) by (cases d0) simp
    ultimately show ?thesis by metis
  next
    fix ev assume ev: "out (glob s') = out (glob s) @ [ev]"
    with step.prems(1) have "step (engine_indexer env) (r_bat (?d s)) (r_bat (?d s'))"
      using step.Produce [of "r_bat (?d s)" "engine_indexer env" ev] by simp
    with daemon_step.Send [of "?d s" s' ev env "r_bat (?d s')"] step.hyps(2) ev show ?thesis by simp
  qed
  with run show ?case by simp
qed

lemma batcher_runs: "(run (engine_indexer env))\<^sup>*\<^sup>* (r_bat d) b \<Longrightarrow> (daemon_step env)\<^sup>*\<^sup>* d (d\<lparr>r_bat := b\<rparr>)"
proof (induction rule: rtranclp_induct)
  case (step b b')
  have "daemon_step env (d\<lparr>r_bat := b\<rparr>) (d\<lparr>r_bat := b\<rparr>\<lparr>r_bat := b'\<rparr>)"
    by (rule daemon_step.Batch) (use step.hyps(2) in simp)
  with step.IH show ?case by simp
qed simp

text \<open>One message through the daemon with its default parameters.\<close>

lemma one_message_through:
  assumes "start mem_machine default_config mem_start = Inr p"
  shows "\<exists>d ev. runs_to mem_env p d \<and> (\<nexists>b. run (engine_indexer mem_env) (r_bat d) b) \<and> out (glob (r_in d)) = [ev] \<and>
    Text ev = line_of (a_msg ''x'') \<and> r_clock d = 0"
proof -
  obtain s ev where s: "sys_step\<^sup>*\<^sup>* (sys_init 7) s" "length (made (glob s)) = 1" "out (glob s) = [ev]"
    and ev: "Text ev = line_of (a_msg ''x'')" "Parsed ev = Some (fields_of (a_msg ''x''))" "referenceTime ev = 0"
    using one_datagram_collected [of 7] by (elim exE conjE) (rule that)
  have "parse_rfc3339 ''2003-08-24T05:14:15Z'' = Some (unix_epoch + 1061702055 * ns_per_sec)" by code_simp
  then have t: "times_ok [ev]"
    using ev by (simp add: times_ok_def ReferenceTime_def IsZero_def fields_of_def a_msg_def in_range_def ns_per_sec_def)
  let ?d = "boot 7 0 p"
  obtain x where "r_bat ?d = NewBatcher x 300 (milliseconds 1000) 1000"
    using start_Inr [OF assms] by (auto simp: boot_def as_configured_def default_config_def)
  then have "cap (r_bat ?d) = 1000" "chan (r_bat ?d) = []" "sent (r_bat ?d) = []" by (simp_all add: NewBatcher_def)
  then have 1: "(daemon_step mem_env)\<^sup>*\<^sup>* ?d (?d\<lparr>r_in := s, r_bat := (r_bat ?d)\<lparr>chan := [ev], sent := [ev]\<rparr>\<rparr>)"
    using collectors_run [of ?d s mem_env] s by (simp add: boot_def sys_init_def)
  obtain b where b: "(run (engine_indexer mem_env))\<^sup>*\<^sup>* ((r_bat ?d)\<lparr>chan := [ev], sent := [ev]\<rparr>) b"
    "\<nexists>b'. run (engine_indexer mem_env) b b'" using run_drains by blast
  have "(daemon_step mem_env)\<^sup>*\<^sup>* ?d (?d\<lparr>r_in := s, r_bat := b\<rparr>)"
    using rtranclp_trans [OF 1] batcher_runs [of mem_env "?d\<lparr>r_in := s, r_bat := (r_bat ?d)\<lparr>chan := [ev], sent := [ev]\<rparr>\<rparr>" b] b(1)
    by simp
  then have "runs_to mem_env p (?d\<lparr>r_in := s, r_bat := b\<rparr>)" unfolding runs_to_def using s t by auto
  with b(2) s(3) ev(1) show ?thesis by (intro exI [of _ "?d\<lparr>r_in := s, r_bat := b\<rparr>"] exI [of _ ev]) (simp add: boot_def)
qed

lemmas mem_daemon = mem_no_faults mem_env_works mem_reopens mem_machine_up(1) default_config_ok mem_dir_empty

lemma default_batch: "0 < f_batchSize default_config"
  by (simp add: default_config_def)

lemma one_message_few:
  assumes "start mem_machine default_config mem_start = Inr p" and "runs_to mem_env p d" and "out (glob (r_in d)) = [ev]"
    and "ixs (r_bat d) = (w', e')"
  shows "\<forall>i\<in>set (indexes e'). card (matching mem_view w' i q) \<le> maxSearchHitSize"
proof
  fix i assume i: "i \<in> set (indexes e')"
  from started_runs [where m = mem_machine and V = mem_view, unfolded mem_machine_up(2), OF mem_daemon(1-5) default_batch mem_daemon(6)]
  obtain n e where inv: "daemon_inv mem_env mem_view n e Map.empty d" using assms(1,2) by auto
  let ?acc = "concat (accepted (r_bat d))"
  have r: "retained mem_view Map.empty (RetentionPeriod e) d" and eok: "eng_ok mem_view w' e'"
    using inv assms(4) by (simp_all add: daemon_inv_def healthy_def durable_def engine_up_def)
  have "[ev] = ?acc @ batch (r_bat d) @ chan (r_bat d)"
    using inv assms(3) unfolding daemon_inv_def healthy_def conserved_def by metis
  then have acc: "set ?acc \<subseteq> {ev}" by (metis list.set(1) list.simps(15) set_append Un_upper1)
  have "x \<in> (\<lambda>ev. doc_id (the (as_document ev))) ` set ?acc" if "eng_docs mem_view w' e' x = Some y" for x y
  proof -
    have "event_entry ?acc x \<noteq> None"
      using r that assms(4) unfolding retained_def all_but_def by (metis engine_map_def fst_conv snd_conv empty_map_add option.distinct(1))
    then show ?thesis using event_entry_dom by force
  qed
  then have "dom (eng_docs mem_view w' e') \<subseteq> (\<lambda>ev. doc_id (the (as_document ev))) ` {ev}" using acc by blast
  then have "card (dom (eng_docs mem_view w' e')) \<le> card ((\<lambda>ev. doc_id (the (as_document ev))) ` {ev})" by (intro card_mono) simp_all
  with card_matching_le [OF mem_env_works eok i, of q] show "card (matching mem_view w' i q) \<le> maxSearchHitSize"
    by simp
qed

text \<open>
  C1. No event is lost, and none dropped early. The daemon starts on a data directory that holds the documents \<open>M\<close>, when
  its parameters are valid (with a positive batch size), the network is up, the file system has no faults and the search library works. In every
  state it then reaches, whatever its goroutines do in whatever order, as long as fewer than \<open>2 ^ 64\<close> events have been made
  and their times lie in 1970 to 2262: the events the collectors have sent are, in order, those the engine has accepted, then the current batch,
  then those in the channel; each accepted event is in the engine, with its text, unless it was older than
  the retention period at the last retention check; and so is each document of \<open>M\<close>, unless an accepted event has its ID.
\<close>

theorem daemon_no_loss:
  assumes "no_faults (m_env m)" and "bleve_works (bleve (m_env m)) V" and "bleve_reopens (bleve (m_env m)) V"
    and "network_up m" and "config_ok m c dir r" and "0 < f_batchSize c" and "data_dir V w dir M"
  shows "\<exists>p. start m c w = Inr p \<and> (\<forall>d. runs_to (m_env m) p d \<longrightarrow>
    out (glob (r_in d)) = concat (accepted (r_bat d)) @ batch (r_bat d) @ chan (r_bat d) \<and>
    (\<forall>ev\<in>set (concat (accepted (r_bat d))). held_or_old V r d ev) \<and>
    (\<forall>x y. M x = Some y \<longrightarrow> engine_map V (ixs (r_bat d)) x = Some y \<or> id_time x + r < r_clock d \<or>
       (\<exists>ev\<in>set (concat (accepted (r_bat d))). \<exists>doc. as_document ev = Some doc \<and> doc_id doc = x)))"
proof -
  from started_runs [OF assms] obtain p e where p: "start m c w = Inr p" "RetentionPeriod e = r"
    "\<And>d. runs_to (m_env m) p d \<Longrightarrow> (\<exists>n. daemon_inv (m_env m) V n e M d) \<and> events_ok (out (glob (r_in d)))" by blast
  have "out (glob (r_in d)) = concat (accepted (r_bat d)) @ batch (r_bat d) @ chan (r_bat d) \<and>
      (\<forall>ev\<in>set (concat (accepted (r_bat d))). held_or_old V r d ev) \<and>
      (\<forall>x y. M x = Some y \<longrightarrow> engine_map V (ixs (r_bat d)) x = Some y \<or> id_time x + r < r_clock d \<or>
        (\<exists>ev\<in>set (concat (accepted (r_bat d))). \<exists>doc. as_document ev = Some doc \<and> doc_id doc = x))"
    if run: "runs_to (m_env m) p d" for d
  proof -
    obtain n where i: "daemon_inv (m_env m) V n e M d" and ok: "events_ok (out (glob (r_in d)))" using p(3) [OF run] by blast
    have "out (glob (r_in d)) = concat (accepted (r_bat d)) @ batch (r_bat d) @ chan (r_bat d)" "retained V M r d"
      using i p(2) by (auto simp: daemon_inv_def healthy_def conserved_def)
    with inv_held_or_old [OF i ok] retained_old [of V M r d] p(2) show ?thesis by blast
  qed
  with p(1) show ?thesis by blast
qed

theorem daemon_no_loss_witness:
  "\<exists>p d ev. start mem_machine default_config mem_start = Inr p \<and> runs_to mem_env p d \<and> out (glob (r_in d)) = [ev] \<and>
    [ev] = concat (accepted (r_bat d)) @ batch (r_bat d) @ chan (r_bat d) \<and>
    (\<forall>ev\<in>set (concat (accepted (r_bat d))). held_or_old mem_view (168 * 3600 * ns_per_sec) d ev)"
proof -
  from daemon_no_loss [where m = mem_machine and V = mem_view, unfolded mem_machine_up(2), OF mem_daemon(1-5) default_batch mem_daemon(6)]
  obtain p where p: "start mem_machine default_config mem_start = Inr p"
    and all: "\<And>d. runs_to mem_env p d \<Longrightarrow> out (glob (r_in d)) = concat (accepted (r_bat d)) @ batch (r_bat d) @ chan (r_bat d) \<and>
      (\<forall>ev\<in>set (concat (accepted (r_bat d))). held_or_old mem_view (168 * 3600 * ns_per_sec) d ev)" by (elim exE conjE) (rule that, blast+)
  obtain d ev where d: "runs_to mem_env p d" "out (glob (r_in d)) = [ev]" using one_message_through [OF p] by blast
  with all [OF d(1)] p show ?thesis by (intro exI [of _ p] exI [of _ d] exI [of _ ev]) simp
qed

text \<open>
  What is on disk while the daemon runs, between two of its steps, is a data directory that holds what the engine
  holds once no process has the shards open: after \<open>Close\<close>, or when the process has ended without it.
\<close>

lemma durable_data_dir:
  assumes "durable env V e0 x" and "epath e0 = dir" and "IndexDuration e0 = IndexDuration (NewEngine dir)"
    and "kept_world V (fst x) (snd x) w'"
  shows "data_dir V w' dir (engine_map V x)"
proof -
  have "epath (snd x) = dir" "IndexDuration (snd x) = IndexDuration (NewEngine dir)"
    using same_configD [of e0 "snd x"] assms(1-3) by (simp_all add: durable_def)
  with assms(1,4) show ?thesis
    unfolding data_dir_def by (intro exI [of _ "fst x"] exI [of _ "snd x"]) (simp add: durable_def engine_up_def engine_map_def)
qed

lemma shut_down_ok:
  assumes "durable env V e0 x" and "isOpen e0" and "bleve_closes (bleve env) V"
  shows "\<exists>w' acts. shut_down env x prof = Some (w', acts) \<and> kept_world V (fst x) (snd x) w'"
proof -
  have "eng_ok V (fst x) (snd x)" "isOpen (snd x)"
    using assms(1,2) same_configD(5) [of e0 "snd x"] by (simp_all add: durable_def engine_up_def)
  from Engine_Close_ok [OF assms(3) this] show ?thesis by (auto simp: shut_down_def)
qed

text \<open>
  C2. From one process to the next. Under the conditions of the previous property, take any state the daemon reaches
  between two of its steps, so while no call of \<open>Engine.Index\<close> and no retention check is under way. If the signal comes then, the
  daemon shuts down without a panic and leaves a data directory that holds exactly what the engine held. If the process is killed then, what it
  leaves (the same files, the shards with what they held, no longer open) is such a directory too. And a daemon started on
  such a directory, with any valid parameters for it, comes up with an engine in order that holds exactly that.
\<close>

theorem daemon_lifecycle:
  assumes "no_faults (m_env m)" and "bleve_works (bleve (m_env m)) V" and "bleve_reopens (bleve (m_env m)) V"
    and "bleve_closes (bleve (m_env m)) V"
    and "network_up m" and "config_ok m c dir r" and "0 < f_batchSize c" and "data_dir V w dir M"
  shows "\<exists>p. start m c w = Inr p \<and> (\<forall>d w1 e1. runs_to (m_env m) p d \<and> ixs (r_bat d) = (w1, e1) \<longrightarrow>
    (\<exists>w' acts. shut_down (m_env m) (w1, e1) (p_prof p) = Some (w', acts) \<and> data_dir V w' dir (eng_docs V w1 e1)) \<and>
    (\<forall>w'. kept_world V w1 e1 w' \<longrightarrow> data_dir V w' dir (eng_docs V w1 e1)) \<and>
    (\<forall>w' c' r'. data_dir V w' dir (eng_docs V w1 e1) \<and> config_ok m c' dir r' \<longrightarrow>
      (\<exists>p' e'. start m c' w' = Inr p' \<and> p_engine p' = Some e' \<and> isOpen e' \<and> eng_ok V (p_world p') e' \<and>
         eng_docs V (p_world p') e' = eng_docs V w1 e1 \<and> RetentionPeriod e' = r')))"
proof -
  from started_runs [OF assms(1-3,5-8)] obtain p e where
    p: "start m c w = Inr p" "epath e = dir" "IndexDuration e = IndexDuration (NewEngine dir)" "isOpen e"
      "\<And>d. runs_to (m_env m) p d \<Longrightarrow> (\<exists>n. daemon_inv (m_env m) V n e M d) \<and> events_ok (out (glob (r_in d)))" by blast
  have "(\<exists>w' acts. shut_down (m_env m) (w1, e1) (p_prof p) = Some (w', acts) \<and> data_dir V w' dir (eng_docs V w1 e1)) \<and>
      (\<forall>w'. kept_world V w1 e1 w' \<longrightarrow> data_dir V w' dir (eng_docs V w1 e1))"
    if run: "runs_to (m_env m) p d" and x: "ixs (r_bat d) = (w1, e1)" for d w1 e1
  proof -
    have du: "durable (m_env m) V e (w1, e1)" using p(5) [OF run] x by (auto simp: daemon_inv_def healthy_def)
    have dir: "data_dir V w' dir (eng_docs V w1 e1)" if "kept_world V w1 e1 w'" for w'
      using durable_data_dir [OF du p(2,3), of w'] that by (simp add: engine_map_def)
    with shut_down_ok [OF du p(4) assms(4), of "p_prof p"] show ?thesis by auto
  qed
  moreover have "\<exists>p' e'. start m c' w' = Inr p' \<and> p_engine p' = Some e' \<and> isOpen e' \<and> eng_ok V (p_world p') e' \<and>
      eng_docs V (p_world p') e' = K \<and> RetentionPeriod e' = r'" if "data_dir V w' dir K" "config_ok m c' dir r'" for w' c' r' K
    using start_ok [OF assms(1,3,5) that(2,1)] by blast
  ultimately show ?thesis using p(1) by blast
qed

theorem daemon_lifecycle_witness:
  "\<exists>p d ev w1 e1 w' acts p' e'. start mem_machine default_config mem_start = Inr p \<and> runs_to mem_env p d \<and> out (glob (r_in d)) = [ev] \<and>
    ixs (r_bat d) = (w1, e1) \<and> shut_down mem_env (w1, e1) (p_prof p) = Some (w', acts) \<and>
    start mem_machine default_config w' = Inr p' \<and> p_engine p' = Some e' \<and>
    eng_docs mem_view (p_world p') e' = eng_docs mem_view w1 e1"
proof -
  from daemon_lifecycle [where m = mem_machine and V = mem_view, unfolded mem_machine_up(2),
      OF mem_daemon(1-3) mem_closes mem_daemon(4,5) default_batch mem_daemon(6)]
  obtain p where p: "start mem_machine default_config mem_start = Inr p"
    and all: "\<And>d w1 e1. runs_to mem_env p d \<Longrightarrow> ixs (r_bat d) = (w1, e1) \<Longrightarrow>
      (\<exists>w' acts. shut_down mem_env (w1, e1) (p_prof p) = Some (w', acts) \<and> data_dir mem_view w' default_dir (eng_docs mem_view w1 e1))"
      "\<And>d w1 e1 w' c' r'. runs_to mem_env p d \<Longrightarrow> ixs (r_bat d) = (w1, e1) \<Longrightarrow> data_dir mem_view w' default_dir (eng_docs mem_view w1 e1) \<Longrightarrow>
        config_ok mem_machine c' default_dir r' \<Longrightarrow> (\<exists>p' e'. start mem_machine c' w' = Inr p' \<and> p_engine p' = Some e' \<and>
          eng_docs mem_view (p_world p') e' = eng_docs mem_view w1 e1)" by (elim exE conjE) (rule that, blast+)
  obtain d ev where d: "runs_to mem_env p d" "out (glob (r_in d)) = [ev]" using one_message_through [OF p] by blast
  obtain w1 e1 where x: "ixs (r_bat d) = (w1, e1)" by fastforce
  from all(1) [OF d(1) x] obtain w' acts where w': "shut_down mem_env (w1, e1) (p_prof p) = Some (w', acts)"
    "data_dir mem_view w' default_dir (eng_docs mem_view w1 e1)" by blast
  from all(2) [OF d(1) x w'(2) default_config_ok] p d x w'(1) show ?thesis by blast
qed

text \<open>A search in a state in which everything has been accepted.\<close>

definition answers :: "'b view \<Rightarrow> (DocID \<rightharpoonup> doc_data \<times> bytes) \<Rightarrow> duration \<Rightarrow> 'b running \<Rightarrow> bytes \<Rightarrow> bytes list \<Rightarrow> bool" where
  "answers V M r d q res \<longleftrightarrow>
     (\<forall>ev\<in>set (out (glob (r_in d))). matches V q \<lparr>Message = Text ev\<rparr> \<longrightarrow>
        Text ev \<in> set res \<or> (\<exists>ev1 t. ReferenceTime ev = Some (ev1, t) \<and> t + r < r_clock d)) \<and>
     (\<forall>msg\<in>set res. (\<exists>ev\<in>set (out (glob (r_in d))). Text ev = msg) \<or> (\<exists>x md. M x = Some (md, msg)))"

lemma inv_answers:
  assumes "bleve_works (bleve env) V" and "daemon_inv env V n e M d" and "events_ok (out (glob (r_in d)))"
    and "\<nexists>b. run (engine_indexer env) (r_bat d) b" and x: "ixs (r_bat d) = (w', e')"
    and "\<forall>i\<in>set (indexes e'). card (matching V w' i q) \<le> maxSearchHitSize"
  shows "\<exists>res. Engine_Search env w' e' q = Some res \<and> answers V M (RetentionPeriod e) d q res"
proof -
  let ?out = "out (glob (r_in d))" and ?r = "RetentionPeriod e"
  have h: "healthy (durable env V e) (r_bat d)" "sent (r_bat d) = ?out" "retained V M ?r d"
    using assms(2) by (simp_all add: daemon_inv_def)
  have all: "concat (accepted (r_bat d)) = ?out"
    using du.idle_delivered(1) [OF h(1) _ assms(4)] assms(3) unfolding h(2) events_ok_def by blast
  have eok: "eng_ok V w' e'" using h(1) x by (simp add: healthy_def durable_def engine_up_def)
  have em: "engine_map V (ixs (r_bat d)) = eng_docs V w' e'" by (simp add: x engine_map_def)
  from Engine_Search_ok [OF assms(1) eok, of q] assms(6) obtain ids where
    s: "Engine_Search env w' e' q = Some (map (\<lambda>x. snd (the (eng_docs V w' e' x))) ids)"
      "\<And>x. x \<in> set ids \<Longrightarrow> \<exists>d b. eng_docs V w' e' x = Some (d, b)"
      "\<And>x d b. eng_docs V w' e' x = Some (d, b) \<Longrightarrow> matches V q d \<Longrightarrow> x \<in> set ids" by blast
  let ?res = "map (\<lambda>x. snd (the (eng_docs V w' e' x))) ids"
  have "Text ev \<in> set ?res \<or> (\<exists>ev1 t. ReferenceTime ev = Some (ev1, t) \<and> t + ?r < r_clock d)"
    if "ev \<in> set ?out" "matches V q \<lparr>Message = Text ev\<rparr>" for ev
  proof -
    have "held_or_old V ?r d ev" using inv_held_or_old [OF assms(2,3), of ev] that(1) unfolding all by blast
    then show ?thesis unfolding held_or_old_def em using s(3) [OF _ that(2)] by (force simp: image_iff)
  qed
  moreover have "(\<exists>ev\<in>set ?out. Text ev = msg) \<or> (\<exists>x md. M x = Some (md, msg))" if res: "msg \<in> set ?res" for msg
  proof -
    obtain y where "y \<in> set ids" "msg = snd (the (eng_docs V w' e' y))" using res by auto
    with s(2) [of y] obtain md where "eng_docs V w' e' y = Some (md, msg)" by auto
    then have "(M ++ event_entry ?out) y = Some (md, msg)"
      using h(3) unfolding retained_def all_but_def em all by (metis option.distinct(1))
    then show ?thesis using event_entry_text [of ?out y md msg] by (auto simp: map_add_Some_iff)
  qed
  ultimately show ?thesis using s(1) by (auto simp: answers_def)
qed

text \<open>
  C3. What the running daemon answers. Under the same conditions, in any state in which the batcher has come to rest and no index has
  more than \<open>maxSearchHitSize\<close> matches, a search delivers the text of every event the collectors have sent that matches and
  was not older than the retention period at the last check; and it delivers nothing but texts of events sent and messages
  of documents that were in the data directory at the start.
\<close>

theorem daemon_serves:
  assumes "no_faults (m_env m)" and "bleve_works (bleve (m_env m)) V" and "bleve_reopens (bleve (m_env m)) V"
    and "network_up m" and "config_ok m c dir r" and "0 < f_batchSize c" and "data_dir V w dir M"
  shows "\<exists>p. start m c w = Inr p \<and> (\<forall>d w' e' q. runs_to (m_env m) p d \<and> (\<nexists>b. run (engine_indexer (m_env m)) (r_bat d) b) \<and>
      ixs (r_bat d) = (w', e') \<and> (\<forall>i\<in>set (indexes e'). card (matching V w' i q) \<le> maxSearchHitSize) \<longrightarrow>
    (\<exists>res. Engine_Search (m_env m) w' e' q = Some res \<and>
      (\<forall>ev\<in>set (out (glob (r_in d))). matches V q \<lparr>Message = Text ev\<rparr> \<longrightarrow>
         Text ev \<in> set res \<or> (\<exists>ev1 t. ReferenceTime ev = Some (ev1, t) \<and> t + r < r_clock d)) \<and>
      (\<forall>msg\<in>set res. (\<exists>ev\<in>set (out (glob (r_in d))). Text ev = msg) \<or> (\<exists>x md. M x = Some (md, msg)))))"
proof -
  from started_runs [OF assms] obtain p e where p: "start m c w = Inr p" "RetentionPeriod e = r"
    "\<And>d. runs_to (m_env m) p d \<Longrightarrow> (\<exists>n. daemon_inv (m_env m) V n e M d) \<and> events_ok (out (glob (r_in d)))" by blast
  have "\<exists>res. Engine_Search (m_env m) w' e' q = Some res \<and> answers V M r d q res"
    if "runs_to (m_env m) p d" "\<nexists>b. run (engine_indexer (m_env m)) (r_bat d) b" "ixs (r_bat d) = (w', e')"
      "\<forall>i\<in>set (indexes e'). card (matching V w' i q) \<le> maxSearchHitSize" for d w' e' q
    using p(3) [OF that(1)] inv_answers [OF assms(2) _ _ that(2-4)] unfolding p(2) [symmetric] by blast
  with p(1) show ?thesis unfolding answers_def by blast
qed

theorem daemon_serves_witness:
  "\<exists>p d w' e' res. start mem_machine default_config mem_start = Inr p \<and> runs_to mem_env p d \<and> ixs (r_bat d) = (w', e') \<and>
    Engine_Search mem_env w' e' ''ubuntu'' = Some res \<and> line_of (a_msg ''x'') \<in> set res"
proof -
  from daemon_serves [where m = mem_machine and V = mem_view, unfolded mem_machine_up(2), OF mem_daemon(1-5) default_batch mem_daemon(6)]
  obtain p where p: "start mem_machine default_config mem_start = Inr p"
    and all: "\<And>d w' e' q. runs_to mem_env p d \<Longrightarrow> \<nexists>b. run (engine_indexer mem_env) (r_bat d) b \<Longrightarrow> ixs (r_bat d) = (w', e') \<Longrightarrow>
      \<forall>i\<in>set (indexes e'). card (matching mem_view w' i q) \<le> maxSearchHitSize \<Longrightarrow>
      (\<exists>res. Engine_Search mem_env w' e' q = Some res \<and> (\<forall>ev\<in>set (out (glob (r_in d))). matches mem_view q \<lparr>Message = Text ev\<rparr> \<longrightarrow>
         Text ev \<in> set res \<or> (\<exists>ev1 t. ReferenceTime ev = Some (ev1, t) \<and> t + 168 * 3600 * ns_per_sec < r_clock d)))"
    by (elim exE conjE) (rule that, blast+)
  obtain d ev where d: "runs_to mem_env p d" "\<nexists>b. run (engine_indexer mem_env) (r_bat d) b" "out (glob (r_in d)) = [ev]"
    "Text ev = line_of (a_msg ''x'')" "r_clock d = 0" using one_message_through [OF p] by blast
  obtain w' e' where x: "ixs (r_bat d) = (w', e')" by fastforce
  from all [OF d(1,2) x one_message_few [OF p d(1,3) x], of "''ubuntu''"] obtain res where
    res: "Engine_Search mem_env w' e' ''ubuntu'' = Some res" "matches mem_view ''ubuntu'' \<lparr>Message = Text ev\<rparr> \<longrightarrow>
      Text ev \<in> set res \<or> (\<exists>ev1 t. ReferenceTime ev = Some (ev1, t) \<and> t + 168 * 3600 * ns_per_sec < 0)" unfolding d(3,5) by auto
  have "matches mem_view ''ubuntu'' \<lparr>Message = Text ev\<rparr>"
    unfolding d(4) mem_view_def
    using sublist_appendI [of "''ubuntu''" "''<134>1 2003-08-24T05:14:15Z ''" "'' sshd 1999 - x''"]
    by (simp add: line_of_def a_msg_def rfc5424_line_def)
  moreover have "\<not> (ReferenceTime ev = Some (ev1, t) \<and> t + 168 * 3600 * ns_per_sec < 0)" for ev1 t
  proof -
    have "in_range t" if "ReferenceTime ev = Some (ev1, t)" using d(1,3) that by (simp add: runs_to_def times_ok_def)
    then show ?thesis by (auto simp: in_range_def unix_epoch_def ns_per_sec_def)
  qed
  ultimately have "line_of (a_msg ''x'') \<in> set res" using res(2) d(4) by auto
  with p d(1) x res(1) show ?thesis by blast
qed

end
