(* ===== verification/Spec2Isabelle.thy ===== *)
theory Spec2Isabelle
  imports Netstr_Delimiter RFC5424_Delimiter Query_Language Search_Race Daemon_Run
begin

text \<open>
  \<^bold>\<open>Ekanite, verified.\<close> Ekanite is a syslog server with text search, written in Go. Collectors
  receive log lines over TCP and UDP, cut them out of the byte stream, parse them and send them as
  events to a batcher; the batcher hands batches to the engine; the engine keeps one index per
  period of time, each split into shards stored by the \<open>bleve\<close> library, and drops indexes that have
  expired; query servers answer searches over TCP and HTTP; a status service reports on the process; the
  daemon starts all of them as its flags say.
  This library models these parts from the Go source and proves what makes each correct, then
  composes them.

  \<^bold>\<open>Theories and sources\<close> (paths under \<open>src/\<close>).

  \<^item> \<open>Prelude\<close>: bytes, and the functions of Go's \<open>strings\<close> and \<open>strconv\<close> the components share. A Go
    string is a list of bytes; a method that panics returns \<^const>\<open>None\<close>, one that returns an error a sum.
  \<^item> \<open>Regex\<close>: Go's leftmost-first regular expressions, as a list of matches in order of preference,
    with a relational meaning and rules for the preferred match. \<open>Go_Time\<close>: instants in
    nanoseconds and \<open>time.Parse\<close> for RFC3339. \<open>Go_Sort\<close>: what \<open>sort.Sort\<close> promises (locale \<open>sort_contract\<close>)
    and an instance. \<open>Http\<close>: requests and response writers that may fail.
  \<^item> \<open>Framing\<close>: the contract of a byte-by-byte delimiter (locale \<open>framing\<close>), interpreted by
    \<open>Syslog_Delimiter\<close> (\<open>input/delimiter_syslog.go\<close>) and \<open>RFC5424_Delimiter\<close> (\<open>rfc5424/delimiter.go\<close>).
    \<open>Netstr_Delimiter\<close>: \<open>input/delimiter_netstrings.go\<close>. Shown: framing round trips, no byte is lost on
    any stream, errors of malformed lengths, totality of \<open>ReadLine\<close>.
  \<^item> \<open>Log_Parser\<close>: \<open>parser/rfc5424.go\<close>, \<open>parser/watchguard.go\<close>, \<open>input/parser.go\<close> and
    \<open>rfc5424/reader.go\<close>. Shown: parsers recover the fields of a line, accept exactly the lines of the
    format.
  \<^item> \<open>Event\<close>: \<open>input/event.go\<close>, \<open>event.go\<close> and the document IDs of \<open>index.go\<close>. Shown: reference times never
    panic for parsed events; IDs order events by time and sequence number from 1970 to 2262.
  \<^item> \<open>Query_Lexer\<close>, \<open>Query_Parser\<close>, \<open>Query_Language\<close>: \<open>query/token.go\<close>, \<open>query/lexer.go\<close>,
    \<open>query/parser.go\<close>. Shown: tokens are the input; the parser terminates, accepts every query and
    gives AND, OR and NOT their precedence; printing and parsing again.
  \<^item> \<open>Index_Name\<close>, \<open>Storage\<close>, \<open>Index_Store\<close>, \<open>Index_Disk\<close>: \<open>index.go\<close>. A world is a file system and the
    stores of bleve; system calls may fail (\<open>fault\<close>); bleve is a record of operations with a named
    contract (\<open>bleve_works\<close>), which an in-memory instance meets. Shown, through the locale \<open>doc_store\<close>: indexing
    overrides a map, in any order of the goroutines; searches are sorted; an index that is closed reopens as it was.
  \<^item> \<open>Engine\<close>, \<open>Engine_Service\<close>: the engine of \<open>engine.go\<close>, with its invariant \<open>eng_ok\<close>. Shown: \<open>Index\<close>
    refines overriding a map from IDs to messages, \<open>Search\<close> delivers matches in order of time across
    indexes, retention drops exactly the expired indexes.
  \<^item> \<open>Engine_Restart\<close>: the files behind an engine (invariant \<open>disk_ok\<close>), \<open>Close\<close> and \<open>Open\<close>. Shown: what an engine holds is
    on disk after every operation, and a new process that opens the directory gets the same indexes and documents; but one that
    finds an index whose creation was cut short cannot open the directory at all.
  \<^item> \<open>Search_Race\<close>: the goroutine of \<open>Search\<close> turn by turn, which runs without the lock. Shown: it delivers what \<open>Search\<close>
    promises if the list of indexes stays as it is, panics after retention, and skips an index after one is created.
  \<^item> \<open>Batcher\<close>: the batcher of \<open>engine.go\<close> as a step relation on a state with its channel and timer, over
    an indexer described by the locales \<open>reliable_indexer\<close> and \<open>event_indexer\<close>. Shown: conservation of events,
    delivery of all events once producers pause, and how an error stops it.
  \<^item> \<open>Collector\<close>: \<open>input/collector.go\<close>. One connection is a function of what its reads return; all
    goroutines together are the step relation \<open>sys_step\<close>. Shown: messages sent become events, one
    each; no two events have the same sequence number or document ID under any interleaving.
  \<^item> \<open>Query_Server\<close> and \<open>HTTP_Server\<close>: \<open>server.go\<close>, \<open>server_http.go\<close>, over a searcher (locale
    \<open>search_service\<close>). Shown: every line is answered and a client that splits the bytes at newlines can read back results
    that hold none; every branch's status; log messages cannot inject markup in the result page.
  \<^item> \<open>Status_Service\<close>: \<open>status/service.go\<close>. Shown: every response outside the profiler's pages.
  \<^item> \<open>Pipeline\<close>: the composition \<open>cmd/ekanited/main.go\<close> makes. The engine is interpreted as the batcher's
    \<open>event_indexer\<close> and the servers' \<open>search_service\<close>; what the collectors send is in the engine when the
    batcher has come to rest, is found by searches and answered to clients.
  \<^item> \<open>Go_Duration\<close>, \<open>Daemon_Flags\<close>, \<open>Daemon\<close>: \<open>cmd/ekanited/main.go\<close>. \<open>time.ParseDuration\<close>, the flags and
    their parsing, and \<open>main\<close> from the flags to the signal, over a record of what it asks of the machine (\<open>machine\<close>); a
    fatal error is a value. Shown: a command line sets the parameters it names; what a successful start has started; that it
    succeeds on valid parameters; and what it fails to check.
  \<^item> \<open>Daemon_Run\<close>: the running daemon, all goroutines of collectors, batcher and retention as one step relation
    (\<open>daemon_step\<close>), with the engine interpreted as \<open>event_indexer\<close> with its files on disk. Shown for every interleaving: no event
    is lost, nothing is dropped before its retention period is over, searches find what was sent, and the next process
    starts with what the last one held (\<open>data_dir\<close>), whether it was shut down or killed, if that was between two steps.

  \<^bold>\<open>Bounds and termination.\<close> All functions are total. The query parser runs on fuel of three times the number of
  tokens plus three; that this is enough for every input is a theorem. \<open>ReadLine\<close>, the lexer and the
  servers recurse on the rest of their input. The batcher and the collectors run for ever, so they
  are step relations; that the batcher comes to rest is proved with a measure. Integers are 64-bit words where
  the code formats or compares them as such (IDs, sequence numbers, document counts, the batch timeout), and the places where
  they wrap are part of the statements. The statistics of the batcher and its sizes are natural numbers; that a negative size panics is in
  \<open>startBatcher\<close>.

  \<^bold>\<open>Hypotheses.\<close> Properties of storage assume a file system without faults (\<open>no_faults\<close>) and what the documentation of bleve
  promises (\<open>bleve_works\<close>, \<open>bleve_reopens\<close>, \<open>bleve_closes\<close>); those of the daemon also that addresses not in use can be listened on
  (\<open>network_up\<close>) and that the parameters make sense (\<open>config_ok\<close>). Each is met by a concrete instance in the witnesses. The contract
  of bleve is that of a library without failures of its own: creating an index and indexing a batch succeed, every query is
  accepted, an index that nobody has open can be opened. What the index does when the library fails is shown without it
  (\<open>index_any_order\<close>, \<open>index_errors_dropped\<close>).

  \<^bold>\<open>Not modelled.\<close> Sockets, listeners, the TLS protocol, the parsers of certificates and the writing of profiles are parameters or
  actions of the process; logging and \<open>GOMAXPROCS\<close> are left out, and so are the getters
  of addresses and paths, which are the fields of the records. The batcher's timer is set to the configured time but may fire at any moment. Operations of the engine are atomic: each runs under its mutex, except that
  \<open>Index\<close> releases it to create an index, where retention could come in between, and that \<open>Search\<close> goes on without it
  (\<open>Search_Race\<close>); \<open>Close\<close> does not take it, and what other goroutines do while the process ends is left out. The statements about a
  process that ends are therefore about an end while none of these operations is under way; \<open>torn_index_fatal\<close> is about one in the middle of \<open>NewIndex\<close>. Where goroutines share state
  without a lock (the shards of a batch, the sequence number, the channel) the interleavings are modelled. The JSON encoding of
  provider values and the pprof handlers are parameters of the status service.
\<close>

end
